(* ===== verification/Prelude.thy ===== *)
theory Prelude
  imports Main "HOL-Library.Word" "HOL-Library.Monad_Syntax"
begin

text \<open>
  Shared base of the development: the machine integers of the C sources, the flat byte
  memory every component reads and writes, little-endian loads and stores of 8, 16, 32 and
  64 bits, the interface \<open>mem_cell\<close> that the four access widths satisfy, and the generic
  lemmas on separated regions and on arrays in memory that the component theories use.

  The model follows the code gcc emits for these sources without optimisation on amd64
  (neither Makefile passes an optimisation level above \<open>-O0\<close>): unsigned arithmetic wraps, a
  narrowing conversion truncates, a shift of a 32-bit operand uses the count modulo 32, and a
  load or store at any address is an access to the flat memory.
\<close>

unbundle bit_operations_syntax

section \<open>Machine integers and memory\<close>

type_synonym u8 = "8 word"
type_synonym u16 = "16 word"
type_synonym u32 = "32 word"
type_synonym u64 = "64 word"
type_synonym memory = "u64 \<Rightarrow> u8"

named_theorems mem_simps \<open>loads after stores, and the separation facts they need\<close>

text \<open>The CPU state all kernel code shares: memory and the page-table base register.\<close>

record machine =
  mem :: memory
  cr3 :: u64

fun ldn :: "nat \<Rightarrow> memory \<Rightarrow> u64 \<Rightarrow> 'a::len word" where
  "ldn 0 m a = 0"
| "ldn (Suc n) m a = ucast (m a) OR push_bit 8 (ldn n m (a + 1))"

lemma ldn_zero: "ldn n (\<lambda>_. 0) a = 0"
  by (induction n arbitrary: a) simp_all

definition stn :: "nat \<Rightarrow> memory \<Rightarrow> u64 \<Rightarrow> 'a::len word \<Rightarrow> memory" where
  "stn n m a v = (\<lambda>x. if unat (x - a) < n then ucast (drop_bit (8 * unat (x - a)) v) else m x)"

definition ld8 :: "memory \<Rightarrow> u64 \<Rightarrow> u8" where "ld8 m a = ldn 1 m a"
definition ld16 :: "memory \<Rightarrow> u64 \<Rightarrow> u16" where "ld16 m a = ldn 2 m a"
definition ld32 :: "memory \<Rightarrow> u64 \<Rightarrow> u32" where "ld32 m a = ldn 4 m a"
definition ld64 :: "memory \<Rightarrow> u64 \<Rightarrow> u64" where "ld64 m a = ldn 8 m a"

definition st8 :: "memory \<Rightarrow> u64 \<Rightarrow> u8 \<Rightarrow> memory" where "st8 m a v = stn 1 m a v"
definition st16 :: "memory \<Rightarrow> u64 \<Rightarrow> u16 \<Rightarrow> memory" where "st16 m a v = stn 2 m a v"
definition st32 :: "memory \<Rightarrow> u64 \<Rightarrow> u32 \<Rightarrow> memory" where "st32 m a v = stn 4 m a v"
definition st64 :: "memory \<Rightarrow> u64 \<Rightarrow> u64 \<Rightarrow> memory" where "st64 m a v = stn 8 m a v"

text \<open>A \<open>for\<close> loop whose body may fail: \<open>None\<close> as soon as one iteration is.\<close>

fun foldM :: "('a \<Rightarrow> 's \<Rightarrow> 's option) \<Rightarrow> 'a list \<Rightarrow> 's \<Rightarrow> 's option" where
  "foldM f [] s = Some s"
| "foldM f (x # xs) s = Option.bind (f x s) (foldM f xs)"

lemma foldM_append: "foldM f (xs @ ys) s = Option.bind (foldM f xs s) (foldM f ys)"
  by (induction xs arbitrary: s) (auto split: Option.bind_splits)

lemma foldM_Nil: "foldM f [] = Some"
  by (simp add: fun_eq_iff)

lemma foldM_upt_Suc: "foldM f [0..<Suc n] s = Option.bind (foldM f [0..<n] s) (f n)"
  by (cases "foldM f [0..<n] s") (simp_all add: foldM_append foldM_Nil bind_runit)

section \<open>Separated regions\<close>

text \<open>
  \<open>sep a n b k\<close>: the \<open>n\<close> bytes at \<open>a\<close> and the \<open>k\<close> bytes at \<open>b\<close> do not overlap, addresses
  taken modulo \<open>2\<^sup>6\<^sup>4\<close>.
\<close>

definition sep :: "u64 \<Rightarrow> nat \<Rightarrow> u64 \<Rightarrow> nat \<Rightarrow> bool" where
  "sep a n b k \<longleftrightarrow> n \<le> unat (b - a) \<and> k \<le> unat (a - b)"

definition region :: "u64 \<Rightarrow> nat \<Rightarrow> u64 set" where
  "region a n = {x. unat (x - a) < n}"

lemma unat_u64_less: "unat (x :: u64) < 18446744073709551616"
proof -
  have "unat x < 2 ^ LENGTH(64)" by (rule unsigned_less)
  then show ?thesis by simp
qed

lemma sep_sym: "sep a n b k \<longleftrightarrow> sep b k a n"
  by (auto simp: sep_def)

lemma sep_symD: "sep a n b k \<Longrightarrow> sep b k a n"
  by (auto simp: sep_def)

lemma sep_mono: "sep a n b k \<Longrightarrow> n' \<le> n \<Longrightarrow> k' \<le> k \<Longrightarrow> sep a n' b k'"
  by (auto simp: sep_def)

lemma sep_offset:
  assumes "sep a n b k" "i \<le> j" "j < k"
  shows "n + i \<le> unat (b + of_nat j - a)"
proof -
  from assms have "unat (b - a) + j < 2 ^ 64"
    using unat_u64_less[of a] unat_u64_less[of b]
    by (auto simp: sep_def unat_sub_if' split: if_splits)
  moreover have "j < 2 ^ 64" using assms unat_u64_less[of "a - b"] by (simp add: sep_def)
  ultimately have "unat (b - a + of_nat j) = unat (b - a) + j"
    by (simp add: unat_plus_if' unat_of_nat)
  then show ?thesis using assms by (simp add: sep_def algebra_simps)
qed

lemma sep_sub:
  assumes "sep a n b k" "i + n' \<le> n" "j + k' \<le> k" "0 < n'" "0 < k'"
  shows "sep (a + of_nat i) n' (b + of_nat j) k'"
proof -
  have 1: "n + j \<le> unat (b + of_nat j - a)"
    using sep_offset[OF assms(1), of j j] assms by simp
  have 2: "k + i \<le> unat (a + of_nat i - b)"
    using sep_offset[of b k a n i i] assms by (simp add: sep_sym)
  have i: "unat (of_nat i :: u64) = i" and j: "unat (of_nat j :: u64) = j"
    using 1 2 assms unat_u64_less[of "b + of_nat j - a"] unat_u64_less[of "a + of_nat i - b"]
    by (simp_all add: unat_of_nat)
  have "unat (b + of_nat j - a - of_nat i) = unat (b + of_nat j - a) - i"
    using 1 assms i by (simp add: unat_sub_if')
  moreover have "unat (a + of_nat i - b - of_nat j) = unat (a + of_nat i - b) - j"
    using 2 assms j by (simp add: unat_sub_if')
  ultimately show ?thesis using 1 2 assms by (simp add: sep_def algebra_simps) linarith
qed

section \<open>Loads and stores\<close>

lemma bit_ldn: "bit (ldn n m a :: 'a::len word) k \<longleftrightarrow>
   k < LENGTH('a) \<and> k div 8 < n \<and> bit (m (a + of_nat (k div 8))) (k mod 8)"
proof (induction n arbitrary: a k)
  case 0 then show ?case by simp
next
  case (Suc n)
  show ?case
  proof (cases "k < 8")
    case True
    then show ?thesis by (auto simp: bit_simps)
  next
    case False
    then have "k div 8 = Suc ((k - 8) div 8)" "k mod 8 = (k - 8) mod 8"
      by (simp_all add: le_div_geq le_mod_geq)
    moreover have "\<not> bit (m a) k" using False bit_imp_le_length[of "m a" k] by auto
    ultimately show ?thesis using False Suc[of "a+1" "k - 8"]
      by (auto simp: bit_simps add.assoc)
  qed
qed

lemma stn_same:
  "i < n \<Longrightarrow> n \<le> 2 ^ 64 \<Longrightarrow> stn n m a v (a + of_nat i) = ucast (drop_bit (8 * i) v)"
  by (simp add: stn_def unat_of_nat)

lemma stn_out: "n \<le> unat (x - a) \<Longrightarrow> stn n m a v x = m x"
  by (simp add: stn_def)

lemma ldn_stn_same:
  fixes v :: "'a::len word"
  assumes "LENGTH('a) = 8 * n" "n \<le> 2 ^ 64"
  shows "ldn n (stn n m a v) a = v"
proof (rule bit_word_eqI)
  fix k assume k: "k < LENGTH('a)"
  then have kd: "k div 8 < n" using assms by linarith
  have "8 * (k div 8) + k mod 8 = k" by simp
  then show "bit (ldn n (stn n m a v) a :: 'a word) k = bit v k" using k kd assms(2)
    by (simp add: bit_ldn stn_same bit_simps)
qed

lemma ldn_cong: "(\<And>i. i < n \<Longrightarrow> m (a + of_nat i) = m' (a + of_nat i)) \<Longrightarrow> ldn n m a = ldn n m' a"
  by (rule bit_word_eqI) (auto simp: bit_ldn)

subsection \<open>The interface of one access width\<close>

text \<open>
  What every client of memory relies on: a load returns what the last store at its address
  wrote, depends on its own bytes only, and a store writes its own bytes only.
\<close>

locale mem_cell =
  fixes sz :: nat
    and ld :: "memory \<Rightarrow> u64 \<Rightarrow> 'a"
    and st :: "memory \<Rightarrow> u64 \<Rightarrow> 'a \<Rightarrow> memory"
  assumes sz_pos: "0 < sz"
    and ld_st_same: "ld (st m a v) a = v"
    and ld_local: "(\<And>i. i < sz \<Longrightarrow> m (a + of_nat i) = m' (a + of_nat i)) \<Longrightarrow> ld m a = ld m' a"
    and st_out: "sz \<le> unat (x - a) \<Longrightarrow> st m a v x = m x"
begin

lemma ld_frame:
  assumes "\<And>x. x \<in> region a n \<Longrightarrow> m x = m' x" and "i + sz \<le> n" and "n \<le> 2 ^ 64"
  shows "ld m (a + of_nat i) = ld m' (a + of_nat i)"
proof (rule ld_local)
  fix j assume "j < sz"
  with assms(2,3) have "a + of_nat i + of_nat j \<in> region a n"
    by (simp add: region_def unat_of_nat add.assoc flip: of_nat_add)
  then show "m (a + of_nat i + of_nat j) = m' (a + of_nat i + of_nat j)" by (rule assms(1))
qed

lemma ld_outside:
  assumes "\<And>x. x \<notin> region b n \<Longrightarrow> m x = m' x" and "sep b n a sz"
  shows "ld m a = ld m' a"
proof (rule ld_local)
  fix i assume "i < sz"
  then have "n \<le> unat (a + of_nat i - b)" using sep_offset[OF assms(2), of 0 i] by simp
  then show "m (a + of_nat i) = m' (a + of_nat i)" by (intro assms(1)) (simp add: region_def)
qed

lemma st_region: "x \<notin> region a sz \<Longrightarrow> st m a v x = m x"
  by (simp add: region_def st_out)

lemma ld_st_sep: "sep a sz b sz \<Longrightarrow> ld (st m a v) b = ld m b"
  by (rule ld_outside[of a sz]) (simp add: st_region)

subsection \<open>Arrays\<close>

lemma elt_sep:
  assumes "i \<noteq> j" "sz * Suc i \<le> 2 ^ 64" "sz * Suc j \<le> 2 ^ 64"
  shows "sep (base + of_nat (sz * i)) sz (base + of_nat (sz * j)) sz"
proof -
  define x y where "x = sz * i" and "y = sz * j"
  have "x + sz \<le> y \<or> y + sz \<le> x"
    using assms(1) mult_le_mono2[of "Suc i" j sz] mult_le_mono2[of "Suc j" i sz]
    unfolding x_def y_def by (cases i j rule: linorder_cases) (auto simp: Suc_le_eq)
  moreover have "x + sz \<le> 2 ^ 64" "y + sz \<le> 2 ^ 64" using assms(2,3) by (auto simp: x_def y_def)
  ultimately have "sep (base + of_nat x) sz (base + of_nat y) sz" using sz_pos
    by (auto simp: sep_def unat_sub_if' unat_of_nat)
  then show ?thesis by (simp add: x_def y_def)
qed

lemma elt_upd:
  assumes "sz * Suc i \<le> 2 ^ 64" "sz * Suc j \<le> 2 ^ 64"
  shows "ld (st m (base + of_nat (sz * i)) v) (base + of_nat (sz * j)) =
     (if i = j then v else ld m (base + of_nat (sz * j)))"
  using elt_sep[OF _ assms] by (simp add: ld_st_same ld_st_sep)

lemma arr_upd:
  assumes "sz * n \<le> 2 ^ 64" "i < n"
  shows "map (\<lambda>j. ld (st m (base + of_nat (sz * i)) v) (base + of_nat (sz * j))) [0..<n] =
     (map (\<lambda>j. ld m (base + of_nat (sz * j))) [0..<n])[i := v]"
proof (rule nth_equalityI)
  fix k assume "k < length (map (\<lambda>j. ld (st m (base + of_nat (sz * i)) v) (base + of_nat (sz * j))) [0..<n])"
  then have k: "k < n" by simp
  have "sz * Suc i \<le> 2 ^ 64" "sz * Suc k \<le> 2 ^ 64"
    using assms k mult_le_mono2[of "Suc i" n sz] mult_le_mono2[of "Suc k" n sz] by linarith+
  then show "map (\<lambda>j. ld (st m (base + of_nat (sz * i)) v) (base + of_nat (sz * j))) [0..<n] ! k =
     (map (\<lambda>j. ld m (base + of_nat (sz * j))) [0..<n])[i := v] ! k"
    using k by (auto simp: elt_upd nth_list_update simp del: of_nat_mult mult_Suc_right)
qed simp

end

lemma mem_cell_ldn:
  assumes "0 < n" "LENGTH('a::len) = 8 * n" "n \<le> 8"
  shows "mem_cell n (ldn n :: memory \<Rightarrow> u64 \<Rightarrow> 'a word) (stn n)"
  using assms by unfold_locales (auto simp: ldn_stn_same intro: ldn_cong stn_out)

lemma ld_st_defs_fun:
  "ld8 = ldn 1" "ld16 = ldn 2" "ld32 = ldn 4" "ld64 = ldn 8"
  "st8 = stn 1" "st16 = stn 2" "st32 = stn 4" "st64 = stn 8"
  by (simp_all add: fun_eq_iff ld8_def ld16_def ld32_def ld64_def st8_def st16_def st32_def st64_def)

interpretation m8: mem_cell 1 ld8 st8
  unfolding ld_st_defs_fun by (rule mem_cell_ldn) simp_all

interpretation m16: mem_cell 2 ld16 st16
  unfolding ld_st_defs_fun by (rule mem_cell_ldn) simp_all

interpretation m32: mem_cell 4 ld32 st32
  unfolding ld_st_defs_fun by (rule mem_cell_ldn) simp_all

interpretation m64: mem_cell 8 ld64 st64
  unfolding ld_st_defs_fun by (rule mem_cell_ldn) simp_all

lemmas ld_same [mem_simps, simp] =
  m8.ld_st_same m16.ld_st_same m32.ld_st_same m64.ld_st_same

text \<open>A load of one width after a store of another: unchanged when the regions are separated.\<close>

lemma ldn_stn_sep: "sep a n b k \<Longrightarrow> ldn k (stn n m a v) b = ldn k m b"
  by (rule ldn_cong) (metis sep_offset[of a n b k 0] stn_out le0 add_0_right)

lemma ld_sep [mem_simps]:
  "sep a 1 b 1 \<Longrightarrow> ld8 (st8 m a v8) b = ld8 m b"
  "sep a 1 b 2 \<Longrightarrow> ld16 (st8 m a v8) b = ld16 m b"
  "sep a 1 b 4 \<Longrightarrow> ld32 (st8 m a v8) b = ld32 m b"
  "sep a 1 b 8 \<Longrightarrow> ld64 (st8 m a v8) b = ld64 m b"
  "sep a 2 b 1 \<Longrightarrow> ld8 (st16 m a v16) b = ld8 m b"
  "sep a 2 b 2 \<Longrightarrow> ld16 (st16 m a v16) b = ld16 m b"
  "sep a 2 b 4 \<Longrightarrow> ld32 (st16 m a v16) b = ld32 m b"
  "sep a 2 b 8 \<Longrightarrow> ld64 (st16 m a v16) b = ld64 m b"
  "sep a 4 b 1 \<Longrightarrow> ld8 (st32 m a v32) b = ld8 m b"
  "sep a 4 b 2 \<Longrightarrow> ld16 (st32 m a v32) b = ld16 m b"
  "sep a 4 b 4 \<Longrightarrow> ld32 (st32 m a v32) b = ld32 m b"
  "sep a 4 b 8 \<Longrightarrow> ld64 (st32 m a v32) b = ld64 m b"
  "sep a 8 b 1 \<Longrightarrow> ld8 (st64 m a v64) b = ld8 m b"
  "sep a 8 b 2 \<Longrightarrow> ld16 (st64 m a v64) b = ld16 m b"
  "sep a 8 b 4 \<Longrightarrow> ld32 (st64 m a v64) b = ld32 m b"
  "sep a 8 b 8 \<Longrightarrow> ld64 (st64 m a v64) b = ld64 m b"
  unfolding ld_st_defs_fun by (rule ldn_stn_sep, assumption)+

text \<open>Elements of an array of 64-bit values.\<close>

lemma elt64_upd:
  assumes "i < 2 ^ 61" "j < 2 ^ 61"
  shows "ld64 (st64 m (base + 8 * of_nat i) v) (base + 8 * of_nat j) =
     (if i = j then v else ld64 m (base + 8 * of_nat j))"
proof -
  have "8 * Suc i \<le> 2 ^ 64" "8 * Suc j \<le> 2 ^ 64" using assms by simp_all
  from m64.elt_upd[OF this, of m base v] show ?thesis by simp
qed

section \<open>Machine integer conversions\<close>

lemma scast_u32_u64: "l < 2 ^ 31 \<Longrightarrow> (scast (of_nat l :: u32) :: u64) = of_nat l"
  by (simp add: signed_of_nat signed_take_bit_int_eq_self)

lemma ucast_u32_back: "unat (p::u64) < 2 ^ 32 \<Longrightarrow> ucast (ucast p :: u32) = p"
proof -
  assume a: "unat p < 2 ^ 32"
  have "unat (ucast (ucast p :: u32) :: u64) = unat p"
    using a by (simp add: unsigned_ucast_eq unsigned_take_bit_eq take_bit_nat_eq_self)
  then show ?thesis by (simp only: word_unat_eq_iff)
qed

section \<open>More on regions, pages and lists\<close>

lemma region_mono: "n \<le> k \<Longrightarrow> region a n \<subseteq> region a k"
  by (auto simp: region_def)

lemma st64_outside_array:
  assumes "x \<notin> region base n" "8 * i + 8 \<le> n" "n \<le> 2 ^ 64"
  shows "st64 m (base + 8 * of_nat i) v x = m x"
proof -
  define d where "d = x - base"
  have d: "n \<le> unat d" using assms(1) by (simp add: region_def d_def)
  have i: "unat (8 * of_nat i :: u64) = 8 * i"
    using assms(2,3) unat_of_nat[of "8 * i", where 'a = 64] by simp
  have "unat (d - 8 * of_nat i) = unat d - 8 * i" using d i assms(2) by (simp add: unat_sub_if')
  then have "8 \<le> unat (x - (base + 8 * of_nat i))" using d assms(2) by (simp add: d_def algebra_simps)
  then show ?thesis by (simp add: st64_def stn_out)
qed

lemma sep_right:
  assumes "sep a n b k" "j + k' \<le> k" "0 < k'"
  shows "sep a n (b + of_nat j) k'"
proof -
  have "n \<le> unat (b + of_nat j - a)" using sep_offset[OF assms(1), of 0 j] assms by simp
  moreover have "unat (of_nat j :: u64) = j" "j \<le> unat (a - b)"
    using assms unat_u64_less[of "a - b"] by (auto simp: sep_def unat_of_nat)
  then have "unat (a - b - of_nat j) = unat (a - b) - j" by (simp add: unat_sub_if')
  ultimately show ?thesis using assms by (simp add: sep_def algebra_simps) linarith
qed

lemma aligned_unat: "(x :: u64) mod 4096 = 0 \<longleftrightarrow> unat x mod 4096 = 0"
  by (simp add: unat_mod_distrib flip: unat_eq_0)

lemma aligned_sub_mod: "((x :: u64) - x mod 4096) mod 4096 = 0"
proof -
  have "unat (x - x mod 4096) = unat x - unat x mod 4096"
    by (simp add: unat_sub_if' unat_mod_distrib)
  then show ?thesis by (simp add: aligned_unat minus_mod_eq_mult_div)
qed

lemma aligned_add: "(x :: u64) mod 4096 = 0 \<Longrightarrow> y mod 4096 = 0 \<Longrightarrow> (x + y) mod 4096 = 0"
  by (simp add: aligned_unat unat_word_ariths(1) mod_eq_0_iff_dvd dvd_mod)

lemma unat_sub_mod_4096: "unat (x - x mod 4096 :: u64) = unat x - unat x mod 4096"
  by (simp add: unat_sub_if' unat_mod_distrib)

lemma ceil_4096: "r < 4096 \<Longrightarrow> 0 < r \<Longrightarrow> (4096 * q + r + 4095) div 4096 = Suc (q :: nat)"
  by (rule div_nat_eqI) simp_all

lemma word_of_unat_minus1: "i \<noteq> 0 \<Longrightarrow> of_nat (unat i - Suc 0) = i - (1 :: u64)"
  by (simp add: of_nat_diff unat_gt_0 Suc_le_eq)

lemma fold_first_min:
  fixes xs :: "'a::linorder list"
  assumes "xs \<noteq> []"
  defines "l \<equiv> fold (\<lambda>i lo. if xs ! i < xs ! lo then i else lo) [0..<length xs] 0"
  shows "l < length xs" and "xs ! l = Min (set xs)" and "\<And>j. j < l \<Longrightarrow> xs ! l < xs ! j"
proof -
  have "l < max 1 n \<and> (\<forall>j<n. xs ! l \<le> xs ! j) \<and> (\<forall>j<l. xs ! l < xs ! j)"
    if "l = fold (\<lambda>i lo. if xs ! i < xs ! lo then i else lo) [0..<n] 0" for n l
    using that
  proof (induction n arbitrary: l)
    case (Suc n)
    let ?l = "fold (\<lambda>i lo. if xs ! i < xs ! lo then i else lo) [0..<n] 0"
    have IH: "?l < max 1 n" "\<forall>j<n. xs ! ?l \<le> xs ! j" "\<forall>j<?l. xs ! ?l < xs ! j"
      using Suc.IH[OF refl] by auto
    show ?case using IH Suc.prems by (auto simp: less_Suc_eq dest: less_le_trans)
  qed simp
  note * = this[OF l_def[THEN meta_eq_to_obj_eq]]
  have "max 1 (length xs) = length xs" using assms(1) by (cases xs) auto
  with * show l: "l < length xs" by simp
  show "\<And>j. j < l \<Longrightarrow> xs ! l < xs ! j" using * by simp
  show "xs ! l = Min (set xs)"
    using * l by (auto intro!: Min_eqI[symmetric] simp: in_set_conv_nth)
qed

lemma remove1_nth_first:
  assumes "l < length xs" "\<And>j. j < l \<Longrightarrow> xs ! j \<noteq> xs ! l"
  shows "remove1 (xs ! l) xs = take l xs @ drop (Suc l) xs"
  using assms
proof (induction xs arbitrary: l)
  case (Cons x xs)
  show ?case
  proof (cases l)
    case (Suc k)
    have "x \<noteq> xs ! k" using Cons.prems(2)[of 0] Suc by simp
    moreover have "\<And>j. j < k \<Longrightarrow> xs ! j \<noteq> xs ! k" using Cons.prems(2)[of "Suc _"] Suc by auto
    ultimately show ?thesis using Cons.IH[of k] Cons.prems(1) Suc by auto
  qed simp
qed simp

lemma take_list_update_snoc:
  "i < length xs \<Longrightarrow> take i xs = ys \<Longrightarrow> take (Suc i) (xs[i := v]) = ys @ [v]"
  by (auto simp: take_Suc_conv_app_nth)

lemma stn_stn_same: "stn n (stn n m a v) a w = stn n m a w"
  by (auto simp: stn_def fun_eq_iff)

lemma st64_st64_same [simp]: "st64 (st64 m a v) a w = st64 m a w"
  by (simp add: st64_def stn_stn_same)

lemma sep_unat: "unat a + n \<le> unat b \<Longrightarrow> unat b + k \<le> 2 ^ 64 \<Longrightarrow> 0 < n \<Longrightarrow> sep a n b k"
  using unat_u64_less[of a] by (auto simp: sep_def unat_sub_if')

lemma sep_offsets:
  assumes "x + n \<le> y" "y + k \<le> 2 ^ 64" "0 < n" "0 < k"
  shows "sep (b + of_nat x) n (b + of_nat y) k"
proof -
  have "unat (of_nat x :: u64) = x" "unat (of_nat y :: u64) = y" using assms by (simp_all add: unat_of_nat)
  then show ?thesis using assms by (auto simp: sep_def unat_sub_if')
qed

lemma sep_region_disjoint: "sep a n b k \<Longrightarrow> x \<in> region b k \<Longrightarrow> x \<notin> region a n"
proof
  assume a: "sep a n b k" "x \<in> region b k" "x \<in> region a n"
  then have "n + 0 \<le> unat (b + of_nat (unat (x - b)) - a)"
    by (intro sep_offset) (auto simp: region_def)
  then show False using a(3) by (simp add: region_def)
qed

lemma region_sub:
  assumes "j + k \<le> n" "n \<le> 2 ^ 64"
  shows "region (a + of_nat j) k \<subseteq> region a n"
proof
  fix x assume x: "x \<in> region (a + of_nat j) k"
  define d where "d = unat (x - (a + of_nat j))"
  have d: "d < k" "x = a + of_nat (j + d)" using x by (simp_all add: region_def d_def)
  then have "unat (x - a) = j + d" using assms by (simp add: unat_of_nat del: of_nat_add)
  then show "x \<in> region a n" using d(1) assms by (simp add: region_def)
qed

section \<open>Regions as intervals, and single bytes\<close>

lemma unat_add_small: "unat x + unat y < 2 ^ 64 \<Longrightarrow> unat (x + y) = unat x + unat y" for x y :: u64
  by (simp add: unat_plus_if')

lemma region_unat: "unat b + n \<le> 2 ^ 64 \<Longrightarrow> x \<in> region b n \<longleftrightarrow> unat b \<le> unat x \<and> unat x < unat b + n"
  using unat_u64_less[of x] by (auto simp: region_def unat_sub_if' split: if_splits)

lemma region_within:
  assumes "unat b \<le> unat a" "unat a + k \<le> unat b + n" "unat b + n \<le> 2 ^ 64"
  shows "region a k \<subseteq> region b n"
  using assms by (auto simp: region_unat)

lemma ld8_byte: "ld8 m a = m a" by (simp add: ld8_def)

lemma st8_byte: "st8 m a v = m(a := v)"
proof
  fix x
  have "unat (x - a) < 1 \<longleftrightarrow> x = a" by (metis less_one right_minus_eq unat_eq_0)
  then show "st8 m a v x = (m(a := v)) x" by (auto simp: st8_def stn_def)
qed

end
