(* ===== verification/Pmm.thy ===== *)
theory Pmm
  imports Prelude
begin

text \<open>
  The physical memory manager (\<^verbatim>\<open>kernel/system/mem_mgmt/pmm.c\<close>): a stack of free 4 KiB pages kept
  in an array in memory, its initialisation from the boot memory map, and the construction of the
  direct map of physical memory. The file-scope variables of pmm.c are the fields of the record
  \<open>pmm\<close>; the array \<open>_free_pages\<close> itself lives in the flat memory.
\<close>

section \<open>Data\<close>

datatype other_range_type = RESERVED | DEFECTIVE | HIBER_SAVE

record physical_other_range =
  or_start :: u64
  or_size :: u64
  or_type :: other_range_type

record memory_range =
  mr_start :: u64
  mr_end :: u64

record pmm = machine +
  g_free_pages :: u64
  g_free_index :: u64
  g_ranges :: "physical_other_range list"
  g_ranges_size :: u16
  g_ap_low_page :: u32

definition PAGE_PRESENT :: u64 where "PAGE_PRESENT = 1"
definition PAGE_RW :: u64 where "PAGE_RW = 2"
definition PAGE_SIZE :: u64 where "PAGE_SIZE = 0x80"
definition PAGE_GLOBAL :: u64 where "PAGE_GLOBAL = 0x100"
definition PHYSICAL_MAP_OFFSET :: u64 where "PHYSICAL_MAP_OFFSET = 0xffffc00000000000"

section \<open>Operations\<close>

definition zero_page :: "memory \<Rightarrow> u64 \<Rightarrow> memory" where
  "zero_page m page =
     (if page < page + 4096 then fold (\<lambda>i m. st8 m (page + of_nat i) 0) [0..<4096] m else m)"

text \<open>\<open>lowest_idx\<close> is a C \<open>int\<close>: 32 bits, sign-extended when it indexes the array.\<close>

definition free_page_at :: "memory \<Rightarrow> u64 \<Rightarrow> u64 \<Rightarrow> u64" where
  "free_page_at m base i = ld64 m (base + 8 * i)"

definition lowest_idx :: "memory \<Rightarrow> u64 \<Rightarrow> u64 \<Rightarrow> u32" where
  "lowest_idx m base n =
     fold (\<lambda>i lo. if free_page_at m base (of_nat i) < free_page_at m base (scast lo)
                  then of_nat i else lo) [0..<unat n] 0"

definition get_low_page :: "'z pmm_scheme \<Rightarrow> u64 \<times> 'z pmm_scheme" where
  "get_low_page s =
     (let base = g_free_pages s;
          lo = lowest_idx (mem s) base (g_free_index s);
          val = free_page_at (mem s) base (scast lo);
          m = fold (\<lambda>i m. st64 m (base + 8 * (of_nat i - 1)) (free_page_at m base (of_nat i)))
                [unat (scast (lo + 1) :: u64)..<unat (g_free_index s)] (mem s)
      in (val, s\<lparr>mem := m, g_free_index := g_free_index s - 1\<rparr>))"

definition fill_gib :: "u64 \<Rightarrow> u64 \<Rightarrow> memory \<Rightarrow> memory" where
  "fill_gib page i m =
     fold (\<lambda>j m. st64 m (page + 8 * of_nat j)
             ((0x200000 * of_nat j + i) OR PAGE_PRESENT OR PAGE_RW OR PAGE_SIZE OR PAGE_GLOBAL))
       [0..<512] m"

definition init_paging_gib :: "u64 \<Rightarrow> 'z pmm_scheme \<Rightarrow> 'z pmm_scheme" where
  "init_paging_gib i s0 =
     (let pml4t = cr3 s0;
          (page, s1) = get_low_page s0;
          s2 = s1\<lparr>mem := fill_gib page i (zero_page (mem s1) page)\<rparr>;
          offset = (PHYSICAL_MAP_OFFSET AND 0xffffffffffff) + i;
          slot = pml4t + 8 * (offset div 0x8000000000);
          (pml4, s3) =
            (if ld64 (mem s2) slot AND PAGE_PRESENT = 0
             then let (p, t) = get_low_page s2;
                      e = p OR PAGE_PRESENT OR PAGE_RW
                  in (e, t\<lparr>mem := st64 (zero_page (mem t) p) slot e\<rparr>)
             else (ld64 (mem s2) slot, s2));
          pdpt = pml4 AND 0xFFFFFFFFFFFFF000;
          idx = offset mod 0x8000000000 div 0x40000000
      in s3\<lparr>mem := st64 (mem s3) (pdpt + 8 * idx) (page OR PAGE_PRESENT OR PAGE_RW)\<rparr>)"

partial_function (option) init_paging_loop ::
  "u64 \<Rightarrow> u64 \<Rightarrow> 'z pmm_scheme \<Rightarrow> 'z pmm_scheme option" where
  "init_paging_loop phys_mem_length i s =
     (if i < phys_mem_length
      then init_paging_loop phys_mem_length (i + 0x40000000) (init_paging_gib i s)
      else Some s)"

definition init_paging :: "u64 \<Rightarrow> 'z pmm_scheme \<Rightarrow> 'z pmm_scheme option" where
  "init_paging phys_mem_length s = init_paging_loop phys_mem_length 0 s"

definition is_in_range :: "u64 \<Rightarrow> memory_range \<Rightarrow> bool" where
  "is_in_range page r \<longleftrightarrow> page \<ge> mr_start r \<and> page < mr_end r"

definition pmm_free_page :: "u64 \<Rightarrow> 'z pmm_scheme \<Rightarrow> 'z pmm_scheme" where
  "pmm_free_page addr s =
     s\<lparr>mem := st64 (mem s) (g_free_pages s + 8 * g_free_index s) addr,
       g_free_index := g_free_index s + 1\<rparr>"

definition pmm_alloc_page :: "'z pmm_scheme \<Rightarrow> u64 \<times> 'z pmm_scheme" where
  "pmm_alloc_page s =
     (if g_free_index s \<noteq> 0
      then (free_page_at (mem s) (g_free_pages s) (g_free_index s - 1),
            s\<lparr>g_free_index := g_free_index s - 1\<rparr>)
      else (0, s))"

text \<open>The body of the loop over one usable page of the map, and the loop.\<close>

definition init_page :: "memory_range list \<Rightarrow> u64 \<Rightarrow> 'z pmm_scheme \<Rightarrow> 'z pmm_scheme" where
  "init_page unsafe cur s =
     (if list_ex (is_in_range cur) unsafe then s
      else if g_ap_low_page s = 0 \<and> cur < 0x100000 then s\<lparr>g_ap_low_page := ucast cur\<rparr>
      else pmm_free_page cur s)"

partial_function (option) init_pages ::
  "memory_range list \<Rightarrow> u64 \<Rightarrow> u64 \<Rightarrow> 'z pmm_scheme \<Rightarrow> 'z pmm_scheme option" where
  "init_pages unsafe cur end s =
     (if cur < end then init_pages unsafe (cur + 4096) end (init_page unsafe cur s) else Some s)"

definition page_start :: "u64 \<Rightarrow> u64" where
  "page_start base = (if base mod 4096 \<noteq> 0 then base + (4096 - base mod 4096) else base)"

definition page_end :: "u64 \<Rightarrow> u64 \<Rightarrow> u64" where
  "page_end base len = (base + len) - (base + len) mod 4096"

definition other_type :: "u32 \<Rightarrow> other_range_type" where
  "other_type t = (if t = 3 then RESERVED else if t = 4 then HIBER_SAVE
                   else if t = 5 then DEFECTIVE else RESERVED)"

text \<open>
  One entry of the map. The array \<open>_ranges\<close> has 32 elements and is not bounds-checked: a write
  past its end is \<open>None\<close>.
\<close>

definition add_range :: "u64 \<Rightarrow> u64 \<Rightarrow> u32 \<Rightarrow> 'z pmm_scheme \<Rightarrow> 'z pmm_scheme option" where
  "add_range base len ty s =
     (if unat (g_ranges_size s) < 32
      then Some (s\<lparr>g_ranges := (g_ranges s)[unat (g_ranges_size s) :=
                      \<lparr>or_start = base, or_size = len, or_type = other_type ty\<rparr>],
                   g_ranges_size := g_ranges_size s + 1\<rparr>)
      else None)"

definition mmap_base :: "memory \<Rightarrow> u64 \<Rightarrow> nat \<Rightarrow> u64" where
  "mmap_base m mmap i = ld64 m (mmap + 24 * of_nat i)"
definition mmap_length :: "memory \<Rightarrow> u64 \<Rightarrow> nat \<Rightarrow> u64" where
  "mmap_length m mmap i = ld64 m (mmap + 24 * of_nat i + 8)"
definition mmap_type :: "memory \<Rightarrow> u64 \<Rightarrow> nat \<Rightarrow> u32" where
  "mmap_type m mmap i = ld32 m (mmap + 24 * of_nat i + 16)"

definition init_entry ::
  "u64 \<Rightarrow> memory_range list \<Rightarrow> nat \<Rightarrow> u64 \<times> 'z pmm_scheme \<Rightarrow> (u64 \<times> 'z pmm_scheme) option" where
  "init_entry mmap unsafe i = (\<lambda>(max_addr, s).
     let base = mmap_base (mem s) mmap i;
         len = mmap_length (mem s) mmap i;
         ty = mmap_type (mem s) mmap i;
         max_addr' = (if base + len > max_addr then base + len else max_addr)
     in map_option (Pair max_addr')
          (if ty = 1 then init_pages unsafe (page_start base) (page_end base len) s
           else add_range base len ty s))"

definition init_entries ::
  "u64 \<Rightarrow> u64 \<Rightarrow> u32 \<Rightarrow> memory_range list \<Rightarrow> 'z pmm_scheme \<Rightarrow> (u64 \<times> 'z pmm_scheme) option" where
  "init_entries stack mmap entries unsafe s =
     foldM (init_entry mmap unsafe) [0..<unat entries] (0, s\<lparr>g_free_pages := stack\<rparr>)"

definition pmm_init ::
  "u64 \<Rightarrow> u64 \<Rightarrow> u32 \<Rightarrow> memory_range list \<Rightarrow> 'z pmm_scheme \<Rightarrow> 'z pmm_scheme option" where
  "pmm_init stack mmap entries unsafe s =
     do { (max_addr, s') \<leftarrow> init_entries stack mmap entries unsafe s;
          init_paging max_addr s' }"

section \<open>The stack of free pages\<close>

text \<open>The abstract value of the allocator: the list of free pages, top of the stack last.\<close>

definition pmm_stack :: "'z pmm_scheme \<Rightarrow> u64 list" where
  "pmm_stack s = map (\<lambda>j. ld64 (mem s) (g_free_pages s + 8 * of_nat j)) [0..<unat (g_free_index s)]"

text \<open>How many more pages the 64-bit index of the array can address.\<close>

definition pmm_room :: "'z pmm_scheme \<Rightarrow> nat" where
  "pmm_room s = 2 ^ 61 - 1 - unat (g_free_index s)"

lemma length_pmm_stack [simp]: "length (pmm_stack s) = unat (g_free_index s)"
  by (simp add: pmm_stack_def)

lemma pmm_stack_empty_iff: "pmm_stack s = [] \<longleftrightarrow> g_free_index s = 0"
  by (simp add: pmm_stack_def unat_eq_0)

lemma free_page_at_of_nat: "free_page_at m b (of_nat i) = ld64 m (b + 8 * of_nat i)"
  by (simp add: free_page_at_def)

lemma pmm_stack_alloc:
  assumes "pmm_stack s \<noteq> []"
  shows "pmm_alloc_page s = (last (pmm_stack s), s\<lparr>g_free_index := g_free_index s - 1\<rparr>)"
    and "pmm_stack (snd (pmm_alloc_page s)) = butlast (pmm_stack s)"
proof -
  let ?n = "unat (g_free_index s)"
  have nz: "g_free_index s \<noteq> 0" using assms by (simp add: pmm_stack_empty_iff)
  then have n: "?n = Suc (?n - 1)" by (simp add: unat_gt_0)
  have st: "pmm_stack s = map (\<lambda>j. ld64 (mem s) (g_free_pages s + 8 * of_nat j)) [0..<?n - 1] @
        [ld64 (mem s) (g_free_pages s + 8 * (g_free_index s - 1))]"
    unfolding pmm_stack_def
    apply (subst n) 
    using nz by (simp add: word_of_unat_minus1)
  show "pmm_alloc_page s = (last (pmm_stack s), s\<lparr>g_free_index := g_free_index s - 1\<rparr>)"
    using nz by (simp add: pmm_alloc_page_def st free_page_at_def)
  then show "pmm_stack (snd (pmm_alloc_page s)) = butlast (pmm_stack s)"
    using nz by (simp add: st) (simp add: pmm_stack_def unat_minus_one)
qed

lemma pmm_stack_free:
  assumes "0 < pmm_room s"
  shows "pmm_stack (pmm_free_page p s) = pmm_stack s @ [p]"
proof -
  let ?n = "unat (g_free_index s)"
  have n: "?n < 2 ^ 61 - 1" using assms by (simp add: pmm_room_def)
  then have "unat (g_free_index s + 1) = Suc ?n" by (simp add: unat_plus_if')
  moreover have "ld64 (st64 (mem s) (g_free_pages s + 8 * g_free_index s) p) (g_free_pages s + 8 * of_nat j) =
      (if j = ?n then p else ld64 (mem s) (g_free_pages s + 8 * of_nat j))" if "j \<le> ?n" for j
    using elt64_upd[of ?n j "mem s" "g_free_pages s" p] that n by auto
  ultimately show ?thesis by (simp add: pmm_stack_def pmm_free_page_def)
qed

text \<open>
  The interface the rest of the kernel relies on: a last-in first-out store of pages. \<open>room\<close> is
  how many pages can still be pushed.
\<close>

locale page_stack =
  fixes alloc :: "'s \<Rightarrow> u64 \<times> 's"
    and free :: "u64 \<Rightarrow> 's \<Rightarrow> 's"
    and stack :: "'s \<Rightarrow> u64 list"
    and room :: "'s \<Rightarrow> nat"
  assumes alloc_empty: "stack s = [] \<Longrightarrow> alloc s = (0, s)"
    and alloc_value: "stack s \<noteq> [] \<Longrightarrow> fst (alloc s) = last (stack s)"
    and alloc_stack: "stack s \<noteq> [] \<Longrightarrow> stack (snd (alloc s)) = butlast (stack s)"
    and free_stack: "0 < room s \<Longrightarrow> stack (free p s) = stack s @ [p]"
begin

lemma alloc_after_free:
  "0 < room s \<Longrightarrow> fst (alloc (free p s)) = p \<and> stack (snd (alloc (free p s))) = stack s"
  by (simp add: alloc_value alloc_stack free_stack)

lemma alloc_owned:
  assumes "stack s \<noteq> []" "distinct (stack s)" "set (stack s) \<inter> own = {}" "alloc s = (p, s')"
  shows "distinct (stack s')" "set (stack s') \<inter> insert p own = {}" "p \<notin> own"
    "set (stack s') \<union> insert p own = set (stack s) \<union> own"
proof -
  have st: "stack s = stack s' @ [p]"
    using alloc_value[OF assms(1)] alloc_stack[OF assms(1)] assms(1,4) by simp
  show "distinct (stack s')" "set (stack s') \<inter> insert p own = {}" "p \<notin> own"
    "set (stack s') \<union> insert p own = set (stack s) \<union> own"
    using assms(2,3) by (auto simp: st)
qed

lemma free_owned:
  assumes "0 < room s" "distinct (stack s)" "set (stack s) \<inter> own = {}" "p \<in> own"
  shows "distinct (stack (free p s))" "set (stack (free p s)) \<inter> (own - {p}) = {}"
    "set (stack (free p s)) \<union> (own - {p}) = set (stack s) \<union> own"
  using assms by (auto simp: free_stack)

end

interpretation pmm_pages: page_stack pmm_alloc_page pmm_free_page pmm_stack pmm_room
proof unfold_locales
  show "pmm_alloc_page s = (0, s)" if "pmm_stack s = []" for s :: "'z pmm_scheme"
    using that by (simp add: pmm_alloc_page_def pmm_stack_empty_iff)
  show "fst (pmm_alloc_page s) = last (pmm_stack s)" if "pmm_stack s \<noteq> []" for s :: "'z pmm_scheme"
    using pmm_stack_alloc(1)[OF that] by simp
qed (fact pmm_stack_alloc(2) pmm_stack_free)+

text \<open>
  The allocator under use: a client obtains pages and gives back pages it holds. A state pairs the
  allocator with the set of pages handed out.
\<close>

inductive pmm_step :: "'z pmm_scheme \<times> u64 set \<Rightarrow> 'z pmm_scheme \<times> u64 set \<Rightarrow> bool" where
  alloc: "pmm_stack s \<noteq> [] \<Longrightarrow> pmm_alloc_page s = (p, s') \<Longrightarrow> pmm_step (s, own) (s', insert p own)"
| exhausted: "pmm_stack s = [] \<Longrightarrow> pmm_alloc_page s = (p, s') \<Longrightarrow> pmm_step (s, own) (s', own)"
| free: "p \<in> own \<Longrightarrow> 0 < pmm_room s \<Longrightarrow> pmm_step (s, own) (pmm_free_page p s, own - {p})"

inductive_cases pmm_stepE: "pmm_step (s, own) (s', own')"

definition pmm_owned :: "'z pmm_scheme \<times> u64 set \<Rightarrow> bool" where
  "pmm_owned = (\<lambda>(s, own). distinct (pmm_stack s) \<and> set (pmm_stack s) \<inter> own = {})"

lemma pmm_step_owned:
  assumes "pmm_step x y" "pmm_owned x"
  shows "pmm_owned y \<and> set (pmm_stack (fst y)) \<union> snd y = set (pmm_stack (fst x)) \<union> snd x"
  using assms
proof (induction rule: pmm_step.induct)
  case (alloc s p s' own)
  then show ?case using pmm_pages.alloc_owned[of s own p s'] by (simp add: pmm_owned_def)
next
  case (exhausted s p s' own)
  then show ?case using pmm_pages.alloc_empty[of s] by (simp add: pmm_owned_def)
next
  case (free p own s)
  then show ?case using pmm_pages.free_owned[of s own p] by (simp add: pmm_owned_def)
qed

section \<open>Taking the lowest page\<close>

lemma lowest_idx_stack:
  assumes "unat (g_free_index s) \<le> 2 ^ 31"
  shows "lowest_idx (mem s) (g_free_pages s) (g_free_index s) =
    of_nat (fold (\<lambda>i lo. if pmm_stack s ! i < pmm_stack s ! lo then i else lo)
       [0..<length (pmm_stack s)] 0)"
proof -
  let ?g = "\<lambda>i lo. if pmm_stack s ! i < pmm_stack s ! lo then i else lo"
  have "fold (\<lambda>i lo. if free_page_at (mem s) (g_free_pages s) (of_nat i) <
        free_page_at (mem s) (g_free_pages s) (scast lo) then of_nat i else lo) [0..<n] (0::u32) =
      of_nat (fold ?g [0..<n] 0) \<and> fold ?g [0..<n] 0 < max 1 n"
    if "n \<le> unat (g_free_index s)" for n
    using that
  proof (induction n)
    case (Suc n)
    let ?l = "fold ?g [0..<n] 0"
    have l: "?l < max 1 n" using Suc by simp
    then have "scast (of_nat ?l :: u32) = (of_nat ?l :: u64)"
      using Suc.prems assms by (intro scast_u32_u64) auto
    then show ?case using Suc l by (auto simp: free_page_at_def pmm_stack_def)
  qed simp
  from this[of "unat (g_free_index s)"] show ?thesis by (simp add: lowest_idx_def)
qed

lemma shift_down:
  assumes "n < 2 ^ 61" "j < 2 ^ 61"
  shows "ld64 (fold (\<lambda>i m. st64 m (b + 8 * (of_nat i - 1)) (free_page_at m b (of_nat i))) [Suc l..<n] m)
      (b + 8 * of_nat j) =
    (if l \<le> j \<and> Suc j < n then ld64 m (b + 8 * of_nat (Suc j)) else ld64 m (b + 8 * of_nat j))"
  using assms
proof (induction n arbitrary: j)
  case (Suc n)
  show ?case
  proof (cases "Suc l \<le> n")
    case True
    let ?f = "\<lambda>i m. st64 m (b + 8 * (of_nat i - 1)) (free_page_at m b (of_nat i))"
    define M where "M = fold ?f [Suc l..<n] m"
    from True obtain k where n: "n = Suc k" by (cases n) auto
    have "fold ?f [Suc l..<Suc n] m = st64 M (b + 8 * of_nat k) (ld64 M (b + 8 * of_nat n))"
      using True by (simp add: M_def free_page_at_of_nat n algebra_simps)
    moreover have IH: "ld64 M (b + 8 * of_nat i) =
        (if l \<le> i \<and> i < k then ld64 m (b + 8 * of_nat (Suc i)) else ld64 m (b + 8 * of_nat i))"
      if "i < 2 ^ 61" for i using Suc.IH[of i] that Suc.prems(1) by (simp add: M_def n)
    ultimately show ?thesis using Suc.prems True
      by (auto simp: elt64_upd n less_Suc_eq simp del: of_nat_Suc)
  qed (use Suc in auto)
qed auto

lemma get_low_page_stack:
  assumes "pmm_stack s \<noteq> []" "length (pmm_stack s) < 2 ^ 31" "get_low_page s = (v, s')"
  shows "v = Min (set (pmm_stack s))" "pmm_stack s' = remove1 v (pmm_stack s)"
proof -
  let ?xs = "pmm_stack s" and ?b = "g_free_pages s" and ?n = "unat (g_free_index s)"
  define l where "l = fold (\<lambda>i lo. if ?xs ! i < ?xs ! lo then i else lo) [0..<length ?xs] 0"
  note min = fold_first_min[OF assms(1), folded l_def]
  have n: "?n < 2 ^ 31" "0 < ?n" using assms by (auto simp: unat_gt_0 pmm_stack_empty_iff)
  have lo: "lowest_idx (mem s) ?b (g_free_index s) = of_nat l"
    using lowest_idx_stack[of s] n by (simp add: l_def)
  have l: "l < ?n" using min(1) by simp
  have sc: "scast (of_nat l :: u32) = (of_nat l :: u64)" using l n by (intro scast_u32_u64) auto
  have "scast (of_nat (Suc l) :: u32) = (of_nat (Suc l) :: u64)"
    using l n by (intro scast_u32_u64) auto
  then have sc1: "unat (scast (of_nat l + 1 :: u32) :: u64) = Suc l"
    using l n by (simp only: of_nat_Suc[symmetric] add.commute[of _ 1] unat_of_nat) simp
  have "v = ?xs ! l" using assms(3) l
    by (simp add: get_low_page_def Let_def lo sc free_page_at_of_nat pmm_stack_def split: if_splits)
  then show v: "v = Min (set ?xs)" using min(2) by simp
  define M where "M = fold (\<lambda>i m. st64 m (?b + 8 * (of_nat i - 1)) (free_page_at m ?b (of_nat i)))
     [Suc l..<?n] (mem s)"
  have s': "s' = s\<lparr>mem := M, g_free_index := g_free_index s - 1\<rparr>"
    using assms(3) by (simp add: get_low_page_def Let_def lo sc1 M_def)
  have n1: "unat (g_free_index s - 1) = ?n - 1" using n by (simp add: unat_minus_one unat_gt_0)
  have "ld64 M (?b + 8 * of_nat j) = (if l \<le> j then ?xs ! Suc j else ?xs ! j)" if "j < ?n - 1" for j
  proof -
    have "Suc j < ?n" "j < 2 ^ 61" using that n by simp_all
    then show ?thesis using shift_down[of ?n j ?b l "mem s"] n by (simp add: M_def pmm_stack_def)
  qed
  then have "pmm_stack s' = map (\<lambda>j. if l \<le> j then ?xs ! Suc j else ?xs ! j) [0..<?n - 1]"
    unfolding pmm_stack_def[of s'] by (simp add: s' n1)
  also have "\<dots> = take l ?xs @ drop (Suc l) ?xs"
    using l by (intro nth_equalityI) (auto simp: nth_append min_def)
  also have "\<dots> = remove1 v ?xs"
    using remove1_nth_first[of l ?xs] min \<open>v = ?xs ! l\<close> by fastforce
  finally show "pmm_stack s' = remove1 v ?xs" .
qed

section \<open>Filling the stack from the memory map\<close>

text \<open>The pages of one entry of the map, in the order the loop visits them.\<close>

definition pages_of :: "u64 \<Rightarrow> u64 \<Rightarrow> u64 list" where
  "pages_of base len = map (\<lambda>i. page_start base + 4096 * of_nat i)
     [0..<(unat (page_end base len) - unat (page_start base)) div 4096]"

lemma init_pages_fold:
  assumes "cur mod 4096 = 0" "end mod 4096 = 0"
  shows "init_pages unsafe cur end s = Some (fold (init_page unsafe)
     (map (\<lambda>i. cur + 4096 * of_nat i) [0..<(unat end - unat cur) div 4096]) s)"
  using assms
proof (induction "(unat end - unat cur) div 4096" arbitrary: cur s)
  case 0
  have "\<not> cur < end"
  proof
    assume "cur < end"
    then have "unat cur < unat end" by (simp add: word_less_nat_alt)
    moreover have "unat cur mod 4096 = 0" "unat end mod 4096 = 0"
      using 0 by (simp_all flip: aligned_unat)
    then have "(unat end - unat cur) mod 4096 = 0"
      by (simp add: mod_eq_0_iff_dvd dvd_diff_nat)
    ultimately show False using 0(1) div_mult_mod_eq[of "unat end - unat cur" 4096] by linarith
  qed
  then show ?case using 0 by (simp add: init_pages.simps)
next
  case (Suc n)
  have c: "unat cur mod 4096 = 0" "unat end mod 4096 = 0"
    using Suc.prems by (simp_all flip: aligned_unat)
  have lt: "unat cur + 4096 \<le> unat end" using Suc.hyps(2) by arith
  then have cur: "unat (cur + 4096) = unat cur + 4096"
    using unat_u64_less[of "end"] by (simp add: unat_plus_if')
  have "cur < end" using lt by (simp add: word_less_nat_alt)
  moreover have "(cur + 4096) mod 4096 = 0"
    using c cur by (simp add: aligned_unat)
  moreover have n: "n = (unat end - unat (cur + 4096)) div 4096" using Suc.hyps(2) cur by simp
  moreover have "[0..<Suc n] = 0 # map Suc [0..<n]" 
    using upt_conv_Cons[of 0 "Suc n"] by (simp add: map_Suc_upt del: upt_Suc)
  ultimately show ?case
    using Suc.hyps(1)[OF n, of "init_page unsafe cur s"] Suc.prems
    by (simp add: init_pages.simps[of _ cur] Suc.hyps(2)[symmetric] o_def algebra_simps del: upt_Suc)
qed

text \<open>The abstract effect of the loop body: drop unsafe pages, keep one low page for the application processors, push the others.\<close>

definition usable :: "memory_range list \<Rightarrow> u64 list \<Rightarrow> u64 list" where
  "usable unsafe ps = filter (\<lambda>p. \<not> list_ex (is_in_range p) unsafe) ps"

fun place :: "u64 \<Rightarrow> u32 \<times> u64 list \<Rightarrow> u32 \<times> u64 list" where
  "place p (ap, st) = (if ap = 0 \<and> p < 0x100000 then (ucast p, st) else (ap, st @ [p]))"

text \<open>What filling the stack keeps: everything but the stack array and its index.\<close>

definition fill_frame :: "nat \<Rightarrow> 'z pmm_scheme \<Rightarrow> 'z pmm_scheme \<Rightarrow> bool" where
  "fill_frame n s s' \<longleftrightarrow> g_free_pages s' = g_free_pages s \<and> cr3 s' = cr3 s \<and>
     unat (g_free_index s') \<le> unat (g_free_index s) + n \<and>
     (\<forall>x. x \<notin> region (g_free_pages s) (8 * (unat (g_free_index s) + n)) \<longrightarrow> mem s' x = mem s x)"

lemma fill_frame_refl: "fill_frame 0 s s"
  by (simp add: fill_frame_def)

lemma fill_frame_trans:
  assumes "fill_frame n s s'" "fill_frame k s' s''"
  shows "fill_frame (n + k) s s''"
proof -
  have "region (g_free_pages s) (8 * (unat (g_free_index s) + n)) \<subseteq>
      region (g_free_pages s) (8 * (unat (g_free_index s) + (n + k)))" by (rule region_mono) simp
  moreover have "region (g_free_pages s) (8 * (unat (g_free_index s') + k)) \<subseteq>
      region (g_free_pages s) (8 * (unat (g_free_index s) + (n + k)))"
    using assms(1) by (intro region_mono) (simp add: fill_frame_def)
  ultimately have "x \<notin> region (g_free_pages s) (8 * (unat (g_free_index s) + n))"
      "x \<notin> region (g_free_pages s) (8 * (unat (g_free_index s') + k))"
    if "x \<notin> region (g_free_pages s) (8 * (unat (g_free_index s) + (n + k)))" for x
    using that by blast+
  then have "mem s'' x = mem s x"
    if "x \<notin> region (g_free_pages s) (8 * (unat (g_free_index s) + (n + k)))" for x
    using assms that by (simp add: fill_frame_def)
  then show ?thesis using assms by (simp add: fill_frame_def)
qed

lemma init_page_step:
  assumes "0 < pmm_room s"
  shows "(g_ap_low_page (init_page unsafe p s), pmm_stack (init_page unsafe p s)) =
      (if list_ex (is_in_range p) unsafe then (g_ap_low_page s, pmm_stack s)
       else place p (g_ap_low_page s, pmm_stack s))" (is ?A)
    and "fill_frame 1 s (init_page unsafe p s)" (is ?B)
proof -
  have "pmm_stack (s\<lparr>g_ap_low_page := v\<rparr>) = pmm_stack s" for v by (simp add: pmm_stack_def)
  then show ?A using pmm_stack_free[OF assms, of p]
    by (auto simp: init_page_def) (simp_all add: pmm_free_page_def)
  have i: "unat (g_free_index s) < 2 ^ 61 - 1" using assms by (simp add: pmm_room_def)
  then have "unat (g_free_index s + 1) = unat (g_free_index s) + 1" by (simp add: unat_plus_if')
  moreover have "st64 (mem s) (g_free_pages s + 8 * g_free_index s) p x = mem s x"
    if "x \<notin> region (g_free_pages s) (8 * (unat (g_free_index s) + 1))" for x
    using st64_outside_array[OF that, of "unat (g_free_index s)" "mem s" p] i by simp
  ultimately show ?B by (auto simp: fill_frame_def init_page_def pmm_free_page_def)
qed

lemma fold_init_page:
  assumes "length ps \<le> pmm_room s"
  shows "(g_ap_low_page (fold (init_page unsafe) ps s), pmm_stack (fold (init_page unsafe) ps s)) =
      fold place (usable unsafe ps) (g_ap_low_page s, pmm_stack s) \<and>
      fill_frame (length ps) s (fold (init_page unsafe) ps s)"
  using assms
proof (induction ps arbitrary: s)
  case (Cons p ps)
  have room: "0 < pmm_room s" using Cons.prems by (cases "pmm_room s") auto
  note st = init_page_step[OF this, of unsafe p]
  have "unat (g_free_index (init_page unsafe p s)) \<le> unat (g_free_index s) + 1"
    using st(2) by (simp add: fill_frame_def)
  then have len: "length ps \<le> pmm_room (init_page unsafe p s)"
    using Cons.prems by (simp add: pmm_room_def)
  have "fill_frame (length (p # ps)) s (fold (init_page unsafe) (p # ps) s)"
    using fill_frame_trans[OF st(2) conjunct2[OF Cons.IH[OF len]]] by simp
  then show ?case using Cons.IH[OF len] st(1) by (auto simp: usable_def split: if_splits)
qed (simp_all add: usable_def fill_frame_refl)

lemma fold_init_page_ranges [simp]:
  "g_ranges (fold (init_page unsafe) ps s) = g_ranges s"
  "g_ranges_size (fold (init_page unsafe) ps s) = g_ranges_size s"
  by (induction ps arbitrary: s) (auto simp: init_page_def pmm_free_page_def)

lemma page_end_aligned: "page_end base len mod 4096 = 0"
  by (simp add: page_end_def aligned_sub_mod)

lemma page_start_aligned: "page_start base mod 4096 = 0"
proof -
  have "base + (4096 - base mod 4096) = (base - base mod 4096) + 4096" by simp
  also have "\<dots> mod 4096 = 0" by (rule aligned_add) (simp_all add: aligned_sub_mod)
  finally show ?thesis by (simp only: page_start_def split: if_split) simp
qed

lemma init_pages_of:
  "init_pages unsafe (page_start base) (page_end base len) s =
     Some (fold (init_page unsafe) (pages_of base len) s)"
  by (simp add: init_pages_fold page_start_aligned page_end_aligned pages_of_def)

text \<open>What the whole map denotes, read from memory before the loop starts.\<close>

definition entry_pages :: "memory \<Rightarrow> u64 \<Rightarrow> nat \<Rightarrow> u64 list" where
  "entry_pages m mmap i =
     (if mmap_type m mmap i = 1 then pages_of (mmap_base m mmap i) (mmap_length m mmap i) else [])"

definition candidates :: "memory \<Rightarrow> u64 \<Rightarrow> nat \<Rightarrow> u64 list" where
  "candidates m mmap n = concat (map (entry_pages m mmap) [0..<n])"

definition other_entries :: "memory \<Rightarrow> u64 \<Rightarrow> nat \<Rightarrow> physical_other_range list" where
  "other_entries m mmap n =
     map (\<lambda>i. \<lparr>or_start = mmap_base m mmap i, or_size = mmap_length m mmap i,
               or_type = other_type (mmap_type m mmap i)\<rparr>)
       (filter (\<lambda>i. mmap_type m mmap i \<noteq> 1) [0..<n])"

definition max_addr_of :: "memory \<Rightarrow> u64 \<Rightarrow> nat \<Rightarrow> u64" where
  "max_addr_of m mmap n = fold (\<lambda>i mx. max mx (mmap_base m mmap i + mmap_length m mmap i)) [0..<n] 0"

lemma mmap_frame:
  assumes "\<And>x. x \<notin> region stack k \<Longrightarrow> m' x = m x" "sep stack k mmap (24 * n)" "i < n"
  shows "mmap_base m' mmap i = mmap_base m mmap i" "mmap_length m' mmap i = mmap_length m mmap i"
    "mmap_type m' mmap i = mmap_type m mmap i"
proof -
  have "sep stack k (mmap + of_nat (24 * i)) 8" "sep stack k (mmap + of_nat (24 * i + 8)) 8"
    "sep stack k (mmap + of_nat (24 * i + 16)) 4"
    by (rule sep_right[OF assms(2)]; use assms(3) in simp)+
  then show "mmap_base m' mmap i = mmap_base m mmap i" "mmap_length m' mmap i = mmap_length m mmap i"
    "mmap_type m' mmap i = mmap_type m mmap i"
    using m64.ld_outside[of stack k m' m] m32.ld_outside[of stack k m' m] assms(1)
    by (simp_all add: mmap_base_def mmap_length_def mmap_type_def add.assoc)
qed

lemma init_entry_spec:
  assumes "\<And>x. x \<notin> region stack k \<Longrightarrow> mem s x = m x" "sep stack k mmap (24 * n)" "i < n"
    and "length (entry_pages m mmap i) \<le> pmm_room s"
    and "mmap_type m mmap i = 1 \<or> unat (g_ranges_size s) < 32"
  shows "init_entry mmap unsafe i (mx, s) = Some (max mx (mmap_base m mmap i + mmap_length m mmap i),
     if mmap_type m mmap i = 1 then fold (init_page unsafe) (entry_pages m mmap i) s
     else s\<lparr>g_ranges := (g_ranges s)[unat (g_ranges_size s) :=
              \<lparr>or_start = mmap_base m mmap i, or_size = mmap_length m mmap i,
               or_type = other_type (mmap_type m mmap i)\<rparr>], g_ranges_size := g_ranges_size s + 1\<rparr>)"
  using assms(5) mmap_frame[of stack k "mem s" m mmap n i, OF assms(1-3)]
  by (auto simp: init_entry_def Let_def init_pages_of entry_pages_def add_range_def max_def not_less)

lemma candidates_Suc: "candidates m mmap (Suc k) = candidates m mmap k @ entry_pages m mmap k"
  by (simp add: candidates_def)

lemma other_entries_Suc:
  "other_entries m mmap (Suc k) = other_entries m mmap k @
     (if mmap_type m mmap k = 1 then []
      else [\<lparr>or_start = mmap_base m mmap k, or_size = mmap_length m mmap k,
             or_type = other_type (mmap_type m mmap k)\<rparr>])"
  by (simp add: other_entries_def)

lemma length_other_entries_mono: "k \<le> n \<Longrightarrow> length (other_entries m mmap k) \<le> length (other_entries m mmap n)"
  by (rule lift_Suc_mono_le) (auto simp: other_entries_Suc)

lemma length_candidates_mono: "k \<le> n \<Longrightarrow> length (candidates m mmap k) \<le> length (candidates m mmap n)"
  by (rule lift_Suc_mono_le) (auto simp: candidates_Suc)

lemma usable_append: "usable u (xs @ ys) = usable u xs @ usable u ys"
  by (simp add: usable_def)

text \<open>State of the loop over the map after its first \<open>k\<close> entries.\<close>

definition init_after ::
  "memory_range list \<Rightarrow> memory \<Rightarrow> u64 \<Rightarrow> nat \<Rightarrow> 'z pmm_scheme \<Rightarrow> 'z pmm_scheme \<Rightarrow> bool" where
  "init_after unsafe m mmap k s s' \<longleftrightarrow>
     (g_ap_low_page s', pmm_stack s') =
        fold place (usable unsafe (candidates m mmap k)) (g_ap_low_page s, pmm_stack s) \<and>
     fill_frame (length (candidates m mmap k)) s s' \<and>
     unat (g_ranges_size s') = length (other_entries m mmap k) \<and> length (g_ranges s') = 32 \<and>
     take (length (other_entries m mmap k)) (g_ranges s') = other_entries m mmap k"

lemma init_after_step:
  assumes after: "init_after unsafe (mem s) mmap k s s'" and "k < n" and idx: "g_free_index s = 0"
    and cap: "length (candidates (mem s) mmap n) \<le> cap" "cap < 2 ^ 61"
    and other: "length (other_entries (mem s) mmap n) \<le> 32"
    and sep: "sep (g_free_pages s) (8 * cap) mmap (24 * n)"
  shows "\<exists>s''. init_entry mmap unsafe k (mx, s') =
      Some (max mx (mmap_base (mem s) mmap k + mmap_length (mem s) mmap k), s'') \<and>
      init_after unsafe (mem s) mmap (Suc k) s s''"
proof -
  let ?m = "mem s" and ?c = "length (candidates (mem s) mmap k)"
  have c: "?c + length (entry_pages ?m mmap k) \<le> cap"
    using length_candidates_mono[of "Suc k" n ?m mmap] cap(1) \<open>k < n\<close> by (simp add: candidates_Suc)
  have ff: "fill_frame ?c s s'" using after by (simp add: init_after_def)
  have frame: "mem s' x = ?m x" if "x \<notin> region (g_free_pages s) (8 * cap)" for x
    using ff that c region_mono[of "8 * ?c" "8 * cap" "g_free_pages s"]
    by (auto simp: fill_frame_def idx)
  have room: "length (entry_pages ?m mmap k) \<le> pmm_room s'"
    using ff c cap(2) by (auto simp: fill_frame_def idx pmm_room_def)
  have ty: "mmap_type ?m mmap k = 1 \<or> unat (g_ranges_size s') < 32"
    using after other length_other_entries_mono[of "Suc k" n ?m mmap] \<open>k < n\<close>
    by (auto simp: init_after_def other_entries_Suc split: if_splits)
  note step = init_entry_spec[of "g_free_pages s" "8 * cap" s', OF frame sep \<open>k < n\<close> room ty]
  show ?thesis
  proof (cases "mmap_type ?m mmap k = 1")
    case True
    have "init_after unsafe ?m mmap (Suc k) s (fold (init_page unsafe) (entry_pages ?m mmap k) s')"
      using after fold_init_page[OF room, of unsafe] True fill_frame_trans[OF ff]
      by (auto simp: init_after_def other_entries_Suc candidates_Suc usable_append)
    then show ?thesis using step True by simp
  next
    case False
    let ?r = "\<lparr>or_start = mmap_base ?m mmap k, or_size = mmap_length ?m mmap k,
               or_type = other_type (mmap_type ?m mmap k)\<rparr>"
    let ?s = "s'\<lparr>g_ranges := (g_ranges s')[unat (g_ranges_size s') := ?r],
                 g_ranges_size := g_ranges_size s' + 1\<rparr>"
    have "unat (g_ranges_size s') < 32" using ty False by simp
    then have "unat (g_ranges_size s' + 1) = Suc (unat (g_ranges_size s'))" by (simp add: unat_plus_if')
    moreover have "pmm_stack ?s = pmm_stack s'" by (simp add: pmm_stack_def)
    moreover have "entry_pages ?m mmap k = []" using False by (simp add: entry_pages_def)
    ultimately have "init_after unsafe ?m mmap (Suc k) s ?s"
      using after False ty
      by (auto simp: init_after_def other_entries_Suc candidates_Suc fill_frame_def
          take_list_update_snoc)
    then show ?thesis using step False by simp
  qed
qed

lemma init_entries_spec:
  assumes "g_free_index s = 0" "g_ranges_size s = 0" "length (g_ranges s) = 32"
    and "length (candidates (mem s) mmap (unat entries)) \<le> cap" "cap < 2 ^ 61"
    and "length (other_entries (mem s) mmap (unat entries)) \<le> 32"
    and "sep stack (8 * cap) mmap (24 * unat entries)"
  shows "\<exists>s'. init_entries stack mmap entries unsafe s =
      Some (max_addr_of (mem s) mmap (unat entries), s') \<and>
      init_after unsafe (mem s) mmap (unat entries) (s\<lparr>g_free_pages := stack\<rparr>) s'"
proof -
  let ?s = "s\<lparr>g_free_pages := stack\<rparr>"
  have "\<exists>s'. foldM (init_entry mmap unsafe) [0..<k] (0, ?s) = Some (max_addr_of (mem s) mmap k, s') \<and>
      init_after unsafe (mem s) mmap k ?s s'" if "k \<le> unat entries" for k
    using that
  proof (induction k)
    case 0
    then show ?case using assms(1-3)
      by (simp add: init_after_def candidates_def other_entries_def usable_def fill_frame_refl
          max_addr_of_def)
  next
    case (Suc k)
    then obtain s' where *: "foldM (init_entry mmap unsafe) [0..<k] (0, ?s) = Some (max_addr_of (mem s) mmap k, s')"
      "init_after unsafe (mem s) mmap k ?s s'" by auto
    show ?case
      using init_after_step[of unsafe ?s mmap k s' "unat entries" cap "max_addr_of (mem s) mmap k"]
        * assms Suc.prems
      by (simp add: foldM_upt_Suc max_addr_of_def del: upt_Suc) (simp)
  qed
  then show ?thesis by (simp add: init_entries_def)
qed

section \<open>Which pages these are\<close>

definition no_wrap :: "u64 \<Rightarrow> u64 \<Rightarrow> bool" where
  "no_wrap base len \<longleftrightarrow> unat base + unat len \<le> 2 ^ 64 - 4096"

lemma unat_page_start:
  assumes "unat base \<le> 2 ^ 64 - 4096"
  shows "unat (page_start base) = (unat base + 4095) div 4096 * 4096"
proof (cases "unat base mod 4096 = 0")
  case True
  then have "(unat base + 4095) div 4096 = unat base div 4096"
    using div_mult_mod_eq[of "unat base" 4096] by linarith
  then show ?thesis using True by (simp add: page_start_def aligned_unat) 
next
  case False
  have e: "unat (4096 - base mod 4096) = 4096 - unat base mod 4096"
    by (simp add: unat_sub_if' unat_mod_distrib)
  have "unat (base + (4096 - base mod 4096)) = unat base + (4096 - unat base mod 4096)"
    using assms False e div_mult_mod_eq[of "unat base" 4096] by (simp add: unat_plus_if')
  also have "\<dots> = (unat base + 4095) div 4096 * 4096"
  proof -
    let ?q = "unat base div 4096" and ?r = "unat base mod 4096"
    have b: "unat base = 4096 * ?q + ?r" and r: "?r < 4096" by simp_all
    have "(unat base + 4095) div 4096 = Suc ?q"
      using ceil_4096[of ?r ?q] r False by simp
    then show ?thesis using b r by linarith
  qed
  finally show ?thesis using False by (simp add: page_start_def aligned_unat)
qed

lemma unat_page_end:
  assumes "no_wrap base len"
  shows "unat (page_end base len) = (unat base + unat len) div 4096 * 4096"
proof -
  have "unat (base + len) = unat base + unat len"
    using assms by (simp add: no_wrap_def unat_plus_if')
  then show ?thesis
    by (simp only: page_end_def unat_sub_mod_4096) (simp add: minus_mod_eq_div_mult)
qed

lemma set_pages_of:
  assumes "no_wrap base len"
  shows "p \<in> set (pages_of base len) \<longleftrightarrow>
    p mod 4096 = 0 \<and> unat base \<le> unat p \<and> unat p + 4096 \<le> unat base + unat len" (is "?L \<longleftrightarrow> ?R")
proof -
  define a b where "a = (unat base + 4095) div 4096" and "b = (unat base + unat len) div 4096"
  have st: "unat (page_start base) = a * 4096"
    using unat_page_start[of base] assms by (simp add: no_wrap_def a_def)
  have en: "unat (page_end base len) = b * 4096" using unat_page_end[OF assms] by (simp add: b_def)
  have n: "(unat (page_end base len) - unat (page_start base)) div 4096 = b - a"
    by (simp add: st en flip: diff_mult_distrib)
  have el: "unat (page_start base + 4096 * of_nat i) = (a + i) * 4096" if "i < b - a" for i
  proof -
    have "b * 4096 < 2 ^ 64" using en unat_u64_less[of "page_end base len"] by simp
    then have "(a + i) * 4096 < 2 ^ 64" using that by simp
    moreover have "unat (4096 * of_nat i :: u64) = 4096 * i"
      using calculation unat_of_nat[of "4096 * i", where 'a = 64] by simp
    ultimately show ?thesis by (simp add: unat_plus_if' st)
  qed
  have "?L \<longleftrightarrow> (\<exists>i<b - a. p = page_start base + 4096 * of_nat i)"
    by (auto simp: pages_of_def n)
  also have "\<dots> \<longleftrightarrow> (\<exists>i<b - a. unat p = (a + i) * 4096)"
    by (metis el word_unat_eq_iff)
  also have "\<dots> \<longleftrightarrow> (\<exists>q. unat p = q * 4096 \<and> a \<le> q \<and> q < b)"
  proof
    assume "\<exists>q. unat p = q * 4096 \<and> a \<le> q \<and> q < b"
    then obtain q where "unat p = q * 4096" "a \<le> q" "q < b" by blast
    then show "\<exists>i<b - a. unat p = (a + i) * 4096" by (intro exI[of _ "q - a"]) auto
  next
    assume "\<exists>i<b - a. unat p = (a + i) * 4096"
    then obtain i where "i < b - a" "unat p = (a + i) * 4096" by blast
    then show "\<exists>q. unat p = q * 4096 \<and> a \<le> q \<and> q < b" by (intro exI[of _ "a + i"]) auto
  qed
  also have "\<dots> \<longleftrightarrow> ?R"
  proof -
    have 1: "a \<le> q \<longleftrightarrow> unat base \<le> q * 4096" for q
      using div_le_mono[of "unat base + 4095" "q * 4096 + 4095" 4096]
        div_times_less_eq_dividend[of "unat base + 4095" 4096] dividend_less_times_div[of 4096 "unat base + 4095"]
      unfolding a_def by auto
    have 2: "q < b \<longleftrightarrow> q * 4096 + 4096 \<le> unat base + unat len" for q
      using less_eq_div_iff_mult_less_eq[of 4096 "Suc q" "unat base + unat len"]
      unfolding b_def by (simp add: Suc_le_eq add.commute)
    show ?thesis unfolding 1 2 by (auto simp: aligned_unat dest!: mod_0_imp_dvd simp: dvd_def)
  qed
  finally show ?thesis .
qed

lemma distinct_pages_of: "distinct (pages_of base len)"
proof -
  have "inj_on (\<lambda>i. page_start base + 4096 * of_nat i) {0..<n div 4096}" if "n < 2 ^ 64" for n
  proof (rule inj_onI)
    fix i j assume ij: "i \<in> {0..<n div 4096}" "j \<in> {0..<n div 4096}"
      and "page_start base + 4096 * of_nat i = page_start base + 4096 * of_nat j"
    then have "unat (of_nat (4096 * i) :: u64) = unat (of_nat (4096 * j) :: u64)" by simp
    then show "i = j" using ij that by (simp only: unat_of_nat) simp
  qed
  then show ?thesis using unat_u64_less[of "page_end base len"]
    by (auto simp: pages_of_def distinct_map less_imp_diff_less)
qed

lemma length_pages_of: "no_wrap base len \<Longrightarrow> length (pages_of base len) \<le> unat len div 4096"
proof -
  assume w: "no_wrap base len"
  have "unat (page_start base) = (unat base + 4095) div 4096 * 4096"
    using w by (intro unat_page_start) (simp add: no_wrap_def)
  then show ?thesis using unat_page_end[OF w] by (simp add: pages_of_def)
qed

lemma fold_place_sets:
  assumes "fold place ps (ap, st) = (ap', st')"
  shows "insert 0 (set st' \<union> {ucast ap'}) = insert 0 (set st \<union> {ucast ap} \<union> set ps)"
  using assms
proof (induction ps arbitrary: ap st)
  case (Cons p ps)
  have "ucast (ucast p :: u32) = p" if "p < 0x100000"
    using that by (intro ucast_u32_back) (simp add: word_less_nat_alt)
  then show ?case using Cons.IH Cons.prems by (fastforce split: if_splits)
qed simp

lemma fold_place_distinct:
  assumes "fold place ps (ap, st) = (ap', st')" "distinct (st @ ps)"
    "ap \<noteq> 0 \<Longrightarrow> ucast ap \<notin> set st \<union> set ps"
  shows "distinct st' \<and> (ap' \<noteq> 0 \<longrightarrow> ucast ap' \<notin> set st')"
  using assms
proof (induction ps arbitrary: ap st)
  case (Cons p ps)
  have "ucast (ucast p :: u32) = p" if "p < 0x100000"
    using that by (intro ucast_u32_back) (simp add: word_less_nat_alt)
  then show ?case using Cons.IH[of "ucast p" st] Cons.IH[of ap "st @ [p]"] Cons.prems
    by (auto split: if_splits)
qed auto

section \<open>Properties\<close>

text \<open>
  A page the boot code may give out: aligned, wholly inside a usable entry of the map, and with
  its first byte in no unsafe range.
\<close>

definition page_in_entry :: "memory \<Rightarrow> u64 \<Rightarrow> nat \<Rightarrow> u64 \<Rightarrow> bool" where
  "page_in_entry m mmap i p \<longleftrightarrow> mmap_type m mmap i = 1 \<and> p mod 4096 = 0 \<and>
     unat (mmap_base m mmap i) \<le> unat p \<and>
     unat p + 4096 \<le> unat (mmap_base m mmap i) + unat (mmap_length m mmap i)"

definition usable_page :: "memory \<Rightarrow> u64 \<Rightarrow> nat \<Rightarrow> memory_range list \<Rightarrow> u64 \<Rightarrow> bool" where
  "usable_page m mmap n unsafe p \<longleftrightarrow>
     list_ex (\<lambda>i. page_in_entry m mmap i p) [0..<n] \<and> \<not> list_ex (is_in_range p) unsafe"

text \<open>
  What \<open>pmm_init\<close> relies on: a fresh allocator, at most 32 reserved entries, entries that do not
  run past the end of the address space, and a stack array of \<open>cap\<close> elements that is big enough
  and does not overlap the map.
\<close>

definition pmm_init_pre :: "u64 \<Rightarrow> u64 \<Rightarrow> u32 \<Rightarrow> nat \<Rightarrow> 'z pmm_scheme \<Rightarrow> bool" where
  "pmm_init_pre stack mmap entries cap s \<longleftrightarrow>
     g_free_index s = 0 \<and> g_ap_low_page s = 0 \<and> g_ranges_size s = 0 \<and> length (g_ranges s) = 32 \<and>
     length (other_entries (mem s) mmap (unat entries)) \<le> 32 \<and>
     list_all (\<lambda>i. no_wrap (mmap_base (mem s) mmap i) (mmap_length (mem s) mmap i)) [0..<unat entries] \<and>
     length (candidates (mem s) mmap (unat entries)) \<le> cap \<and> cap < 2 ^ 61 \<and>
     sep stack (8 * cap) mmap (24 * unat entries)"

lemma usable_candidates:
  assumes "list_all (\<lambda>i. no_wrap (mmap_base m mmap i) (mmap_length m mmap i)) [0..<n]"
  shows "set (usable unsafe (candidates m mmap n)) = {p. usable_page m mmap n unsafe p}"
proof -
  have "p \<in> set (entry_pages m mmap i) \<longleftrightarrow> page_in_entry m mmap i p" if "i < n" for i p
    using assms that by (simp add: entry_pages_def page_in_entry_def set_pages_of list_all_iff)
  then have "p \<in> set (candidates m mmap n) \<longleftrightarrow> list_ex (\<lambda>i. page_in_entry m mmap i p) [0..<n]" for p
    by (auto simp: candidates_def list_ex_iff)
  then show ?thesis by (auto simp: usable_def usable_page_def)
qed

lemma init_entries_after:
  assumes "pmm_init_pre stack mmap entries cap s"
  obtains s' where "init_entries stack mmap entries unsafe s =
      Some (max_addr_of (mem s) mmap (unat entries), s')"
    "fold place (usable unsafe (candidates (mem s) mmap (unat entries))) (0, []) =
      (g_ap_low_page s', pmm_stack s')"
    "init_after unsafe (mem s) mmap (unat entries) (s\<lparr>g_free_pages := stack\<rparr>) s'"
proof -
  have "pmm_stack (s\<lparr>g_free_pages := stack\<rparr>) = []" "g_ap_low_page s = 0"
    using assms by (simp_all add: pmm_init_pre_def pmm_stack_empty_iff)
  then show ?thesis using init_entries_spec[of s mmap entries cap stack unsafe] assms that
    by (auto simp: pmm_init_pre_def init_after_def)
qed

lemma init_entries_usable:
  assumes "pmm_init_pre stack mmap entries cap s"
  shows "\<exists>s'. init_entries stack mmap entries unsafe s =
      Some (max_addr_of (mem s) mmap (unat entries), s') \<and>
      insert 0 (set (pmm_stack s') \<union> {ucast (g_ap_low_page s')}) =
      insert 0 {p. usable_page (mem s) mmap (unat entries) unsafe p}"
proof (rule init_entries_after[OF assms, of unsafe])
  fix s' assume "init_entries stack mmap entries unsafe s =
      Some (max_addr_of (mem s) mmap (unat entries), s')"
    "fold place (usable unsafe (candidates (mem s) mmap (unat entries))) (0, []) =
      (g_ap_low_page s', pmm_stack s')"
  then show ?thesis using usable_candidates[of "mem s" mmap "unat entries" unsafe] assms
    fold_place_sets[of "usable unsafe (candidates (mem s) mmap (unat entries))" 0 "[]"]
    by (simp add: pmm_init_pre_def)
qed

text \<open>
  C15. The loop of \<open>pmm_init\<close> over the boot memory map always ends without writing past the
  reserved-range table, and the pages it leaves on the free stack together with the low page kept
  for the application processors are exactly the aligned pages that lie wholly in a usable map
  entry and start in no unsafe range. Page 0 is left out of the comparison: its address doubles as
  the value for "no page".
\<close>

theorem init_entries_pages:
  assumes "pmm_init_pre stack mmap entries cap s"
  shows "\<exists>s'. init_entries stack mmap entries unsafe s =
      Some (max_addr_of (mem s) mmap (unat entries), s') \<and>
      insert 0 (set (pmm_stack s') \<union> {ucast (g_ap_low_page s')}) =
      insert 0 {p. usable_page (mem s) mmap (unat entries) unsafe p}"
  by (rule init_entries_usable[OF assms])

text \<open>A map with one usable entry, used to instantiate the theorems below.\<close>

definition demo_map :: memory where
  "demo_map = st32 (st64 (st64 (\<lambda>_. 0) 0x8000 0x1000) 0x8008 0x3000) 0x8010 1"

definition demo_pmm :: pmm where
  "demo_pmm = \<lparr>mem = demo_map, cr3 = 0, g_free_pages = 0, g_free_index = 0,
     g_ranges = replicate 32 \<lparr>or_start = 0, or_size = 0, or_type = RESERVED\<rparr>,
     g_ranges_size = 0, g_ap_low_page = 0\<rparr>"

lemma demo_entry [simp]:
  "mmap_base demo_map 0x8000 0 = 0x1000" "mmap_length demo_map 0x8000 0 = 0x3000"
  "mmap_type demo_map 0x8000 0 = 1"
  by (simp_all add: demo_map_def mmap_base_def mmap_length_def mmap_type_def mem_simps sep_def)

lemma demo_candidates: "candidates demo_map 0x8000 (Suc 0) = [0x1000, 0x2000, 0x3000]"
  by (simp add: candidates_def entry_pages_def pages_of_def page_start_def page_end_def upt_conv_Cons)

lemma demo_pre: "pmm_init_pre 0x9000 0x8000 1 3 demo_pmm"
  by (simp add: pmm_init_pre_def demo_pmm_def demo_candidates other_entries_def no_wrap_def sep_def)

theorem init_entries_pages_witness:
  "\<exists>s'. init_entries 0x9000 0x8000 1 [\<lparr>mr_start = 0x2000, mr_end = 0x2010\<rparr>] demo_pmm =
      Some (max_addr_of (mem demo_pmm) 0x8000 (unat (1 :: u32)), s') \<and>
      insert 0 (set (pmm_stack s') \<union> {ucast (g_ap_low_page s')}) =
      insert 0 {p. usable_page (mem demo_pmm) 0x8000 (unat (1 :: u32)) [\<lparr>mr_start = 0x2000, mr_end = 0x2010\<rparr>] p}"
  by (rule init_entries_pages[OF demo_pre])

text \<open>Two usable entries of the map that do not overlap.\<close>

definition entries_apart :: "memory \<Rightarrow> u64 \<Rightarrow> nat \<Rightarrow> bool" where
  "entries_apart m mmap n \<longleftrightarrow> (\<forall>j<n. \<forall>i<j. mmap_type m mmap i = 1 \<longrightarrow> mmap_type m mmap j = 1 \<longrightarrow>
     unat (mmap_base m mmap i) + unat (mmap_length m mmap i) \<le> unat (mmap_base m mmap j) \<or>
     unat (mmap_base m mmap j) + unat (mmap_length m mmap j) \<le> unat (mmap_base m mmap i))"

lemma distinct_candidates:
  assumes "list_all (\<lambda>i. no_wrap (mmap_base m mmap i) (mmap_length m mmap i)) [0..<n]"
    and "entries_apart m mmap n"
  shows "distinct (candidates m mmap n)"
proof -
  have "set (entry_pages m mmap i) \<inter> set (entry_pages m mmap k) = {}" if "i < k" "k < n" for i k
  proof -
    have w: "no_wrap (mmap_base m mmap i) (mmap_length m mmap i)"
      "no_wrap (mmap_base m mmap k) (mmap_length m mmap k)"
      using that assms(1) by (auto simp: list_all_iff)
    show ?thesis using that assms(2)
      by (auto simp: entry_pages_def set_pages_of[OF w(1)] set_pages_of[OF w(2)] entries_apart_def) force+
  qed
  note disj = this
  have "distinct (candidates m mmap k)" if "k \<le> n" for k
    using that
  proof (induction k)
    case (Suc k)
    have "set (candidates m mmap k) \<inter> set (entry_pages m mmap k) = {}"
      using Suc.prems disj[of _ k] by (fastforce simp: candidates_def)
    then show ?case using Suc by (simp add: candidates_Suc entry_pages_def distinct_pages_of)
  qed (simp add: candidates_def)
  then show ?thesis by simp
qed

text \<open>
  C16. When the usable entries of the map do not overlap, no page is on the free stack twice after
  initialisation, and the low page reserved for the application processors is not on it.
\<close>

theorem init_entries_distinct:
  assumes "pmm_init_pre stack mmap entries cap s"
    and "entries_apart (mem s) mmap (unat entries)"
    and "init_entries stack mmap entries unsafe s = Some (mx, s')"
  shows "distinct (pmm_stack s') \<and>
     (g_ap_low_page s' = 0 \<or> ucast (g_ap_low_page s') \<notin> set (pmm_stack s'))"
proof (rule init_entries_after[OF assms(1), of unsafe])
  fix t assume t: "init_entries stack mmap entries unsafe s =
      Some (max_addr_of (mem s) mmap (unat entries), t)"
    "fold place (usable unsafe (candidates (mem s) mmap (unat entries))) (0, []) =
      (g_ap_low_page t, pmm_stack t)"
  have "distinct (usable unsafe (candidates (mem s) mmap (unat entries)))"
    using distinct_candidates assms(1,2) by (simp add: usable_def pmm_init_pre_def)
  then show ?thesis using fold_place_distinct[OF t(2)] t(1) assms(3) by auto
qed

theorem init_entries_distinct_witness:
  "\<exists>mx s'. init_entries 0x9000 0x8000 1 [] demo_pmm = Some (mx, s') \<and> distinct (pmm_stack s') \<and>
     (g_ap_low_page s' = 0 \<or> ucast (g_ap_low_page s') \<notin> set (pmm_stack s'))"
proof (rule init_entries_after[OF demo_pre, of "[]"])
  fix t assume t: "init_entries 0x9000 0x8000 1 [] demo_pmm =
      Some (max_addr_of (mem demo_pmm) 0x8000 (unat (1 :: u32)), t)"
  have "entries_apart (mem demo_pmm) 0x8000 (unat (1 :: u32))" by (simp add: entries_apart_def)
  from init_entries_distinct[OF demo_pre this t] t show ?thesis by blast
qed

text \<open>
  C18. \<open>_get_low_page\<close> returns the page with the lowest address of a non-empty free stack and
  removes exactly that page, keeping the order of the others.
\<close>

theorem get_low_page_lowest:
  assumes "pmm_stack s \<noteq> []" "length (pmm_stack s) < 2 ^ 31"
  shows "fst (get_low_page s) = Min (set (pmm_stack s)) \<and>
    pmm_stack (snd (get_low_page s)) = remove1 (Min (set (pmm_stack s))) (pmm_stack s)"
  using get_low_page_stack[OF assms prod.collapse[symmetric]] by simp

definition demo_stack :: pmm where
  "demo_stack = demo_pmm\<lparr>mem := st64 (st64 demo_map 0x9000 0x5000) 0x9008 0x3000,
     g_free_pages := 0x9000, g_free_index := 2\<rparr>"

lemma demo_stack_list: "pmm_stack demo_stack = [0x5000, 0x3000]"
  by (simp add: pmm_stack_def demo_stack_def demo_pmm_def upt_conv_Cons mem_simps sep_def)

theorem get_low_page_lowest_witness:
  "fst (get_low_page demo_stack) = 0x3000 \<and> pmm_stack (snd (get_low_page demo_stack)) = [0x5000]"
  using get_low_page_lowest[of demo_stack] by (simp add: demo_stack_list min_def)

text \<open>
  C13. However a client interleaves allocations with frees of pages it holds, no page is ever both
  free and held, none is on the free stack twice, and no page is lost or made up: the free pages
  together with the held ones stay the same set.
\<close>

theorem pmm_no_double_allocation:
  assumes "pmm_step\<^sup>*\<^sup>* (s, own) (s', own')" "distinct (pmm_stack s)" "set (pmm_stack s) \<inter> own = {}"
  shows "distinct (pmm_stack s') \<and> set (pmm_stack s') \<inter> own' = {} \<and>
     set (pmm_stack s') \<union> own' = set (pmm_stack s) \<union> own"
proof -
  have "pmm_owned y \<and> set (pmm_stack (fst y)) \<union> snd y = set (pmm_stack s) \<union> own"
    if "pmm_step\<^sup>*\<^sup>* (s, own) y" for y
    using that
  proof (induction rule: rtranclp_induct)
    case base
    then show ?case using assms(2,3) by (simp add: pmm_owned_def)
  next
    case (step y z)
    then show ?case using pmm_step_owned[of y z] by auto
  qed
  from this[OF assms(1)] show ?thesis by (simp add: pmm_owned_def)
qed

theorem pmm_no_double_allocation_witness:
  "\<exists>s'. pmm_step\<^sup>*\<^sup>* (demo_stack, {}) (s', {0x3000}) \<and> distinct (pmm_stack s') \<and>
     set (pmm_stack s') \<inter> {0x3000} = {} \<and> set (pmm_stack s') \<union> {0x3000} = {0x3000, 0x5000}"
proof -
  have "pmm_alloc_page demo_stack = (0x3000, snd (pmm_alloc_page demo_stack))"
    using pmm_stack_alloc(1)[of demo_stack] by (simp add: demo_stack_list)
  then have "pmm_step\<^sup>*\<^sup>* (demo_stack, {}) (snd (pmm_alloc_page demo_stack), {0x3000})"
    by (intro r_into_rtranclp pmm_step.alloc) (simp_all add: demo_stack_list)
  from this pmm_no_double_allocation[OF this] show ?thesis
    by (intro exI[of _ "snd (pmm_alloc_page demo_stack)"]) (auto simp: demo_stack_list)
qed

end
