(* ===== verification/Paging.thy ===== *)
theory Paging
  imports Pmm
begin

text \<open>
  Page tables (\<^verbatim>\<open>kernel/system/mem_mgmt/vmm/paging.c\<close>): finding or creating the entry of a
  virtual page, mapping and unmapping it. The tables live in the flat memory and the kernel reaches
  them through the direct map, at their physical address plus \<open>PHYSICAL_MAP_OFFSET\<close>. The
  invalidation of the TLB (\<open>invlpg\<close>) has no counterpart: the model has no TLB.
\<close>

section \<open>Data and operations\<close>

record page_flags =
  pf_write :: bool
  pf_exec :: bool
  pf_kernel :: bool
  pf_usable :: bool
  pf_present :: bool

definition PG_PRESENT :: u64 where "PG_PRESENT = 1"
definition PG_RW :: u64 where "PG_RW = 2"
definition PG_USER :: u64 where "PG_USER = 4"
definition PG_GLOBAL :: u64 where "PG_GLOBAL = 0x100"
definition PG_NX :: u64 where "PG_NX = 0x8000000000000000"
definition PG_CUSTOM_USABLE :: u64 where "PG_CUSTOM_USABLE = 0x200"
definition MASK_REMOVE_16U :: u64 where "MASK_REMOVE_16U = 0xffffffffffff"
definition MASK_REMOVE_12L :: u64 where "MASK_REMOVE_12L = 0xfffffffff000"

text \<open>
  The address of entry \<open>i\<close> of a table, and one level of the descent: create the table below when
  the entry is not present, add the flags, and go down.
\<close>

definition entry_addr :: "u64 \<Rightarrow> u64 \<Rightarrow> u64" where
  "entry_addr table i = table + PHYSICAL_MAP_OFFSET + 8 * i"

definition pt_level :: "u64 \<Rightarrow> u64 \<Rightarrow> u64 \<Rightarrow> 'z pmm_scheme \<Rightarrow> u64 \<times> 'z pmm_scheme" where
  "pt_level table i flags_add s =
     (let a = entry_addr table i;
          s1 = (if ld64 (mem s) a AND PG_PRESENT = 0
                then let (p, t) = pmm_alloc_page s in t\<lparr>mem := st64 (mem t) a (p OR PG_PRESENT)\<rparr>
                else s);
          s2 = s1\<lparr>mem := st64 (mem s1) a (ld64 (mem s1) a OR flags_add)\<rparr>
      in (ld64 (mem s2) a AND MASK_REMOVE_12L, s2))"

definition get_page_table_entry ::
  "u64 \<Rightarrow> u64 \<Rightarrow> u64 \<Rightarrow> 'z pmm_scheme \<Rightarrow> u64 \<times> 'z pmm_scheme" where
  "get_page_table_entry pml4t vaddr flags_add s =
     (let i = vaddr div 0x8000000000; v = vaddr mod 0x8000000000;
          (pdpt, s) = pt_level pml4t i flags_add s;
          i = v div 0x40000000; v = v mod 0x40000000;
          (pdt, s) = pt_level pdpt i flags_add s;
          i = v div 0x200000; v = v mod 0x200000;
          (pt, s) = pt_level pdt i flags_add s
      in (entry_addr pt (v div 0x1000), s))"

definition table_flags :: "page_flags \<Rightarrow> u64" where
  "table_flags flags =
     (if pf_present flags then PG_PRESENT else 0) OR
     (if pf_write flags then PG_RW else 0) OR
     (if pf_kernel flags then PG_GLOBAL else PG_USER) OR
     (if pf_usable flags then PG_CUSTOM_USABLE else 0)"

definition set_page :: "u64 \<Rightarrow> u64 \<Rightarrow> u64 \<Rightarrow> page_flags \<Rightarrow> 'z pmm_scheme \<Rightarrow> 'z pmm_scheme" where
  "set_page pml4t vaddr paddr flags s =
     (let tf = table_flags flags;
          pa = paddr AND (MASK_REMOVE_12L AND NOT PG_NX);
          (page, s) = get_page_table_entry pml4t (vaddr AND MASK_REMOVE_16U) tf s
      in s\<lparr>mem := st64 (mem s) page (pa OR tf OR (if pf_exec flags then 0 else PG_NX))\<rparr>)"

definition free_page :: "u64 \<Rightarrow> u64 \<Rightarrow> 'z pmm_scheme \<Rightarrow> 'z pmm_scheme" where
  "free_page pml4t vaddr s =
     (let (page, s) = get_page_table_entry pml4t (vaddr AND MASK_REMOVE_16U) 0 s;
          s = (if ld64 (mem s) page AND PG_CUSTOM_USABLE \<noteq> 0
               then pmm_free_page (ld64 (mem s) page AND MASK_REMOVE_12L) s else s)
      in s\<lparr>mem := st64 (mem s) page 0\<rparr>)"

section \<open>The translation the tables denote\<close>

text \<open>
  The processor's walk, for a machine with 48 physical address bits: four levels, with 1 GiB and
  2 MiB pages at the middle ones (bit 7 of the entry). The tables are read through the same window
  \<open>off\<close> the kernel uses.
\<close>

definition pte :: "memory \<Rightarrow> u64 \<Rightarrow> u64 \<Rightarrow> u64" where
  "pte m table i = ld64 m (entry_addr table i)"

definition is_table :: "u64 \<Rightarrow> bool" where
  "is_table e \<longleftrightarrow> e AND 0x81 = 1"

fun tbl :: "memory \<Rightarrow> u64 \<Rightarrow> u64 list \<Rightarrow> u64 option" where
  "tbl m t [] = Some t"
| "tbl m t (i # is) = (let e = pte m t i in
     if is_table e then tbl m (e AND MASK_REMOVE_12L) is else None)"

definition entry :: "memory \<Rightarrow> u64 \<Rightarrow> u64 list \<Rightarrow> u64 \<Rightarrow> u64" where
  "entry m r is i = (case tbl m r is of None \<Rightarrow> 0 | Some t \<Rightarrow> pte m t i)"

definition vidx :: "u64 \<Rightarrow> nat \<Rightarrow> u64" where
  "vidx v l = (v div 2 ^ (12 + 9 * l)) mod 512"

definition page_walk :: "memory \<Rightarrow> u64 \<Rightarrow> u64 \<Rightarrow> u64 option" where
  "page_walk m root v =
     (let i4 = vidx v 3; i3 = vidx v 2; i2 = vidx v 1; i1 = vidx v 0;
          e3 = entry m root [i4] i3; e2 = entry m root [i4, i3] i2; e1 = entry m root [i4, i3, i2] i1
      in if e3 AND 0x81 = 0x81 then Some ((e3 AND 0xffffc0000000) + v mod 0x40000000)
         else if e2 AND 0x81 = 0x81 then Some ((e2 AND 0xffffffe00000) + v mod 0x200000)
         else if e1 AND 1 = 1 then Some ((e1 AND MASK_REMOVE_12L) + v mod 0x1000)
         else None)"

section \<open>Tables in memory\<close>

lemma aligned_pages_sep:
  assumes "t mod 4096 = 0" "t' mod 4096 = 0" "t \<noteq> (t' :: u64)"
  shows "sep t 4096 t' 4096"
proof -
  have ge: "4096 \<le> unat (x - y)" if "x mod 4096 = 0" "y mod 4096 = 0" "x \<noteq> y" for x y :: u64
  proof -
    have "x - y \<noteq> 0" using that by simp
    then have "unat (x - y) \<noteq> 0" by (simp add: unat_eq_0)
    moreover have "4096 dvd unat x" "4096 dvd unat y"
      using that by (auto simp: aligned_unat mod_eq_0_iff_dvd)
    then have "4096 dvd unat (x - y)"
      by (simp add: unat_sub_if' dvd_diff_nat dvd_add)
    ultimately show ?thesis by (auto dest: dvd_imp_le)
  qed
  show ?thesis using assms ge[of t' t] ge[of t t'] by (simp add: sep_def)
qed

lemma entry_sep:
  assumes "t mod 4096 = 0" "t' mod 4096 = 0" "i < 512" "i' < 512" "(t, i) \<noteq> (t', i')"
  shows "sep (entry_addr t i) 8 (entry_addr t' i') 8"
proof -
  have i: "8 * unat i + 8 \<le> 4096" "8 * unat i' + 8 \<le> 4096"
    using assms(3,4) by (simp_all add: word_less_nat_alt)
  have e: "entry_addr t i = PHYSICAL_MAP_OFFSET + (t + of_nat (8 * unat i))" for t i
    by (simp add: entry_addr_def)
  have off: "sep (c + a) n (c + b) k = sep a n b k" for a b c n k by (simp add: sep_def)
  show ?thesis
  proof (cases "t = t'")
    case True
    then have "unat i \<noteq> unat i'" using assms(5) by (simp add: word_unat_eq_iff)
    then show ?thesis using i m64.elt_sep[of "unat i" "unat i'" t] True by (simp add: e off del: of_nat_mult)
  next
    case False
    have "sep (t + of_nat (8 * unat i)) 8 (t' + of_nat (8 * unat i')) 8"
      by (rule sep_sub[OF aligned_pages_sep[OF assms(1,2) False]]) (use i in simp_all)
    then show ?thesis by (simp add: e off del: of_nat_mult)
  qed
qed

lemma pte_st:
  assumes "t mod 4096 = 0" "t' mod 4096 = 0" "i < 512" "i' < 512"
  shows "pte (st64 m (entry_addr t i) e) t' i' = (if t = t' \<and> i = i' then e else pte m t' i')"
  using entry_sep[OF assms] by (auto simp: pte_def ld_sep)

definition phys_ok :: "u64 \<Rightarrow> bool" where
  "phys_ok p \<longleftrightarrow> p mod 4096 = 0 \<and> p < 0x400000000000"

text \<open>The array of the page stack lies below the window of the direct map.\<close>

definition stack_low :: "'z pmm_scheme \<Rightarrow> bool" where
  "stack_low s \<longleftrightarrow> unat (g_free_pages s) + 8 * unat (g_free_index s) \<le> 2 ^ 64 - 2 ^ 46"

lemma entry_addr_high:
  assumes "phys_ok t" "i < 512"
  shows "2 ^ 64 - 2 ^ 46 \<le> unat (entry_addr t i)" "unat (entry_addr t i) + 8 \<le> 2 ^ 64"
proof -
  have i: "unat (8 * i) = 8 * unat i" "unat i < 512"
    using assms(2) unat_of_nat[of "8 * unat i", where 'a = 64] by (simp_all add: word_less_nat_alt)
  have "4096 dvd unat t" using assms(1) by (auto simp: phys_ok_def aligned_unat mod_eq_0_iff_dvd)
  moreover have "unat t < 2 ^ 46" using assms(1) by (simp add: phys_ok_def word_less_nat_alt)
  ultimately have t: "unat t + 4096 \<le> 2 ^ 46" by (auto simp: dvd_def)
  have "unat (t + PHYSICAL_MAP_OFFSET) = unat t + (2 ^ 64 - 2 ^ 46)"
    using t by (simp add: PHYSICAL_MAP_OFFSET_def unat_plus_if')
  then have "unat (entry_addr t i) = unat t + (2 ^ 64 - 2 ^ 46) + 8 * unat i"
    using t i by (simp add: entry_addr_def unat_plus_if')
  then show "2 ^ 64 - 2 ^ 46 \<le> unat (entry_addr t i)" "unat (entry_addr t i) + 8 \<le> 2 ^ 64"
    using t i by auto
qed

lemma stack_st:
  assumes "stack_low s" "phys_ok t" "i < 512"
  shows "pmm_stack (s\<lparr>mem := st64 (mem s) (entry_addr t i) e\<rparr>) = pmm_stack s"
proof -
  have "ld64 (st64 (mem s) (entry_addr t i) e) (g_free_pages s + 8 * of_nat j) =
      ld64 (mem s) (g_free_pages s + 8 * of_nat j)" if "j < unat (g_free_index s)" for j
  proof -
    have "unat (of_nat (8 * j) :: u64) = 8 * j"
      using that assms(1) unat_u64_less[of "g_free_pages s"] by (simp add: stack_low_def unat_of_nat del: of_nat_mult)
    then have "unat (g_free_pages s + 8 * of_nat j) = unat (g_free_pages s) + 8 * j"
      using that assms(1) by (simp add: stack_low_def unat_plus_if')
    then have "sep (g_free_pages s + 8 * of_nat j) 8 (entry_addr t i) 8"
      using entry_addr_high[OF assms(2,3)] that assms(1) by (intro sep_unat) (auto simp: stack_low_def)
    then show ?thesis by (simp add: ld_sep sep_sym)
  qed
  then show ?thesis by (simp add: pmm_stack_def)
qed

lemma tbl_append: "tbl m t (is @ js) = Option.bind (tbl m t is) (\<lambda>u. tbl m u js)"
  by (induction "is" arbitrary: t) (auto simp: Let_def)

lemma tbl_snoc: "tbl m t (is @ [i]) = (case tbl m t is of None \<Rightarrow> None
   | Some u \<Rightarrow> if is_table (pte m u i) then Some (pte m u i AND MASK_REMOVE_12L) else None)"
  by (simp add: tbl_append Let_def split: option.splits)

definition idx_ok :: "u64 list \<Rightarrow> bool" where
  "idx_ok is \<longleftrightarrow> list_all (\<lambda>i. i < 512) is"

lemma idx_ok_simps [simp]:
  "idx_ok []" "idx_ok (i # is) \<longleftrightarrow> i < 512 \<and> idx_ok is" "idx_ok (is @ js) \<longleftrightarrow> idx_ok is \<and> idx_ok js"
  by (auto simp: idx_ok_def)

definition pt_wf :: "memory \<Rightarrow> u64 \<Rightarrow> u64 set \<Rightarrow> bool" where
  "pt_wf m r F \<longleftrightarrow>
     (\<forall>is t. idx_ok is \<longrightarrow> length is \<le> 3 \<longrightarrow> tbl m r is = Some t \<longrightarrow> phys_ok t \<and> t \<notin> F) \<and>
     (\<forall>is js t. idx_ok is \<longrightarrow> idx_ok js \<longrightarrow> length is \<le> 3 \<longrightarrow> length js \<le> 3 \<longrightarrow>
        tbl m r is = Some t \<longrightarrow> tbl m r js = Some t \<longrightarrow> is = js) \<and>
     (\<forall>p\<in>F. phys_ok p \<and> (\<forall>i<512. pte m p i = 0))"

lemma pt_wfD:
  assumes "pt_wf m r F"
  shows "\<And>is t. idx_ok is \<Longrightarrow> length is \<le> 3 \<Longrightarrow> tbl m r is = Some t \<Longrightarrow> phys_ok t \<and> t \<notin> F"
    and "\<And>is js t. idx_ok is \<Longrightarrow> idx_ok js \<Longrightarrow> length is \<le> 3 \<Longrightarrow> length js \<le> 3 \<Longrightarrow>
        tbl m r is = Some t \<Longrightarrow> tbl m r js = Some t \<Longrightarrow> is = js"
    and "\<And>p. p \<in> F \<Longrightarrow> phys_ok p" and "\<And>p i. p \<in> F \<Longrightarrow> i < 512 \<Longrightarrow> pte m p i = 0"
  using assms unfolding pt_wf_def by blast+

lemma tbl_st_other:
  assumes wf: "pt_wf m r F" and t: "idx_ok is" "length is \<le> 3" "tbl m r is = Some t" "i < 512"
    and js: "idx_ok js" "length js \<le> 3" "\<nexists>rest. js = is @ i # rest"
  shows "tbl (st64 m (entry_addr t i) e) r js = tbl m r js"
  using js
proof (induction js rule: rev_induct)
  case (snoc j ks)
  have IH: "tbl (st64 m (entry_addr t i) e) r ks = tbl m r ks"
    using snoc.prems by (intro snoc.IH) auto
  show ?case
  proof (cases "tbl m r ks")
    case None
    then show ?thesis by (simp add: tbl_snoc IH)
  next
    case (Some u)
    have "phys_ok u" "phys_ok t" using pt_wfD(1)[OF wf] Some snoc.prems t by auto
    moreover have "\<not> (t = u \<and> i = j)"
      using pt_wfD(2)[OF wf t(1), of ks t] t snoc.prems Some by auto
    ultimately have "pte (st64 m (entry_addr t i) e) u j = pte m u j"
      using t(4) snoc.prems by (subst pte_st) (auto simp: phys_ok_def)
    then show ?thesis by (simp add: tbl_snoc IH Some)
  qed
qed simp

text \<open>A store that keeps the entry a table with the same address changes no table of the tree.\<close>

lemma tbl_st_same:
  assumes wf: "pt_wf m r F" and t: "idx_ok is" "length is \<le> 3" "tbl m r is = Some t" "i < 512"
    and e: "is_table e = is_table (pte m t i)" "e AND MASK_REMOVE_12L = pte m t i AND MASK_REMOVE_12L"
    and js: "idx_ok js" "length js \<le> 3"
  shows "tbl (st64 m (entry_addr t i) e) r js = tbl m r js"
  using js
proof (induction js rule: rev_induct)
  case (snoc j ks)
  have IH: "tbl (st64 m (entry_addr t i) e) r ks = tbl m r ks" using snoc by auto
  have "phys_ok u" if "tbl m r ks = Some u" for u using pt_wfD(1)[OF wf] that snoc.prems by auto
  moreover have "phys_ok t" using pt_wfD(1)[OF wf t(1-3)] by simp
  ultimately show ?case using snoc.prems t(4) e
    by (auto simp: tbl_snoc IH pte_st phys_ok_def split: option.splits)
qed simp

text \<open>Storing a fresh zero-filled page as a new table adds that one table and nothing below it.\<close>

lemma tbl_st_new:
  assumes wf: "pt_wf m r F" and t: "idx_ok is" "length is < 3" "tbl m r is = Some t" "i < 512"
    and new: "\<not> is_table (pte m t i)" "is_table e" "e AND MASK_REMOVE_12L \<in> F"
    and js: "idx_ok js" "length js \<le> 3"
  shows "tbl (st64 m (entry_addr t i) e) r js =
    (if js = is @ [i] then Some (e AND MASK_REMOVE_12L) else tbl m r js)"
proof (cases "\<exists>rest. js = is @ i # rest")
  case False
  then show ?thesis using tbl_st_other[OF wf t(1) _ t(3,4) js] t by auto
next
  case True
  then obtain rest where r: "js = (is @ [i]) @ rest" by auto
  let ?m = "st64 m (entry_addr t i) e" and ?p = "e AND MASK_REMOVE_12L"
  have pok: "phys_ok t" "t \<notin> F" using pt_wfD(1)[OF wf t(1) _ t(3)] t by auto
  have "tbl ?m r is = Some t" using tbl_st_other[OF wf t(1) _ t(3,4) t(1)] t by simp
  then have head: "tbl ?m r (is @ [i]) = Some ?p"
    using new(2) pok t(4) by (simp add: tbl_snoc pte_st phys_ok_def)
  have head': "tbl m r (is @ [i]) = None" using t(3) new(1) by (simp add: tbl_snoc)
  have none: "tbl ?m ?p (k # ks) = None" if "k < 512" for k ks
  proof -
    have "pte ?m ?p k = 0"
      using pt_wfD(3,4)[OF wf new(3)] that pok t(4) new(3) by (subst pte_st) (auto simp: phys_ok_def)
    then show ?thesis by (simp add: is_table_def)
  qed
  show ?thesis
  proof (cases rest)
    case Nil
    then show ?thesis using head r by simp
  next
    case (Cons k ks)
    then have "tbl ?m r js = None" "tbl m r js = None"
      unfolding r tbl_append[of _ _ "is @ [i]"] head head' using none[of k ks] js r by auto
    then show ?thesis using r Cons by simp
  qed
qed

text \<open>Well-formedness of the memory the kernel's own tables and free pages live in.\<close>

definition vm_wf :: "u64 \<Rightarrow> 'z pmm_scheme \<Rightarrow> bool" where
  "vm_wf r s \<longleftrightarrow> pt_wf (mem s) r (set (pmm_stack s)) \<and> distinct (pmm_stack s) \<and> stack_low s"

lemma mask12_push: "(0xfffffffff000::u64) = push_bit 12 (mask 36)" by (simp add: mask_eq_exp_minus_1)

lemma phys_bits:
  assumes "p mod 4096 = 0" "p < (0x400000000000::u64)" "bit p n"
  shows "12 \<le> n \<and> n < 46"
proof -
  have "take_bit 12 p = 0" using assms(1) by (simp add: take_bit_eq_mod)
  then have "\<not> n < 12" using assms(3) by (metis bit_take_bit_iff bit_0_eq bot_apply bot_bool_def)
  moreover have "take_bit 46 p = p" using assms(2) by (simp add: word_less_nat_alt word_unat_eq_iff unsigned_take_bit_eq take_bit_nat_eq_self)
  then have "n < 46" using assms(3) by (metis bit_take_bit_iff)
  ultimately show ?thesis by simp
qed

lemma and_mask_phys0:
  assumes "p mod 4096 = 0" "p < (0x400000000000::u64)"
  shows "p AND 0xfffffffff000 = p"
  unfolding mask12_push
proof (rule bit_word_eqI)
  fix n show "bit (p AND push_bit 12 (mask 36)) n = bit p n"
    using phys_bits[OF assms, of n] by (auto simp: bit_simps)
qed

lemma phys_81:
  assumes "p mod 4096 = 0" "p < (0x400000000000::u64)"
  shows "p AND 0x81 = 0"
proof -
  have e: "(0x81::u64) = take_bit 8 0x81" by simp
  have "n < 8" if "bit (0x81::u64) n" for n using that by (subst (asm) e) (simp only: bit_take_bit_iff)
  then have "\<not> (bit p n \<and> bit (0x81::u64) n)" for n using phys_bits[OF assms, of n] by force
  then show ?thesis by (intro bit_word_eqI) (simp add: bit_and_iff)
qed

lemma and_mask_phys: "phys_ok p \<Longrightarrow> p AND MASK_REMOVE_12L = p"
  using and_mask_phys0[of p] by (simp add: phys_ok_def MASK_REMOVE_12L_def)

lemma phys_or_present: "phys_ok p \<Longrightarrow> is_table (p OR 1) \<and> (p OR 1) AND MASK_REMOVE_12L = p"
  using phys_81[of p] and_mask_phys[of p]
  by (simp add: phys_ok_def is_table_def bit.conj_disj_distrib2 MASK_REMOVE_12L_def)

definition flags_ok :: "u64 \<Rightarrow> bool" where
  "flags_ok f \<longleftrightarrow> f AND MASK_REMOVE_12L = 0 \<and> f AND 0x80 = 0"

lemma flags_or:
  assumes "flags_ok f"
  shows "(e OR f) AND MASK_REMOVE_12L = e AND MASK_REMOVE_12L"
    and "is_table e \<Longrightarrow> is_table (e OR f)"
proof -
  show "(e OR f) AND MASK_REMOVE_12L = e AND MASK_REMOVE_12L"
    using assms by (simp add: flags_ok_def bit.conj_disj_distrib2)
  have "f AND 0x81 = (f AND 0x80) OR (f AND 1)" by (simp flip: bit.conj_disj_distrib)
  then have "f AND 0x81 = f AND 1" using assms by (simp add: flags_ok_def)
  then show "is_table (e OR f)" if "is_table e"
    using that by (simp add: is_table_def bit.conj_disj_distrib2)
qed

lemma present_small:
  "e AND 0x81 \<noteq> 0x81 \<Longrightarrow> is_table e \<longleftrightarrow> e AND 1 \<noteq> 0"
proof -
  assume "e AND 0x81 \<noteq> 0x81"
  moreover have "e AND 0x80 = (if bit e 7 then 0x80 else 0)"
  proof -
    have "e AND push_bit n 1 = (if bit e n then push_bit n 1 else 0)" for n
      by (intro bit_word_eqI) (auto simp: bit_simps)
    from this[of 7] show ?thesis by simp
  qed
  moreover have "e AND 1 = (if bit e 0 then 1 else 0)" by (simp add: and_one_eq bit_0 mod_2_eq_odd)
  moreover have "e AND 0x81 = (e AND 0x80) OR (e AND 1)" by (simp flip: bit.conj_disj_distrib)
  ultimately show ?thesis by (auto simp: is_table_def split: if_splits)
qed

lemma entry_st_at:
  assumes wf: "pt_wf m r F" and t: "idx_ok is" "length is \<le> 3" "tbl m r is = Some t" "i < 512"
    and js: "idx_ok js" "length js \<le> 3" "j < 512"
    and tb: "tbl (st64 m (entry_addr t i) e) r js = tbl m r js"
  shows "entry (st64 m (entry_addr t i) e) r js j = (if js = is \<and> j = i then e else entry m r js j)"
proof (cases "tbl m r js")
  case None
  then show ?thesis using tb t by (auto simp: entry_def)
next
  case (Some u)
  have "phys_ok u" "phys_ok t" using pt_wfD(1)[OF wf] Some js t by auto
  moreover have "t = u \<longleftrightarrow> js = is" using pt_wfD(2)[OF wf t(1) js(1)] t js Some by auto
  ultimately show ?thesis using tb t js Some by (auto simp: entry_def pte_st phys_ok_def)
qed

lemma pt_wf_st_same:
  assumes wf: "pt_wf m r F" and t: "idx_ok is" "length is \<le> 3" "tbl m r is = Some t" "i < 512"
    and tb: "\<And>js. idx_ok js \<Longrightarrow> length js \<le> 3 \<Longrightarrow> tbl (st64 m (entry_addr t i) e) r js = tbl m r js"
  shows "pt_wf (st64 m (entry_addr t i) e) r F"
proof -
  have "phys_ok t" "t \<notin> F" using pt_wfD(1)[OF wf t(1-3)] by auto
  then have "pte (st64 m (entry_addr t i) e) p j = 0" if "p \<in> F" "j < 512" for p j
    using pt_wfD(3,4)[OF wf that(1)] that t(4) by (subst pte_st) (auto simp: phys_ok_def)
  then show ?thesis using pt_wfD[OF wf] unfolding pt_wf_def by (auto simp: tb)
qed

lemma pt_wf_st_new:
  assumes wf: "pt_wf m r F" and t: "idx_ok is" "length is < 3" "tbl m r is = Some t" "i < 512"
    and new: "\<not> is_table (pte m t i)" "is_table e" "e AND MASK_REMOVE_12L \<in> F"
  shows "pt_wf (st64 m (entry_addr t i) e) r (F - {e AND MASK_REMOVE_12L})"
proof -
  let ?p = "e AND MASK_REMOVE_12L" and ?m = "st64 m (entry_addr t i) e"
  note tb = tbl_st_new[OF wf t new]
  have tok: "phys_ok t" "t \<notin> F" using pt_wfD(1)[OF wf t(1) _ t(3)] t by auto
  then have "pte ?m p j = 0" if "p \<in> F" "j < 512" for p j
    using pt_wfD(3,4)[OF wf that(1)] that t(4) by (subst pte_st) (auto simp: phys_ok_def)
  moreover have "phys_ok u \<and> u \<notin> F - {?p}" if "idx_ok js" "length js \<le> 3" "tbl ?m r js = Some u" for js u
    using that tb[of js] pt_wfD(1)[OF wf, of js u] pt_wfD(3)[OF wf new(3)] by (auto split: if_splits)
  moreover have "js = ks" if "idx_ok js" "idx_ok ks" "length js \<le> 3" "length ks \<le> 3"
    "tbl ?m r js = Some u" "tbl ?m r ks = Some u" for js ks u
    using that tb[of js] tb[of ks] pt_wfD(1)[OF wf, of js u] pt_wfD(1)[OF wf, of ks u]
      pt_wfD(2)[OF wf, of js ks u] new(3) by (auto split: if_splits)
  ultimately show ?thesis using pt_wfD(3)[OF wf] unfolding pt_wf_def by auto
qed

lemma pt_level_spec:
  assumes wf: "vm_wf r s" and t: "idx_ok (is @ [i])" "length is < 3" "tbl (mem s) r is = Some t"
    and small: "pte (mem s) t i AND 0x81 \<noteq> 0x81" and f: "flags_ok f"
    and avail: "is_table (pte (mem s) t i) \<or> pmm_stack s \<noteq> []" and l: "pt_level t i f s = (t', s')"
  shows "vm_wf r s'" and "tbl (mem s') r (is @ [i]) = Some t'"
    and "\<And>js j. idx_ok (js @ [j]) \<Longrightarrow> length js \<le> 3 \<Longrightarrow> (js, j) \<noteq> (is, i) \<Longrightarrow>
        entry (mem s') r js j = entry (mem s) r js j"
    and "length (pmm_stack s) \<le> length (pmm_stack s') + 1"
    and "is_table (pte (mem s) t i) \<Longrightarrow> pmm_stack s' = pmm_stack s"
    and "g_free_pages s' = g_free_pages s" and "g_free_index s' \<le> g_free_index s"
proof -
  let ?a = "entry_addr t i" and ?m = "mem s" and ?F = "set (pmm_stack s)"
  have w: "pt_wf ?m r ?F" "distinct (pmm_stack s)" "stack_low s" using wf by (auto simp: vm_wf_def)
  have ix: "idx_ok is" "i < 512" "length is \<le> 3" using t by auto
  have tok: "phys_ok t" "t \<notin> ?F" using pt_wfD(1)[OF w(1) ix(1,3) t(3)] by auto
  have concl: "vm_wf r s' \<and> tbl (mem s') r (is @ [i]) = Some t' \<and>
     (\<forall>js j. idx_ok (js @ [j]) \<longrightarrow> length js \<le> 3 \<longrightarrow> (js, j) \<noteq> (is, i) \<longrightarrow>
        entry (mem s') r js j = entry (mem s) r js j) \<and>
     length (pmm_stack s) \<le> length (pmm_stack s') + 1 \<and>
     (is_table (pte (mem s) t i) \<longrightarrow> pmm_stack s' = pmm_stack s) \<and>
     g_free_pages s' = g_free_pages s \<and> g_free_index s' \<le> g_free_index s"
  proof (cases "is_table (pte ?m t i)")
    case True
    let ?e = "pte ?m t i OR f"
    have "pte ?m t i AND 1 \<noteq> 0" using True present_small[OF small] by simp
    then have s': "s' = s\<lparr>mem := st64 ?m ?a ?e\<rparr>" "t' = ?e AND MASK_REMOVE_12L"
      using l by (auto simp: pt_level_def Let_def pte_def PG_PRESENT_def)
    have tb: "tbl (mem s') r js = tbl ?m r js" if "idx_ok js" "length js \<le> 3" for js
      unfolding s' using tbl_st_same[OF w(1) ix(1,3) t(3) ix(2) _ _ that, of ?e] True flags_or[OF f] by simp
    have "pmm_stack s' = pmm_stack s" using stack_st[OF w(3) tok(1) ix(2)] by (simp add: s')
    moreover have "pt_wf (mem s') r ?F"
      using pt_wf_st_same[OF w(1) ix(1,3) t(3) ix(2), of ?e] tb by (simp add: s')
    moreover have "tbl (mem s') r (is @ [i]) = Some t'"
      using tb[of "is @ [i]"] t True flags_or(1)[OF f] by (simp add: tbl_snoc s'(2))
    moreover have "entry (mem s') r js j = entry ?m r js j"
      if "idx_ok (js @ [j])" "length js \<le> 3" "(js, j) \<noteq> (is, i)" for js j
      using entry_st_at[OF w(1) ix(1,3) t(3) ix(2), of js j ?e] tb[of js] that by (auto simp: s')
    ultimately show ?thesis using w(2,3) by (auto simp: vm_wf_def s' stack_low_def)
  next
    case False
    have avail: "pmm_stack s \<noteq> []" using avail False by simp
    let ?p = "last (pmm_stack s)" and ?e = "last (pmm_stack s) OR 1 OR f"
    let ?s = "s\<lparr>g_free_index := g_free_index s - 1\<rparr>"
    have p: "?p \<in> ?F" using avail by simp
    then have pok: "phys_ok ?p" using pt_wfD(3)[OF w(1)] by simp
    have np: "pte ?m t i AND 1 = 0" using False present_small[OF small] by simp
    have e: "is_table ?e" "?e AND MASK_REMOVE_12L = ?p"
      using phys_or_present[OF pok] flags_or[OF f, of "?p OR 1"] by (simp_all add: or.assoc)
    have s': "s' = ?s\<lparr>mem := st64 ?m ?a ?e\<rparr>" "t' = ?p"
      using l np pmm_stack_alloc(1)[OF avail] e(2)
      by (auto simp: pt_level_def Let_def pte_def PG_PRESENT_def or.assoc)
    note tb = tbl_st_new[OF w(1) ix(1) t(2,3) ix(2) False e(1), unfolded e(2), OF p]
    have sl: "stack_low ?s"
      using w(3) avail by (simp add: stack_low_def pmm_stack_empty_iff unat_minus_one)
    have stk: "pmm_stack s' = butlast (pmm_stack s)"
      using stack_st[OF sl tok(1) ix(2)] pmm_stack_alloc[OF avail] by (simp add: s'(1))
    have "set (butlast (pmm_stack s)) = ?F - {?p}"
      using w(2) avail by (metis append_butlast_last_id distinct_append distinct.simps
          Diff_insert_absorb Un_insert_right list.simps(15) set_append set_empty sup_bot_right
          disjoint_insert(1) not_distinct_conv_prefix)
    then have "pt_wf (mem s') r (set (pmm_stack s'))"
      using pt_wf_st_new[OF w(1) ix(1) t(2,3) ix(2) False e(1), unfolded e(2), OF p]
      unfolding stk by (simp add: s'(1))
    moreover have "distinct (pmm_stack s')" using w(2) by (simp add: stk distinct_butlast)
    moreover have "stack_low s'" using sl by (simp add: s'(1) stack_low_def)
    moreover have "tbl (mem s') r (is @ [i]) = Some t'"
      using tb[of "is @ [i]"] t by (simp add: s')
    moreover have "entry (mem s') r js j = entry ?m r js j"
      if that: "idx_ok (js @ [j])" "length js \<le> 3" "(js, j) \<noteq> (is, i)" for js j
    proof (cases "js = is @ [i]")
      case True
      have "pte (mem s') ?p j = 0"
        using pt_wfD(4)[OF w(1) p, of j] that tok pok p ix(2)
        by (simp add: s') (subst pte_st, auto simp: phys_ok_def)
      moreover have "tbl ?m r js = None" using True False t(3) by (simp add: tbl_snoc)
      ultimately show ?thesis using True tb[of js] that by (simp add: entry_def s')
    next
      case False
      then show ?thesis
        using entry_st_at[OF w(1) ix(1,3) t(3) ix(2), of js j ?e] tb[of js] that by (auto simp: s')
    qed
    moreover have "g_free_index s' \<le> g_free_index s"
      using avail by (simp add: s'(1) pmm_stack_empty_iff word_le_nat_alt unat_minus_one)
    moreover have "length (pmm_stack s) \<le> length (pmm_stack s') + 1"
      unfolding stk by (simp del: length_pmm_stack)
    moreover have "g_free_pages s' = g_free_pages s" by (simp add: s'(1))
    ultimately show ?thesis using False unfolding vm_wf_def by blast
  qed
  show "vm_wf r s'" "tbl (mem s') r (is @ [i]) = Some t'"
    "\<And>js j. idx_ok (js @ [j]) \<Longrightarrow> length js \<le> 3 \<Longrightarrow> (js, j) \<noteq> (is, i) \<Longrightarrow>
        entry (mem s') r js j = entry (mem s) r js j"
    "length (pmm_stack s) \<le> length (pmm_stack s') + 1"
    "is_table (pte (mem s) t i) \<Longrightarrow> pmm_stack s' = pmm_stack s"
    "g_free_pages s' = g_free_pages s" "g_free_index s' \<le> g_free_index s"
    using concl by blast+
qed

lemma vidx_bits: "vidx v l = take_bit 9 (drop_bit (12 + 9 * l) v)"
  by (simp add: vidx_def take_bit_eq_mod drop_bit_eq_div)

lemma vidx_less [simp]: "vidx v l < 512"
  by (simp add: vidx_def word_less_nat_alt unat_mod)

lemma mask16_take: "v AND MASK_REMOVE_16U = take_bit 48 v"
  by (simp add: MASK_REMOVE_16U_def take_bit_eq_mask mask_eq_exp_minus_1)

lemma div_drop:
  "x div 0x8000000000 = drop_bit 39 (x::u64)" "x div 0x40000000 = drop_bit 30 x"
  "x div 0x200000 = drop_bit 21 x" "x div 0x1000 = drop_bit 12 x"
  by (simp_all add: drop_bit_eq_div)

lemma mod_take:
  "x mod 0x8000000000 = take_bit 39 (x::u64)" "x mod 0x40000000 = take_bit 30 x"
  "x mod 0x200000 = take_bit 21 x" "x mod 0x1000 = take_bit 12 x"
  by (simp_all add: take_bit_eq_mod)

lemma vidx_code:
  "take_bit 48 v div 0x8000000000 = vidx v 3"
  "take_bit 48 v mod 0x8000000000 div 0x40000000 = vidx v 2"
  "take_bit 48 v mod 0x8000000000 mod 0x40000000 div 0x200000 = vidx v 1"
  "take_bit 48 v mod 0x8000000000 mod 0x40000000 mod 0x200000 div 0x1000 = vidx v 0"
  unfolding div_drop mod_take vidx_bits by (intro bit_word_eqI; auto simp: bit_simps add.commute)+

definition same_page :: "u64 \<Rightarrow> u64 \<Rightarrow> bool" where
  "same_page v w \<longleftrightarrow> (v AND MASK_REMOVE_16U) div 0x1000 = (w AND MASK_REMOVE_16U) div 0x1000"

lemma same_page_vidx: "same_page v w \<longleftrightarrow> (\<forall>l<4. vidx v l = vidx w l)"
proof
  assume "same_page v w"
  then have "take_bit 9 (drop_bit (9 * l) (drop_bit 12 (take_bit 48 v))) =
      take_bit 9 (drop_bit (9 * l) (drop_bit 12 (take_bit 48 w)))" for l
    by (simp add: same_page_def mask16_take div_drop)
  moreover have "take_bit 9 (drop_bit (9 * l) (drop_bit 12 (take_bit 48 x))) = vidx x l" if "l < 4" for x l
    unfolding vidx_bits using that by (intro bit_word_eqI) (auto simp: bit_simps ac_simps)
  ultimately show "\<forall>l<4. vidx v l = vidx w l" by metis
next
  assume a: "\<forall>l<4. vidx v l = vidx w l"
  have "bit v (12 + n) = bit w (12 + n)" if "n < 36" for n
  proof -
    have "bit (vidx v (n div 9)) (n mod 9) = bit (vidx w (n div 9)) (n mod 9)"
      using a that by (simp add: less_mult_imp_div_less)
    then show ?thesis by (simp add: vidx_bits bit_simps add.assoc)
  qed
  then show "same_page v w" unfolding same_page_def mask16_take div_drop
    by (intro bit_word_eqI) (auto simp: bit_simps)
qed

text \<open>No entry on the path of \<open>v\<close> maps a large page.\<close>

definition no_huge :: "memory \<Rightarrow> u64 \<Rightarrow> u64 \<Rightarrow> bool" where
  "no_huge m r v \<longleftrightarrow> entry m r [] (vidx v 3) AND 0x81 \<noteq> 0x81 \<and>
     entry m r [vidx v 3] (vidx v 2) AND 0x81 \<noteq> 0x81 \<and>
     entry m r [vidx v 3, vidx v 2] (vidx v 1) AND 0x81 \<noteq> 0x81"

lemma entry_Some: "tbl m r is = Some t \<Longrightarrow> entry m r is i = pte m t i"
  by (simp add: entry_def)

lemma tbl_entry: "tbl m r (is @ [i]) = Some t \<Longrightarrow> is_table (entry m r is i)"
  by (auto simp: tbl_snoc entry_def split: option.splits if_splits)

lemma tbl_no_huge:
  assumes t: "tbl m r [vidx v 3, vidx v 2, vidx v 1] = Some pt"
  shows "no_huge m r v"
  using t by (auto simp: no_huge_def entry_def is_table_def Let_def split: if_splits)

text \<open>The three levels of the descent, each with what \<open>pt_level\<close> needs and establishes.\<close>

definition level_ok :: "u64 \<Rightarrow> u64 list \<Rightarrow> u64 \<Rightarrow> u64 \<Rightarrow> 'z pmm_scheme \<Rightarrow> u64 \<Rightarrow> 'z pmm_scheme \<Rightarrow> bool" where
  "level_ok r is i f s t' s' \<longleftrightarrow> (\<exists>t. vm_wf r s \<and> idx_ok (is @ [i]) \<and> length is < 3 \<and> tbl (mem s) r is = Some t \<and>
     pte (mem s) t i AND 0x81 \<noteq> 0x81 \<and> flags_ok f \<and> (is_table (pte (mem s) t i) \<or> pmm_stack s \<noteq> []) \<and>
     pt_level t i f s = (t', s'))"

lemma level_spec:
  assumes "level_ok r is i f s t' s'"
  shows "vm_wf r s'" "tbl (mem s') r (is @ [i]) = Some t'"
    "\<And>js j. idx_ok (js @ [j]) \<Longrightarrow> length js \<le> 3 \<Longrightarrow> (js, j) \<noteq> (is, i) \<Longrightarrow>
        entry (mem s') r js j = entry (mem s) r js j"
    "length (pmm_stack s) \<le> length (pmm_stack s') + 1" "is_table (entry (mem s) r is i) \<Longrightarrow> pmm_stack s' = pmm_stack s"
    "g_free_pages s' = g_free_pages s" "g_free_index s' \<le> g_free_index s"
proof -
  obtain t where t: "vm_wf r s" "idx_ok (is @ [i])" "length is < 3" "tbl (mem s) r is = Some t"
     "pte (mem s) t i AND 0x81 \<noteq> 0x81" "flags_ok f" "is_table (pte (mem s) t i) \<or> pmm_stack s \<noteq> []" "pt_level t i f s = (t', s')"
    using assms by (auto simp: level_ok_def)
  note l = pt_level_spec[OF t]
  show "vm_wf r s'" "tbl (mem s') r (is @ [i]) = Some t'" "length (pmm_stack s) \<le> length (pmm_stack s') + 1"
    "g_free_pages s' = g_free_pages s" "g_free_index s' \<le> g_free_index s" by (fact l)+
  show "entry (mem s') r js j = entry (mem s) r js j" if "idx_ok (js @ [j])" "length js \<le> 3" "(js, j) \<noteq> (is, i)" for js j
    by (rule l(3)[OF that])
  show "is_table (entry (mem s) r is i) \<Longrightarrow> pmm_stack s' = pmm_stack s" using l(5) by (simp add: entry_Some[OF t(4)])
qed

lemma level_okI:
  assumes "vm_wf r s" "idx_ok (is @ [i])" "length is < 3" "tbl (mem s) r is = Some t" "entry (mem s) r is i AND 0x81 \<noteq> 0x81"
    "flags_ok f" "is_table (entry (mem s) r is i) \<or> 1 \<le> length (pmm_stack s)" "pt_level t i f s = (t', s')"
  shows "level_ok r is i f s t' s'"
  unfolding level_ok_def using assms by (intro exI[of _ t]) (auto simp: entry_Some simp del: length_pmm_stack)

lemma get_page_table_entry_levels:
  assumes wf: "vm_wf r s" and nh: "no_huge (mem s) r v" and f: "flags_ok f"
    and avail: "tbl (mem s) r [vidx v 3, vidx v 2, vidx v 1] \<noteq> None \<or> 3 \<le> length (pmm_stack s)"
    and g: "get_page_table_entry r (v AND MASK_REMOVE_16U) f s = (a, s')"
  obtains t1 s1 t2 s2 t3 where "level_ok r [] (vidx v 3) f s t1 s1" "level_ok r [vidx v 3] (vidx v 2) f s1 t2 s2"
    "level_ok r [vidx v 3, vidx v 2] (vidx v 1) f s2 t3 s'" "a = entry_addr t3 (vidx v 0)"
proof -
  let ?i4 = "vidx v 3" and ?i3 = "vidx v 2" and ?i2 = "vidx v 1"
  obtain t1 s1 where l1: "pt_level r ?i4 f s = (t1, s1)" by fastforce
  obtain t2 s2 where l2: "pt_level t1 ?i3 f s1 = (t2, s2)" by fastforce
  obtain t3 s3 where l3: "pt_level t2 ?i2 f s2 = (t3, s3)" by fastforce
  have a: "a = entry_addr t3 (vidx v 0)" "s' = s3"
    using g l1 l2 l3 unfolding get_page_table_entry_def mask16_take by (auto simp: Let_def vidx_code)
  have small: "entry (mem s) r [] ?i4 AND 0x81 \<noteq> 0x81" "entry (mem s) r [?i4] ?i3 AND 0x81 \<noteq> 0x81"
    "entry (mem s) r [?i4, ?i3] ?i2 AND 0x81 \<noteq> 0x81" using nh by (auto simp: no_huge_def)
  have ready: "is_table (entry (mem s) r [] ?i4) \<and> is_table (entry (mem s) r [?i4] ?i3) \<and>
    is_table (entry (mem s) r [?i4, ?i3] ?i2) \<or> 3 \<le> length (pmm_stack s)"
    using avail by (auto simp: entry_def Let_def split: if_splits)
  have p1: "level_ok r [] ?i4 f s t1 s1" by (rule level_okI[OF wf _ _ _ small(1) f _ l1]) (use ready in auto)
  note q1 = level_spec[OF p1]
  have e1: "entry (mem s1) r [?i4] ?i3 = entry (mem s) r [?i4] ?i3" "entry (mem s1) r [?i4, ?i3] ?i2 = entry (mem s) r [?i4, ?i3] ?i2"
    using q1(3)[of "[?i4]" ?i3] q1(3)[of "[?i4, ?i3]" ?i2] by simp_all
  have p2: "level_ok r [?i4] ?i3 f s1 t2 s2"
    by (rule level_okI[OF q1(1) _ _ _ _ f _ l2]) (use ready q1(2,4) e1 small in auto)
  note q2 = level_spec[OF p2]
  have p3: "level_ok r [?i4, ?i3] ?i2 f s2 t3 s3"
    by (rule level_okI[OF q2(1) _ _ _ _ f _ l3]) (use ready q1(4) q2(2,4) q2(3)[of "[?i4, ?i3]" ?i2] e1 small in auto)
  show thesis using that[OF p1 p2] p3 a by simp
qed

lemma get_page_table_entry_spec:
  assumes wf: "vm_wf r s" and nh: "no_huge (mem s) r v" and f: "flags_ok f"
    and avail: "tbl (mem s) r [vidx v 3, vidx v 2, vidx v 1] \<noteq> None \<or> 3 \<le> length (pmm_stack s)"
    and g: "get_page_table_entry r (v AND MASK_REMOVE_16U) f s = (a, s')"
  obtains pt where "vm_wf r s'" "tbl (mem s') r [vidx v 3, vidx v 2, vidx v 1] = Some pt"
    "a = entry_addr pt (vidx v 0)" "no_huge (mem s') r v"
    "length (pmm_stack s) \<le> length (pmm_stack s') + 3"
    "tbl (mem s) r [vidx v 3, vidx v 2, vidx v 1] \<noteq> None \<Longrightarrow> pmm_stack s' = pmm_stack s"
    "g_free_pages s' = g_free_pages s" "g_free_index s' \<le> g_free_index s"
    "\<And>js j. idx_ok (js @ [j]) \<Longrightarrow> length js \<le> 3 \<Longrightarrow>
       (js, j) \<notin> {([], vidx v 3), ([vidx v 3], vidx v 2), ([vidx v 3, vidx v 2], vidx v 1)} \<Longrightarrow>
       entry (mem s') r js j = entry (mem s) r js j"
proof -
  let ?i4 = "vidx v 3" and ?i3 = "vidx v 2" and ?i2 = "vidx v 1"
  from get_page_table_entry_levels[OF assms] obtain t1 s1 t2 s2 t3 where
    l: "level_ok r [] ?i4 f s t1 s1" "level_ok r [?i4] ?i3 f s1 t2 s2" "level_ok r [?i4, ?i3] ?i2 f s2 t3 s'"
      "a = entry_addr t3 (vidx v 0)" .
  note q1 = level_spec[OF l(1)] and q2 = level_spec[OF l(2)] and q3 = level_spec[OF l(3)]
  have t: "tbl (mem s') r [?i4, ?i3, ?i2] = Some t3" using q3(2) by simp
  have ent: "entry (mem s') r js j = entry (mem s) r js j" if "idx_ok (js @ [j])" "length js \<le> 3"
    "(js, j) \<notin> {([], ?i4), ([?i4], ?i3), ([?i4, ?i3], ?i2)}" for js j
    using q1(3)[OF that(1,2)] q2(3)[OF that(1,2)] q3(3)[OF that(1,2)] that(3) by simp
  have "pmm_stack s' = pmm_stack s" if h: "tbl (mem s) r [?i4, ?i3, ?i2] \<noteq> None"
  proof -
    have "is_table (entry (mem s) r [] ?i4)" "is_table (entry (mem s) r [?i4] ?i3)" "is_table (entry (mem s) r [?i4, ?i3] ?i2)"
      using h by (auto simp: entry_def Let_def split: if_splits)
    then show ?thesis using q1(3)[of "[?i4]" ?i3] q1(3)[of "[?i4, ?i3]" ?i2] q2(3)[of "[?i4, ?i3]" ?i2] q1(5) q2(5) q3(5) by simp
  qed
  then show thesis
    using that[OF q3(1) t l(4) tbl_no_huge[OF t] _ _ _ _ ent] q1(4,6,7) q2(4,6,7) q3(4,6,7) by force
qed


text \<open>How the translation changes when only the path of \<open>v\<close> is written.\<close>

lemma page_walk_update:
  assumes nh: "no_huge m r v" "no_huge m' r v"
    and same: "\<And>js j. idx_ok (js @ [j]) \<Longrightarrow> length js \<le> 3 \<Longrightarrow>
       (js, j) \<notin> {([], vidx v 3), ([vidx v 3], vidx v 2), ([vidx v 3, vidx v 2], vidx v 1)} \<Longrightarrow>
       entry m' r js j = (if js = [vidx v 3, vidx v 2, vidx v 1] \<and> j = vidx v 0 then e else entry m r js j)"
  shows "page_walk m' r w =
    (if same_page v w then (if e AND 1 = 1 then Some ((e AND MASK_REMOVE_12L) + w mod 4096) else None)
     else page_walk m r w)"
proof -
  let ?w4 = "vidx w 3" and ?w3 = "vidx w 2" and ?w2 = "vidx w 1" and ?w1 = "vidx w 0"
  have sp: "same_page v w \<longleftrightarrow> vidx v 3 = ?w4 \<and> vidx v 2 = ?w3 \<and> vidx v 1 = ?w2 \<and> vidx v 0 = ?w1"
    unfolding same_page_vidx by (auto simp: numeral_eq_Suc less_Suc_eq)
  have e3: "entry m' r [?w4] ?w3 = entry m r [?w4] ?w3 \<or> \<not> (entry m' r [?w4] ?w3 AND 0x81 = 0x81) \<and>
      \<not> (entry m r [?w4] ?w3 AND 0x81 = 0x81)"
    using same[of "[?w4]" ?w3] nh
    by (cases "?w4 = vidx v 3 \<and> ?w3 = vidx v 2") (auto simp: no_huge_def)
  have e2: "entry m' r [?w4, ?w3] ?w2 = entry m r [?w4, ?w3] ?w2 \<or> \<not> (entry m' r [?w4, ?w3] ?w2 AND 0x81 = 0x81) \<and>
      \<not> (entry m r [?w4, ?w3] ?w2 AND 0x81 = 0x81)"
    using same[of "[?w4, ?w3]" ?w2] nh
    by (cases "?w4 = vidx v 3 \<and> ?w3 = vidx v 2 \<and> ?w2 = vidx v 1") (auto simp: no_huge_def)
  have e1: "entry m' r [?w4, ?w3, ?w2] ?w1 = (if same_page v w then e else entry m r [?w4, ?w3, ?w2] ?w1)"
    using same[of "[?w4, ?w3, ?w2]" ?w1] by (auto simp: sp)
  have "entry m' r [?w4] ?w3 AND 0x81 \<noteq> 0x81" "entry m' r [?w4, ?w3] ?w2 AND 0x81 \<noteq> 0x81" if "same_page v w"
    using nh(2) that by (auto simp: no_huge_def sp)
  note hit = this
  show ?thesis
  proof (cases "same_page v w")
    case True
    then show ?thesis using hit e1 by (simp add: page_walk_def Let_def)
  next
    case False
    then show ?thesis using e3 e2 unfolding page_walk_def Let_def e1 by (elim disjE) simp_all
  qed
qed

lemma leaf_store:
  assumes wf: "pt_wf m r F" and t: "tbl m r [vidx v 3, vidx v 2, vidx v 1] = Some pt"
  fixes e :: u64
  defines "m' \<equiv> st64 m (entry_addr pt (vidx v 0)) e"
  shows "pt_wf m' r F" "\<And>js. idx_ok js \<Longrightarrow> length js \<le> 3 \<Longrightarrow> tbl m' r js = tbl m r js"
    "\<And>js j. idx_ok (js @ [j]) \<Longrightarrow> length js \<le> 3 \<Longrightarrow> entry m' r js j =
       (if js = [vidx v 3, vidx v 2, vidx v 1] \<and> j = vidx v 0 then e else entry m r js j)"
proof -
  show tb: "tbl m' r js = tbl m r js" if "idx_ok js" "length js \<le> 3" for js
    unfolding m'_def by (rule tbl_st_other[OF wf _ _ t vidx_less that]) (use that in auto)
  show "pt_wf m' r F" unfolding m'_def
    using pt_wf_st_same[OF wf _ _ t vidx_less] tb by (simp add: m'_def)
  show "entry m' r js j = (if js = [vidx v 3, vidx v 2, vidx v 1] \<and> j = vidx v 0 then e else entry m r js j)"
    if "idx_ok (js @ [j])" "length js \<le> 3" for js j
    using entry_st_at[OF wf _ _ t vidx_less, of js j] tb[of js] that by (simp add: m'_def)
qed

definition leaf_entry :: "u64 \<Rightarrow> page_flags \<Rightarrow> u64" where
  "leaf_entry paddr flags = (paddr AND (MASK_REMOVE_12L AND NOT PG_NX)) OR table_flags flags OR
     (if pf_exec flags then 0 else PG_NX)"

lemma flags_table_flags: "flags_ok (table_flags fl)"
  by (auto simp: flags_ok_def table_flags_def PG_PRESENT_def PG_RW_def PG_USER_def PG_GLOBAL_def
      PG_CUSTOM_USABLE_def MASK_REMOVE_12L_def)

lemma leaf_entry_bits:
  "leaf_entry p fl AND MASK_REMOVE_12L = p AND MASK_REMOVE_12L"
  "leaf_entry p fl AND 1 = 1 \<longleftrightarrow> pf_present fl"
proof -
  have "table_flags fl AND MASK_REMOVE_12L = 0" "PG_NX AND MASK_REMOVE_12L = 0" 
    by (auto simp: table_flags_def PG_PRESENT_def PG_RW_def PG_USER_def PG_GLOBAL_def
      PG_CUSTOM_USABLE_def MASK_REMOVE_12L_def PG_NX_def)
  then show "leaf_entry p fl AND MASK_REMOVE_12L = p AND MASK_REMOVE_12L"
    by (simp add: leaf_entry_def bit.conj_disj_distrib2 and.assoc) (simp add: MASK_REMOVE_12L_def PG_NX_def)
  show "leaf_entry p fl AND 1 = 1 \<longleftrightarrow> pf_present fl" 
    by (auto simp: leaf_entry_def table_flags_def PG_PRESENT_def PG_RW_def PG_USER_def PG_GLOBAL_def
      PG_CUSTOM_USABLE_def MASK_REMOVE_12L_def PG_NX_def bit.conj_disj_distrib2 and.assoc)
qed


text \<open>The page-table entry the walk of \<open>v\<close> ends at, and whether the tables above it exist.\<close>

definition page_entry :: "memory \<Rightarrow> u64 \<Rightarrow> u64 \<Rightarrow> u64" where
  "page_entry m r v = entry m r [vidx v 3, vidx v 2, vidx v 1] (vidx v 0)"

definition has_tables :: "memory \<Rightarrow> u64 \<Rightarrow> u64 \<Rightarrow> bool" where
  "has_tables m r v \<longleftrightarrow> tbl m r [vidx v 3, vidx v 2, vidx v 1] \<noteq> None"

lemma set_page_spec:
  assumes "vm_wf r s" "no_huge (mem s) r v" "has_tables (mem s) r v \<or> 3 \<le> length (pmm_stack s)"
  fixes p :: u64 and fl :: page_flags
  defines "s' \<equiv> set_page r v p fl s"
  shows "vm_wf r s'" "has_tables (mem s') r v" "no_huge (mem s') r v"
    "page_entry (mem s') r v = leaf_entry p fl"
    "page_walk (mem s') r w = (if same_page v w
       then (if pf_present fl then Some ((p AND MASK_REMOVE_12L) + w mod 4096) else None)
       else page_walk (mem s) r w)"
    "has_tables (mem s) r v \<Longrightarrow> pmm_stack s' = pmm_stack s"
    "g_free_pages s' = g_free_pages s" "g_free_index s' \<le> g_free_index s"
proof -
  obtain a s1 where g: "get_page_table_entry r (v AND MASK_REMOVE_16U) (table_flags fl) s = (a, s1)" by fastforce
  from get_page_table_entry_spec[OF assms(1,2) flags_table_flags assms(3)[unfolded has_tables_def] g]
  obtain pt where pt: "vm_wf r s1" "tbl (mem s1) r [vidx v 3, vidx v 2, vidx v 1] = Some pt"
    "a = entry_addr pt (vidx v 0)" "has_tables (mem s) r v \<Longrightarrow> pmm_stack s1 = pmm_stack s"
    "g_free_pages s1 = g_free_pages s" "g_free_index s1 \<le> g_free_index s"
    and ent: "\<And>js j. idx_ok (js @ [j]) \<Longrightarrow> length js \<le> 3 \<Longrightarrow>
       (js, j) \<notin> {([], vidx v 3), ([vidx v 3], vidx v 2), ([vidx v 3, vidx v 2], vidx v 1)} \<Longrightarrow>
       entry (mem s1) r js j = entry (mem s) r js j" unfolding has_tables_def by metis
  have w: "pt_wf (mem s1) r (set (pmm_stack s1))" "stack_low s1" using pt(1) by (auto simp: vm_wf_def)
  let ?m = "st64 (mem s1) a (leaf_entry p fl)"
  have res: "s' = s1\<lparr>mem := ?m\<rparr>" using g by (simp add: s'_def set_page_def leaf_entry_def Let_def)
  note lf = leaf_store[OF w(1) pt(2), where e = "leaf_entry p fl", folded pt(3)]
  have t: "tbl ?m r [vidx v 3, vidx v 2, vidx v 1] = Some pt"
    using lf(2)[of "[vidx v 3, vidx v 2, vidx v 1]"] pt(2) by simp
  show "has_tables (mem s') r v" "no_huge (mem s') r v" using t tbl_no_huge[OF t]
    by (simp_all add: res has_tables_def)
  then show "page_walk (mem s') r w = (if same_page v w
       then (if pf_present fl then Some ((p AND MASK_REMOVE_12L) + w mod 4096) else None)
       else page_walk (mem s) r w)"
    using page_walk_update[OF assms(2), of ?m "leaf_entry p fl" w] lf(3) ent
    by (simp add: leaf_entry_bits res)
  show "page_entry (mem s') r v = leaf_entry p fl"
    using lf(3)[of "[vidx v 3, vidx v 2, vidx v 1]" "vidx v 0"] by (simp add: page_entry_def res)
  have stk: "pmm_stack s' = pmm_stack s1"
    using stack_st[OF w(2) _ vidx_less] pt_wfD(1)[OF w(1) _ _ pt(2)] by (simp add: pt(3) res)
  then show "vm_wf r s'" using lf(1) pt(1) by (simp add: vm_wf_def stack_low_def res)
  show "pmm_stack s' = pmm_stack s" if "has_tables (mem s) r v" using pt(4)[OF that] stk by simp
  show "g_free_pages s' = g_free_pages s" "g_free_index s' \<le> g_free_index s" using pt(5,6) by (simp_all add: res)
qed

lemma flags_ok_0: "flags_ok 0" by (simp add: flags_ok_def)

lemma pte_low_store:
  assumes "unat a + 8 \<le> 2 ^ 64 - 2 ^ 46" "phys_ok t" "i < 512"
  shows "pte (st64 m a e) t i = pte m t i"
  unfolding pte_def using entry_addr_high[OF assms(2,3)] assms(1)
  by (subst ld_sep) (auto intro!: sep_unat)

lemma tbl_low_store:
  assumes wf: "pt_wf m r F" and a: "unat a + 8 \<le> 2 ^ 64 - 2 ^ 46"
  shows "idx_ok js \<Longrightarrow> length js \<le> 3 \<Longrightarrow> tbl (st64 m a e) r js = tbl m r js"
proof (induction js rule: rev_induct)
  case (snoc j js)
  then show ?case using pt_wfD(1)[OF wf, of js] pte_low_store[OF a]
    by (auto simp: tbl_snoc split: option.splits)
qed simp

lemma entry_low_store:
  assumes wf: "pt_wf m r F" and a: "unat a + 8 \<le> 2 ^ 64 - 2 ^ 46" and js: "idx_ok js" "length js \<le> 3" "j < 512"
  shows "entry (st64 m a e) r js j = entry m r js j"
  using tbl_low_store[OF wf a js(1,2)] pt_wfD(1)[OF wf js(1,2)] pte_low_store[OF a _ js(3)]
  by (auto simp: entry_def split: option.splits)

lemma pt_wf_low_store:
  assumes wf: "pt_wf m r F" and a: "unat a + 8 \<le> 2 ^ 64 - 2 ^ 46"
  shows "pt_wf (st64 m a e) r F"
  using pt_wfD[OF wf] unfolding pt_wf_def by (auto simp: tbl_low_store[OF wf a] pte_low_store[OF a])

definition stack_space :: "'z pmm_scheme \<Rightarrow> bool" where
  "stack_space s \<longleftrightarrow> unat (g_free_pages s) + 8 * (unat (g_free_index s) + 1) \<le> 2 ^ 64 - 2 ^ 46"

lemma free_page_spec:
  assumes "vm_wf r s" "has_tables (mem s) r v" "stack_space s"
  defines "s' \<equiv> free_page r v s"
  shows "page_walk (mem s') r w = (if same_page v w then None else page_walk (mem s) r w)"
    "pmm_stack s' = pmm_stack s @ (if page_entry (mem s) r v AND PG_CUSTOM_USABLE = 0 then []
       else [page_entry (mem s) r v AND MASK_REMOVE_12L])"
proof -
  obtain a s1 where g: "get_page_table_entry r (v AND MASK_REMOVE_16U) 0 s = (a, s1)" by fastforce
  have nh: "no_huge (mem s) r v" using assms(2) tbl_no_huge by (auto simp: has_tables_def)
  from get_page_table_entry_spec[OF assms(1) nh flags_ok_0 disjI1[OF assms(2)[unfolded has_tables_def]] g] assms(2)
  obtain pt where pt: "vm_wf r s1" "tbl (mem s1) r [vidx v 3, vidx v 2, vidx v 1] = Some pt"
    "a = entry_addr pt (vidx v 0)" "pmm_stack s1 = pmm_stack s"
    "g_free_pages s1 = g_free_pages s" "g_free_index s1 \<le> g_free_index s"
    and ent: "\<And>js j. idx_ok (js @ [j]) \<Longrightarrow> length js \<le> 3 \<Longrightarrow>
       (js, j) \<notin> {([], vidx v 3), ([vidx v 3], vidx v 2), ([vidx v 3, vidx v 2], vidx v 1)} \<Longrightarrow>
       entry (mem s1) r js j = entry (mem s) r js j" unfolding has_tables_def by metis
  have w: "pt_wf (mem s1) r (set (pmm_stack s1))" "stack_low s1" using pt(1) by (auto simp: vm_wf_def)
  let ?e = "page_entry (mem s) r v"
  have pok: "phys_ok pt" using pt_wfD(1)[OF w(1) _ _ pt(2)] by simp
  have e: "ld64 (mem s1) a = ?e"
    using ent[of "[vidx v 3, vidx v 2, vidx v 1]" "vidx v 0"] entry_Some[OF pt(2)]
    by (simp add: page_entry_def pte_def pt(3))
  define s2 where "s2 = (if ?e AND PG_CUSTOM_USABLE \<noteq> 0 then pmm_free_page (?e AND MASK_REMOVE_12L) s1 else s1)"
  have res: "s' = s2\<lparr>mem := st64 (mem s2) a 0\<rparr>" using g e by (simp add: s'_def free_page_def s2_def Let_def)
  have idx: "g_free_index s1 = g_free_index s" using pt(4) by (metis length_pmm_stack word_unat_eq_iff)
  define b where "b = g_free_pages s + 8 * g_free_index s"
  have low: "unat b + 8 \<le> 2 ^ 64 - 2 ^ 46"
    using assms(3) unat_of_nat[of "8 * unat (g_free_index s)", where 'a = 64]
    by (simp add: b_def stack_space_def unat_plus_if' split: if_splits)
  have s2: "pt_wf (mem s2) r (set (pmm_stack s1))" "stack_low s2"
    "\<And>js. idx_ok js \<Longrightarrow> length js \<le> 3 \<Longrightarrow> tbl (mem s2) r js = tbl (mem s1) r js"
    "\<And>js j. idx_ok (js @ [j]) \<Longrightarrow> length js \<le> 3 \<Longrightarrow> entry (mem s2) r js j = entry (mem s1) r js j"
    using w pt_wf_low_store[OF w(1) low] tbl_low_store[OF w(1) low] entry_low_store[OF w(1) low] assms(3)
    by (auto simp: s2_def pmm_free_page_def idx pt(5) b_def stack_low_def stack_space_def unat_plus_if')
  have stk2: "pmm_stack s2 = pmm_stack s @ (if ?e AND PG_CUSTOM_USABLE = 0 then [] else [?e AND MASK_REMOVE_12L])"
    using pmm_stack_free[of s1] assms(3) pt(4) by (simp add: s2_def pmm_room_def idx stack_space_def)
  show "pmm_stack s' = pmm_stack s @ (if ?e AND PG_CUSTOM_USABLE = 0 then [] else [?e AND MASK_REMOVE_12L])"
    using stack_st[OF s2(2) pok vidx_less] by (simp add: res pt(3) stk2)
  have t2: "tbl (mem s2) r [vidx v 3, vidx v 2, vidx v 1] = Some pt" using s2(3) pt(2) by (simp del: tbl.simps)
  note lf = leaf_store[OF s2(1) t2, where e = 0, folded pt(3)]
  have "no_huge (mem s') r v"
    using lf(2)[of "[vidx v 3, vidx v 2, vidx v 1]"] t2 by (intro tbl_no_huge) (simp add: res)
  then show "page_walk (mem s') r w = (if same_page v w then None else page_walk (mem s) r w)"
    using page_walk_update[OF nh, of "mem s'" 0 w] lf(3) s2(4) ent by (simp add: res)
qed


lemma leaf_entry_usable: "leaf_entry p fl AND PG_CUSTOM_USABLE \<noteq> 0 \<longleftrightarrow> pf_usable fl"
  by (auto simp: leaf_entry_def table_flags_def PG_PRESENT_def PG_RW_def PG_USER_def PG_GLOBAL_def
      PG_CUSTOM_USABLE_def MASK_REMOVE_12L_def PG_NX_def bit.conj_disj_distrib2 and.assoc)

text \<open>A root table and free pages that are all zero form a well-formed address space.\<close>

lemma vm_wf_fresh:
  assumes "phys_ok r" "\<And>i. i < 512 \<Longrightarrow> pte (mem s) r i = 0" "r \<notin> set (pmm_stack s)"
    "\<And>p i. p \<in> set (pmm_stack s) \<Longrightarrow> phys_ok p \<and> (i < 512 \<longrightarrow> pte (mem s) p i = 0)"
    "distinct (pmm_stack s)" "stack_low s"
  shows "vm_wf r s" and "no_huge (mem s) r v"
proof -
  have "tbl (mem s) r js = None" if "idx_ok js" "js \<noteq> []" for js
    using that assms(2) by (cases js) (auto simp: is_table_def)
  then have "js = [] \<and> t = r" if "idx_ok js" "tbl (mem s) r js = Some t" for js t
    using that by (cases "js = []") auto
  then show "vm_wf r s" using assms unfolding vm_wf_def pt_wf_def by blast
  show "no_huge (mem s) r v" using assms(2) by (simp add: no_huge_def entry_def is_table_def)
qed

definition demo_vm :: pmm where
  "demo_vm = \<lparr>mem = st64 (st64 (st64 (\<lambda>_. 0) 0x400000 0x2000) 0x400008 0x3000) 0x400010 0x4000,
     cr3 = 0, g_free_pages = 0x400000, g_free_index = 3, g_ranges = [], g_ranges_size = 0,
     g_ap_low_page = 0\<rparr>"

lemma demo_vm_stack: "pmm_stack demo_vm = [0x2000, 0x3000, 0x4000]"
  by (simp add: demo_vm_def pmm_stack_def upt_rec ld_sep sep_def)

lemma demo_vm_fresh: "vm_wf 0x1000 demo_vm" "no_huge (mem demo_vm) 0x1000 v"
proof -
  have z: "pte (mem demo_vm) p i = 0" if "phys_ok p" "i < 512" for p i
  proof -
    have "pte (\<lambda>_. 0) p i = 0" by (simp add: pte_def ld64_def ldn_zero)
    then show ?thesis using that by (simp add: demo_vm_def pte_low_store)
  qed
  have ok: "phys_ok 0x1000" "phys_ok 0x2000" "phys_ok 0x3000" "phys_ok 0x4000" by (simp_all add: phys_ok_def)
  have low: "stack_low demo_vm" by (simp add: stack_low_def demo_vm_def)
  show "vm_wf 0x1000 demo_vm" "no_huge (mem demo_vm) 0x1000 v"
    by (rule vm_wf_fresh; use z ok low in \<open>auto simp: demo_vm_stack\<close>)+
qed

section \<open>Mapping and unmapping a page\<close>

text \<open>
  C2. \<open>set_page\<close> maps exactly the page it is asked for: afterwards the processor's walk sends every
  address of the virtual page of \<open>v\<close> to the same offset of the physical page \<open>p\<close>, and the translation
  of every other address is what it was, including addresses whose tables had to be created or share
  a table with \<open>v\<close>. The tables stay well formed. The pages the free list holds must be zero-filled
  (part of \<open>vm_wf\<close>), because the code does not clear the tables it allocates.
\<close>

theorem set_page_translation:
  assumes "vm_wf r s" "no_huge (mem s) r v"
    "has_tables (mem s) r v \<or> 3 \<le> length (pmm_stack s)" "pf_present fl"
  shows "page_walk (mem (set_page r v p fl s)) r w =
      (if same_page v w then Some ((p AND MASK_REMOVE_12L) + w mod 4096) else page_walk (mem s) r w) \<and>
    vm_wf r (set_page r v p fl s)"
  using set_page_spec(1,5)[OF assms(1-3), of p fl] assms(4) by simp

theorem set_page_translation_witness:
  "page_walk (mem (set_page 0x1000 0xffff900012345000 0x7000
      \<lparr>pf_write = True, pf_exec = False, pf_kernel = True, pf_usable = True, pf_present = True\<rparr> demo_vm))
     0x1000 0xffff900012345678 = Some 0x7678"
  using set_page_translation[OF demo_vm_fresh, where p = "0x7000" and w = "0xffff900012345678" and
      fl = "\<lparr>pf_write = True, pf_exec = False, pf_kernel = True, pf_usable = True, pf_present = True\<rparr>",
      of "0xffff900012345000"]
  by (simp add: demo_vm_stack same_page_def MASK_REMOVE_16U_def MASK_REMOVE_12L_def del: length_pmm_stack)

text \<open>
  C17. Unmapping undoes mapping: after \<open>set_page\<close> and \<open>free_page\<close> of the same page the page is not
  mapped, every other translation is what it was before, and a page mapped as usable goes back to
  the free list, exactly one time and as its page-aligned physical address; a page that was not
  mapped as usable is not given back.
\<close>

theorem free_page_set_page:
  assumes "vm_wf r s" "no_huge (mem s) r v"
    "has_tables (mem s) r v \<or> 3 \<le> length (pmm_stack s)" "stack_space s"
  shows "page_walk (mem (free_page r v (set_page r v p fl s))) r w =
      (if same_page v w then None else page_walk (mem s) r w) \<and>
    pmm_stack (free_page r v (set_page r v p fl s)) =
      pmm_stack (set_page r v p fl s) @ (if pf_usable fl then [p AND MASK_REMOVE_12L] else [])"
proof -
  note sp = set_page_spec[OF assms(1-3), of p fl]
  have "stack_space (set_page r v p fl s)"
    using assms(4) sp(7,8) by (simp add: stack_space_def word_le_nat_alt)
  note fp = free_page_spec[OF sp(1,2) this]
  show ?thesis using fp sp(4,5) leaf_entry_usable[of p fl] by (auto simp: leaf_entry_bits)
qed

theorem free_page_set_page_witness:
  "page_walk (mem (free_page 0x1000 0x5000 (set_page 0x1000 0x5000 0x7000
      \<lparr>pf_write = True, pf_exec = False, pf_kernel = True, pf_usable = True, pf_present = True\<rparr> demo_vm)))
     0x1000 0x5678 = None"
  using free_page_set_page[OF demo_vm_fresh, where p = "0x7000" and w = "0x5678" and
      fl = "\<lparr>pf_write = True, pf_exec = False, pf_kernel = True, pf_usable = True, pf_present = True\<rparr>",
      of "0x5000"]
  by (simp add: demo_vm_stack same_page_def MASK_REMOVE_16U_def stack_space_def del: length_pmm_stack)
    (simp add: demo_vm_def)

end
