(* ===== verification/Node_Alloc.thy ===== *)
theory Node_Alloc
  imports Paging "HOL-Library.Signed_Division" "HOL-Library.Monad_Syntax"
begin

text \<open>
  The allocator of AVL nodes (\<^verbatim>\<open>kernel/system/mem_mgmt/vmm/node_alloc.c\<close>): pages taken from the
  physical allocator, linked by two pointers at their start, each with a bit array that says which
  of its nodes are in use. C's \<open>int\<close> is modelled by \<open>int\<close>; a 32-bit shift takes its count modulo 32, as
  the processor does.
\<close>

section \<open>Data and operations\<close>

definition AVL_NODE_SIZE :: nat where "AVL_NODE_SIZE = 48"
definition USABLE_PAGE_SIZE :: nat where "USABLE_PAGE_SIZE = 4096 - 2 * 8"
definition NODE_BITS :: nat where "NODE_BITS = AVL_NODE_SIZE * 8 + 1"
definition NODES_PER_PAGE :: nat where "NODES_PER_PAGE = (USABLE_PAGE_SIZE * 8) div NODE_BITS"
definition HEADER_64S :: nat where "HEADER_64S = NODES_PER_PAGE div 64"
definition HEADER_BITS :: nat where "HEADER_BITS = NODES_PER_PAGE mod 64"
definition HEADER_BYTES :: nat where
  "HEADER_BYTES = (HEADER_64S + (if HEADER_BITS = 0 then 0 else 1)) * 8"

record node_heap = pmm +
  g_node_list_head :: u64

definition PAGE_POINTER :: "u64 \<Rightarrow> nat \<Rightarrow> u64" where
  "PAGE_POINTER page i = page + 8 * of_nat i"

definition PAGE_HEADER :: "u64 \<Rightarrow> u64" where
  "PAGE_HEADER page = page + 2 * 8"

definition PAGE_NODES :: "u64 \<Rightarrow> u64" where
  "PAGE_NODES page = page + 2 * 8 + of_nat HEADER_BYTES"

text \<open>
  \<open>memset\<close> counts down its fill character instead of its length: it stores \<open>c - 1\<close>, ..., \<open>0\<close> and ignores
  \<open>n\<close>.
\<close>

definition memset :: "memory \<Rightarrow> u64 \<Rightarrow> u32 \<Rightarrow> nat \<Rightarrow> memory" where
  "memset m p c n = fold (\<lambda>k m. st8 m (p + of_nat k) (ucast (c - 1 - of_nat k))) [0..<unat c] m"

definition init_avl_page :: "u64 \<Rightarrow> 'z node_heap_scheme \<Rightarrow> u64 \<times> 'z node_heap_scheme" where
  "init_avl_page prev s =
     (let (p, s) = pmm_alloc_page s;
          page = p + PHYSICAL_MAP_OFFSET;
          m = st64 (mem s) (PAGE_POINTER page 0) prev;
          m = st64 m (PAGE_POINTER page 1) 0;
          m = memset m (PAGE_HEADER page) 0 (HEADER_BYTES + (if HEADER_BITS = 0 then 0 else 1));
          m = (if prev \<noteq> 0 then st64 m (PAGE_POINTER prev 1) page else m)
      in (page, s\<lparr>mem := m\<rparr>))"

definition header :: "memory \<Rightarrow> u64 \<Rightarrow> nat \<Rightarrow> u64" where
  "header m page i = ld64 m (PAGE_HEADER page + 8 * of_nat i)"

text \<open>The index a counting loop stops at: the first one that satisfies \<open>P\<close>, or the bound.\<close>

definition first_below :: "nat \<Rightarrow> (nat \<Rightarrow> bool) \<Rightarrow> nat" where
  "first_below n P = (case find P [0..<n] of None \<Rightarrow> n | Some i \<Rightarrow> i)"

definition find_0_bit :: "memory \<Rightarrow> u64 \<Rightarrow> int" where
  "find_0_bit m page =
     (let i = first_below HEADER_64S (\<lambda>i. header m page i \<noteq> - 1);
          max_bit = (if i \<ge> HEADER_64S then HEADER_BITS else 64);
          j = first_below max_bit (\<lambda>j. drop_bit j (header m page i) AND 1 = 0)
      in if j \<ge> max_bit then - 1 else int i * 64 + int j)"

definition set_header_bit :: "memory \<Rightarrow> u64 \<Rightarrow> int \<Rightarrow> bool \<Rightarrow> memory" where
  "set_header_bit m page idx val =
     (let byte = idx sdiv 64;
          bit = idx smod 64;
          one = push_bit (nat (bit mod 32)) (1::u32);
          a = PAGE_HEADER page + 8 * of_int byte
      in if val then st64 m a (ld64 m a OR scast one)
         else st64 m a (ld64 m a AND scast (NOT one)))"

partial_function (option) find_page ::
  "u64 \<Rightarrow> 'z node_heap_scheme \<Rightarrow> (u64 \<times> int \<times> 'z node_heap_scheme) option" where
  "find_page page s =
     (let idx = find_0_bit (mem s) page
      in if idx < 0
         then if ld64 (mem s) (PAGE_POINTER page 1) \<noteq> 0
              then find_page (ld64 (mem s) (PAGE_POINTER page 1)) s
              else let (page', s') = init_avl_page page s in find_page page' s'
         else Some (page, idx, s))"

declare find_page.simps [code]

definition create_node :: "'z node_heap_scheme \<Rightarrow> (u64 \<times> 'z node_heap_scheme) option" where
  "create_node s =
     (let s = (if g_node_list_head s = 0
               then let (page, s) = init_avl_page 0 s in s\<lparr>g_node_list_head := page\<rparr>
               else s)
      in do {
        (page, idx, s) \<leftarrow> find_page (g_node_list_head s) s;
        Some (PAGE_NODES page + of_nat AVL_NODE_SIZE * of_int idx,
              s\<lparr>mem := set_header_bit (mem s) page idx True\<rparr>)
      })"

definition get_node_page :: "u64 \<Rightarrow> u64" where
  "get_node_page node = node - node mod 4096"

definition unlink_page :: "u64 \<Rightarrow> 'z node_heap_scheme \<Rightarrow> 'z node_heap_scheme" where
  "unlink_page page s =
     (if g_node_list_head s = page
      then let s = s\<lparr>g_node_list_head := ld64 (mem s) (PAGE_POINTER page 1)\<rparr>;
               s = pmm_free_page page s
           in if g_node_list_head s \<noteq> 0
              then s\<lparr>mem := st64 (mem s) (PAGE_POINTER (g_node_list_head s) 0) 0\<rparr> else s
      else let prev = ld64 (mem s) (PAGE_POINTER page 0);
               next = ld64 (mem s) (PAGE_POINTER page 1);
               s = s\<lparr>mem := st64 (mem s) (PAGE_POINTER prev 1) next\<rparr>;
               s = s\<lparr>mem := st64 (mem s) (PAGE_POINTER next 0) prev\<rparr>
           in pmm_free_page page s)"

definition free_node :: "u64 \<Rightarrow> 'z node_heap_scheme \<Rightarrow> 'z node_heap_scheme" where
  "free_node node s =
     (let page = get_node_page node;
          idx = sint (PAGE_NODES page - node) sdiv int AVL_NODE_SIZE;
          s = s\<lparr>mem := set_header_bit (mem s) page idx False\<rparr>
      in if list_ex (\<lambda>i. header (mem s) page i \<noteq> 0) [0..<HEADER_64S] then s
         else if list_ex (\<lambda>j. drop_bit j (header (mem s) page HEADER_BYTES) AND 1 \<noteq> 0) [0..<HEADER_BITS] then s
         else unlink_page page s)"

lemmas node_consts = AVL_NODE_SIZE_def USABLE_PAGE_SIZE_def NODE_BITS_def

lemma node_numbers [simp]:
  "NODES_PER_PAGE = 84" "HEADER_64S = 1" "HEADER_BITS = 20" "HEADER_BYTES = 16"
  by (simp_all add: NODES_PER_PAGE_def HEADER_64S_def HEADER_BITS_def HEADER_BYTES_def node_consts)

section \<open>The bit array of a page\<close>

lemma first_below_le: "first_below n P \<le> n"
  by (auto simp: first_below_def find_Some_iff split: option.splits)

lemma first_below_less: "first_below n P < n \<Longrightarrow> P (first_below n P)"
  by (auto simp: first_below_def find_Some_iff find_None_iff split: option.splits)

lemma first_below_before: "i < first_below n P \<Longrightarrow> \<not> P i"
  using first_below_le[of n P]
  by (auto simp: first_below_def find_Some_iff find_None_iff split: option.splits)

lemma first_below_1: "first_below (Suc 0) P = (if P 0 then 0 else 1)"
  by (simp add: first_below_def)

lemma drop_bit_and_1: "drop_bit j h AND 1 = (0::u64) \<longleftrightarrow> \<not> bit h j"
  by (simp add: bit_iff_odd_drop_bit and_one_eq even_iff_mod_2_eq_zero)

text \<open>
  Because \<open>1 << bit\<close> is a 32-bit shift, marking node 31 also sets the bits of nodes 32 to 63, which
  are never handed out: a page gives the nodes 0 to 31 and 64 to 83.
\<close>

definition slot :: "nat \<Rightarrow> bool" where
  "slot k \<longleftrightarrow> k < 32 \<or> 64 \<le> k \<and> k < 84"

definition used :: "memory \<Rightarrow> u64 \<Rightarrow> nat \<Rightarrow> bool" where
  "used m p k \<longleftrightarrow> bit (pte m p (2 + of_nat (k div 64))) (k mod 64)"

definition hdr_ok :: "memory \<Rightarrow> u64 \<Rightarrow> bool" where
  "hdr_ok m p \<longleftrightarrow> (used m p 31 \<longrightarrow> (\<forall>k\<in>{32..<64}. used m p k))"

lemma slot_cases:
  assumes "slot k"
  obtains (low) "k < 32" "k div 64 = 0" "k mod 64 = k"
    | (high) j where "j < 20" "k = 64 + j" "k div 64 = 1" "k mod 64 = j"
  using assms that by (auto simp: slot_def le_iff_add)

lemma header_pte: "header m (p + PHYSICAL_MAP_OFFSET) i = pte m p (2 + of_nat i)"
  by (simp add: header_def pte_def entry_addr_def PAGE_HEADER_def algebra_simps)

lemma find_0_bit_spec:
  assumes "hdr_ok m p"
  shows "find_0_bit m (p + PHYSICAL_MAP_OFFSET) = - 1 \<and> (\<forall>k. slot k \<longrightarrow> used m p k) \<or>
    (\<exists>k. find_0_bit m (p + PHYSICAL_MAP_OFFSET) = int k \<and> slot k \<and> \<not> used m p k)"
proof (cases "pte m p 2 = - 1")
  case False
  let ?j = "first_below 64 (\<lambda>j. \<not> bit (pte m p 2) j)"
  have "\<exists>n<64. \<not> bit (pte m p 2) n"
    using False bit_word_eqI[of "pte m p 2" "- 1"] by auto
  then have j: "?j < 64" using first_below_before[of _ 64 "\<lambda>j. \<not> bit (pte m p 2) j"] by (meson leI less_le_trans)
  then have nb: "\<not> bit (pte m p 2) ?j" using first_below_less[of 64 "\<lambda>j. \<not> bit (pte m p 2) j"] by simp
  have "?j < 32"
  proof (rule ccontr)
    assume "\<not> ?j < 32"
    then have "bit (pte m p 2) 31" using first_below_before[of 31 64 "\<lambda>j. \<not> bit (pte m p 2) j"] by simp
    then show False using assms \<open>\<not> ?j < 32\<close> j nb by (auto simp: hdr_ok_def used_def)
  qed
  then show ?thesis using False j nb
    by (intro disjI2 exI[of _ ?j])
      (simp add: find_0_bit_def first_below_1 header_pte drop_bit_and_1 slot_def used_def Let_def)
next
  case True
  let ?j = "first_below 20 (\<lambda>j. \<not> bit (pte m p 3) j)"
  have f: "find_0_bit m (p + PHYSICAL_MAP_OFFSET) = (if 20 \<le> ?j then - 1 else int (64 + ?j))"
    using True by (simp add: find_0_bit_def first_below_1 header_pte drop_bit_and_1 Let_def)
  show ?thesis
  proof (cases "20 \<le> ?j")
    case True
    moreover have "used m p k" if "slot k" for k
      using that
    proof (cases rule: slot_cases)
      case low
      then show ?thesis using \<open>pte m p 2 = - 1\<close> by (simp add: used_def)
    next
      case (high j)
      then show ?thesis using first_below_before[of j 20 "\<lambda>j. \<not> bit (pte m p 3) j"] True by (simp add: used_def)
    qed
    ultimately show ?thesis using f by simp
  next
    case False
    then have "(64 + ?j) div 64 = 1" by simp
    then show ?thesis using False f first_below_less[of 20 "\<lambda>j. \<not> bit (pte m p 3) j"]
      by (intro disjI2 exI[of _ "64 + ?j"]) (simp add: slot_def used_def)
  qed
qed

lemma bit_one_shift:
  assumes "b < 32"
  shows "bit (scast (2 ^ b :: u32) :: u64) n \<longleftrightarrow> n < 64 \<and> min 31 n = b"
  using assms by (auto simp: bit_simps min_def)

lemma set_header_bit_slot:
  assumes "slot k"
  shows "set_header_bit m (p + PHYSICAL_MAP_OFFSET) (int k) True =
    st64 m (entry_addr p (2 + of_nat (k div 64)))
      (pte m p (2 + of_nat (k div 64)) OR scast (push_bit (k mod 64) (1::u32)))"
proof -
  have "int k sdiv 64 = int (k div 64)" "int k smod 64 = int (k mod 64)"
    by (simp_all add: signed_divide_int_def signed_modulo_int_def zdiv_int zmod_int sgn_if)
  moreover have "k mod 64 < 32" using assms by (cases rule: slot_cases) simp_all
  ultimately show ?thesis
    by (simp add: set_header_bit_def Let_def pte_def entry_addr_def PAGE_HEADER_def algebra_simps flip: zmod_int)
qed

lemma set_header_bit_used:
  assumes "slot k" "phys_ok p" "phys_ok q"
  fixes m :: memory
  defines "m' \<equiv> set_header_bit m (p + PHYSICAL_MAP_OFFSET) (int k) True"
  shows "i < 512 \<Longrightarrow> i \<noteq> 2 + of_nat (k div 64) \<or> q \<noteq> p \<Longrightarrow> pte m' q i = pte m q i"
    and "slot j \<Longrightarrow> used m' q j \<longleftrightarrow> used m q j \<or> q = p \<and> j = k"
    and "hdr_ok m q \<Longrightarrow> hdr_ok m' q"
proof -
  have i: "(2 + of_nat (k div 64) :: u64) < 512" using assms(1) by (cases rule: slot_cases) simp_all
  have ptes: "pte m' q i = (if q = p \<and> i = 2 + of_nat (k div 64)
      then pte m q i OR scast (push_bit (k mod 64) (1::u32)) else pte m q i)" if "i < 512" for i
    unfolding m'_def set_header_bit_slot[OF assms(1)] using that i assms(2,3)
    by (subst pte_st) (auto simp: phys_ok_def)
  then show "i < 512 \<Longrightarrow> i \<noteq> 2 + of_nat (k div 64) \<or> q \<noteq> p \<Longrightarrow> pte m' q i = pte m q i" by auto
  have k: "k mod 64 < 32" using assms(1) by (cases rule: slot_cases) simp_all
  show "used m' q j \<longleftrightarrow> used m q j \<or> q = p \<and> j = k" if "slot j"
    using that
  proof (cases rule: slot_cases)
    case low
    then show ?thesis by (cases rule: slot_cases[OF assms(1)]) (auto simp: used_def ptes bit_or_iff bit_one_shift)
  next
    case (high j)
    then show ?thesis by (cases rule: slot_cases[OF assms(1)]) (auto simp: used_def ptes bit_or_iff bit_one_shift)
  qed
  show "hdr_ok m' q" if "hdr_ok m q"
    using that assms(1) 
    by (cases rule: slot_cases[OF assms(1)]) (auto simp: hdr_ok_def used_def ptes bit_or_iff bit_one_shift)
qed

lemma pte_st_ok:
  assumes "phys_ok t" "phys_ok t'" "i < 512" "i' < 512"
  shows "pte (st64 m (entry_addr t i) e) t' i' = (if t = t' \<and> i = i' then e else pte m t' i')"
  using pte_st[of t t' i i'] assms by (simp add: phys_ok_def)

section \<open>The list of node pages\<close>

definition node_addr :: "u64 \<Rightarrow> nat \<Rightarrow> u64" where
  "node_addr p k = p + PHYSICAL_MAP_OFFSET + of_nat (32 + 48 * k)"

lemma node_addr_code: "PAGE_NODES (p + PHYSICAL_MAP_OFFSET) + of_nat AVL_NODE_SIZE * of_int (int k) = node_addr p k"
  by (simp add: PAGE_NODES_def node_addr_def AVL_NODE_SIZE_def)

lemma window_sep:
  assumes "phys_ok p" "phys_ok q" "p \<noteq> q"
  shows "sep (p + PHYSICAL_MAP_OFFSET) 4096 (q + PHYSICAL_MAP_OFFSET) 4096"
  using aligned_pages_sep[of p q] assms by (simp add: phys_ok_def sep_def)

lemma slot_less: "slot k \<Longrightarrow> k < 84" by (auto simp: slot_def)

lemma node_sep:
  assumes "phys_ok p" "phys_ok q" "k < 84" "j < 84" "(p, k) \<noteq> (q, j)"
  shows "sep (node_addr p k) 48 (node_addr q j) 48"
proof (cases "p = q")
  case True
  then consider "k < j" | "j < k" using assms(5) by fastforce
  then show ?thesis unfolding node_addr_def True
    by cases (intro sep_offsets sep_symD[OF sep_offsets]; use assms in auto)+
next
  case False
  show ?thesis unfolding node_addr_def
    by (rule sep_sub[OF window_sep[OF assms(1,2) False]]) (use assms in auto)
qed

lemma node_header_sep:
  assumes "phys_ok p" "phys_ok q" "k < 84"
  shows "sep (q + PHYSICAL_MAP_OFFSET) 32 (node_addr p k) 48"
proof (cases "p = q")
  case True
  then show ?thesis unfolding node_addr_def
    using sep_offsets[of 0 32 "32 + 48 * k" 48 "q + PHYSICAL_MAP_OFFSET"] assms by simp
next
  case False
  show ?thesis unfolding node_addr_def
    using sep_sub[OF window_sep[OF assms(2,1)], of 0 32 "32 + 48 * k" 48] False assms by simp
qed

lemma node_addr_inj:
  assumes "phys_ok p" "phys_ok q" "slot k" "slot j" "node_addr p k = node_addr q j"
  shows "p = q \<and> k = j"
  using node_sep[OF assms(1,2) slot_less[OF assms(3)] slot_less[OF assms(4)]] assms(5) by (auto simp: sep_def)

fun chain :: "memory \<Rightarrow> u64 \<Rightarrow> u64 \<Rightarrow> u64 list \<Rightarrow> bool" where
  "chain m prev h [] \<longleftrightarrow> h = 0"
| "chain m prev h (p # ps) \<longleftrightarrow>
     h = p + PHYSICAL_MAP_OFFSET \<and> pte m p 0 = prev \<and> chain m h (pte m p 1) ps"

definition nh_wf :: "u64 list \<Rightarrow> 'z node_heap_scheme \<Rightarrow> bool" where
  "nh_wf ps s \<longleftrightarrow> chain (mem s) 0 (g_node_list_head s) ps \<and> distinct (ps @ pmm_stack s) \<and>
     (\<forall>p\<in>set ps. phys_ok p \<and> hdr_ok (mem s) p) \<and>
     (\<forall>p\<in>set (pmm_stack s). phys_ok p \<and> (\<forall>i<512. pte (mem s) p i = 0)) \<and> stack_low s"

definition own :: "u64 list \<Rightarrow> memory \<Rightarrow> u64 set" where
  "own ps m = {node_addr p k |p k. p \<in> set ps \<and> slot k \<and> used m p k}"

definition hdr_frame :: "u64 set \<Rightarrow> memory \<Rightarrow> memory \<Rightarrow> bool" where
  "hdr_frame P m m' \<longleftrightarrow> (\<forall>x. (\<forall>p\<in>P. x \<notin> region (p + PHYSICAL_MAP_OFFSET) 32) \<longrightarrow> m' x = m x)"

lemma hdr_frame_refl [simp]: "hdr_frame P m m" by (simp add: hdr_frame_def)

lemma hdr_frame_trans: "hdr_frame P m m' \<Longrightarrow> hdr_frame Q m' m'' \<Longrightarrow> P \<subseteq> R \<Longrightarrow> Q \<subseteq> R \<Longrightarrow> hdr_frame R m m''"
  unfolding hdr_frame_def by (metis subsetD)

lemma hdr_frame_st:
  assumes "p \<in> P" "i < 4"
  shows "hdr_frame P m (st64 m (entry_addr p i) v)"
proof -
  have i: "8 * unat i + 8 \<le> 32" using assms(2) by (simp add: word_less_nat_alt)
  have "st64 m (entry_addr p i) v x = m x" if "x \<notin> region (p + PHYSICAL_MAP_OFFSET) 32" for x
    using st64_outside_array[OF that, of "unat i" m v] i by (simp add: entry_addr_def)
  then show ?thesis using assms(1) by (auto simp: hdr_frame_def)
qed

lemma chain_frame:
  "(\<And>p. p \<in> set ps \<Longrightarrow> pte m' p 0 = pte m p 0 \<and> pte m' p 1 = pte m p 1) \<Longrightarrow>
     chain m' prev h ps = chain m prev h ps"
  by (induction ps arbitrary: prev h) auto

lemma chain_snoc:
  assumes "chain m prev h ps" "ps \<noteq> []" "\<And>q. q \<in> set ps \<Longrightarrow> pte m' q 0 = pte m q 0"
    "\<And>q. q \<in> set (butlast ps) \<Longrightarrow> pte m' q 1 = pte m q 1"
    "pte m' (last ps) 1 = p + PHYSICAL_MAP_OFFSET" "pte m' p 0 = last ps + PHYSICAL_MAP_OFFSET" "pte m' p 1 = 0"
  shows "chain m' prev h (ps @ [p])"
  using assms
proof (induction ps arbitrary: prev h)
  case (Cons q ps)
  show ?case
  proof (cases "ps = []")
    case True
    then show ?thesis using Cons.prems by simp
  next
    case False
    then have "chain m' (q + PHYSICAL_MAP_OFFSET) (pte m q 1) (ps @ [p])"
      using Cons.prems by (intro Cons.IH) auto
    then show ?thesis using Cons.prems False by simp
  qed
qed simp

lemma init_avl_page_spec:
  assumes stk: "pmm_stack s \<noteq> []" "stack_low s" "phys_ok (last (pmm_stack s))"
    and prev: "prev = 0 \<or> prev = q + PHYSICAL_MAP_OFFSET \<and> phys_ok q \<and> q \<noteq> last (pmm_stack s)"
  defines "p \<equiv> last (pmm_stack s)"
  obtains s' where "init_avl_page prev s = (p + PHYSICAL_MAP_OFFSET, s')"
    "pmm_stack s' = butlast (pmm_stack s)" "stack_low s'" "g_node_list_head s' = g_node_list_head s"
    "g_free_pages s' = g_free_pages s"
    "\<forall>x i. phys_ok x \<longrightarrow> i < 512 \<longrightarrow> pte (mem s') x i =
      (if x = p \<and> i = 0 then prev else if x = p \<and> i = 1 then 0
       else if prev \<noteq> 0 \<and> x = q \<and> i = 1 then p + PHYSICAL_MAP_OFFSET else pte (mem s) x i)"
    "hdr_frame (if prev = 0 then {p} else {p, q}) (mem s) (mem s')"
proof -
  let ?s = "s\<lparr>g_free_index := g_free_index s - 1\<rparr>"
  let ?m1 = "st64 (st64 (mem s) (entry_addr p 0) prev) (entry_addr p 1) 0"
  let ?m2 = "if prev \<noteq> 0 then st64 ?m1 (entry_addr q 1) (p + PHYSICAL_MAP_OFFSET) else ?m1"
  let ?s' = "?s\<lparr>mem := ?m2\<rparr>"
  have ptr: "PAGE_POINTER (x + PHYSICAL_MAP_OFFSET) i = entry_addr x (of_nat i)" for x i
    by (simp add: PAGE_POINTER_def entry_addr_def)
  have ms: "memset m a 0 n = m" for m a n by (simp add: memset_def)
  have 1: "init_avl_page prev s = (p + PHYSICAL_MAP_OFFSET, ?s')"
    using prev pmm_stack_alloc(1)[OF stk(1)] ptr[of _ 0] ptr[of _ 1]
    by (auto simp: init_avl_page_def Let_def ms p_def)
  have low: "stack_low ?s" using stk(1,2) by (simp add: stack_low_def pmm_stack_empty_iff unat_minus_one)
  have pok: "phys_ok p" using stk(3) by (simp add: p_def)
  have m1: "pmm_stack (?s\<lparr>mem := ?m1\<rparr>) = butlast (pmm_stack s)"
    using stack_st[OF low pok, of 0 prev] stack_st[of "?s\<lparr>mem := st64 (mem s) (entry_addr p 0) prev\<rparr>" p 1 0] pok low
      pmm_stack_alloc[OF stk(1)] by (simp add: stack_low_def)
  have 2: "pmm_stack ?s' = butlast (pmm_stack s)"
    using m1 stack_st[of "?s\<lparr>mem := ?m1\<rparr>" q 1] low prev by (auto simp: stack_low_def)
  have 3: "pte (mem ?s') x i = (if x = p \<and> i = 0 then prev else if x = p \<and> i = 1 then 0
       else if prev \<noteq> 0 \<and> x = q \<and> i = 1 then p + PHYSICAL_MAP_OFFSET else pte (mem s) x i)"
    if "phys_ok x" "i < 512" for x i
    using that prev pok by (auto simp: pte_st_ok p_def)
  have 4: "hdr_frame (if prev = 0 then {p} else {p, q}) (mem s) (mem ?s')"
    using hdr_frame_trans[OF hdr_frame_st[of p "{p}" 0 "mem s" prev] hdr_frame_st[of p "{p}" 1 _ 0], of "{p}"]
      hdr_frame_trans[OF _ hdr_frame_st[of q "{q}" 1], of "{p}" "mem s" ?m1 "{p, q}"] by auto
  show thesis by (rule that[OF 1 2]) (use 3 4 low in \<open>auto simp: stack_low_def\<close>)
qed

lemma window_nonzero: "phys_ok p \<Longrightarrow> p + PHYSICAL_MAP_OFFSET \<noteq> 0"
  using entry_addr_high(1)[of p 0] by (auto simp: entry_addr_def)

lemma pmm_stack_head [simp]: "pmm_stack (s\<lparr>g_node_list_head := h\<rparr>) = pmm_stack s"
  by (simp add: pmm_stack_def)

lemma distinct_butlast_last:
  assumes "distinct (xs @ ys)" "ys \<noteq> []"
  shows "distinct ((xs @ [last ys]) @ butlast ys)" "last ys \<notin> set xs" "last ys \<notin> set (butlast ys)"
    "set (butlast ys) \<subseteq> set ys"
proof -
  obtain zs z where "ys = zs @ [z]" using assms(2) by (metis rev_exhaust)
  then show "distinct ((xs @ [last ys]) @ butlast ys)" "last ys \<notin> set xs" "last ys \<notin> set (butlast ys)"
    "set (butlast ys) \<subseteq> set ys" using assms by auto
qed

lemma init_extend:
  assumes wf: "nh_wf ps s" and stk: "pmm_stack s \<noteq> []"
  defines "p \<equiv> last (pmm_stack s)" and "prev \<equiv> (if ps = [] then 0 else last ps + PHYSICAL_MAP_OFFSET)"
  obtains s' where "init_avl_page prev s = (p + PHYSICAL_MAP_OFFSET, s')"
    "nh_wf (ps @ [p]) (s'\<lparr>g_node_list_head := (if ps = [] then p + PHYSICAL_MAP_OFFSET else g_node_list_head s)\<rparr>)"
    "g_node_list_head s' = g_node_list_head s" "own (ps @ [p]) (mem s') = own ps (mem s)" 
    "hdr_frame (set (ps @ [p])) (mem s) (mem s')"
    "pmm_stack s' = butlast (pmm_stack s)" "\<not> used (mem s') p 0" "g_free_pages s' = g_free_pages s"
proof -
  have w: "chain (mem s) 0 (g_node_list_head s) ps" "distinct (ps @ pmm_stack s)" "stack_low s"
    "\<And>q. q \<in> set ps \<Longrightarrow> phys_ok q \<and> hdr_ok (mem s) q"
    "\<And>q. q \<in> set (pmm_stack s) \<Longrightarrow> phys_ok q \<and> (\<forall>i<512. pte (mem s) q i = 0)"
    using wf by (auto simp: nh_wf_def)
  note d = distinct_butlast_last[OF w(2) stk, folded p_def]
  have pin: "p \<in> set (pmm_stack s)" using stk by (simp add: p_def)
  have pok: "phys_ok p" "\<And>i. i < 512 \<Longrightarrow> pte (mem s) p i = 0" using w(5)[OF pin] by auto
  have prev: "prev = 0 \<or> prev = last ps + PHYSICAL_MAP_OFFSET \<and> phys_ok (last ps) \<and> last ps \<noteq> p"
    using d(2) w(4)[of "last ps"] last_in_set[of ps] unfolding prev_def by (cases "ps = []") auto
  have prev0: "prev = 0 \<longleftrightarrow> ps = []"
    using window_nonzero[of "last ps"] w(4)[of "last ps"] unfolding prev_def by simp
  obtain s' where s': "init_avl_page prev s = (p + PHYSICAL_MAP_OFFSET, s')"
    "pmm_stack s' = butlast (pmm_stack s)" "stack_low s'" "g_node_list_head s' = g_node_list_head s"
    "g_free_pages s' = g_free_pages s"
    and ptes0: "\<forall>x i. phys_ok x \<longrightarrow> i < 512 \<longrightarrow> pte (mem s') x i =
      (if x = p \<and> i = 0 then prev else if x = p \<and> i = 1 then 0
       else if prev \<noteq> 0 \<and> x = last ps \<and> i = 1 then p + PHYSICAL_MAP_OFFSET else pte (mem s) x i)"
    and fr: "hdr_frame (if prev = 0 then {p} else {p, last ps}) (mem s) (mem s')"
    by (rule init_avl_page_spec[OF stk w(3) pok(1)[unfolded p_def] prev[unfolded p_def], folded p_def], rule that)
  note ptes = ptes0[rule_format]
  have us: "used (mem s') x k = used (mem s) x k" if "phys_ok x" "k < 128" for x k
  proof -
    have "k div 64 < 2" using that by simp
    then have i: "(2 + of_nat (k div 64) :: u64) \<noteq> 0" "(2 + of_nat (k div 64) :: u64) \<noteq> 1" 
       "(2 + of_nat (k div 64) :: u64) < 512" by (auto simp: less_2_cases_iff)
    then show ?thesis using ptes[OF that(1) i(3)] by (simp add: used_def)
  qed
  have nu: "\<not> used (mem s') p k" if "slot k" for k
  proof -
    have "(2 + of_nat (k div 64) :: u64) < 512" using that by (cases rule: slot_cases) simp_all
    then show ?thesis using us[OF pok(1), of k] pok(2) slot_less[OF that] by (simp add: used_def)
  qed
  have hdr: "hdr_ok (mem s') q" if "q \<in> set (ps @ [p])" for q
  proof (cases "q = p")
    case True
    then show ?thesis using nu[of 31] by (simp add: hdr_ok_def slot_def)
  next
    case False
    then show ?thesis using that w(4)[of q] us[of q] by (simp add: hdr_ok_def)
  qed
  have ch: "chain (mem s') 0 (if ps = [] then p + PHYSICAL_MAP_OFFSET else g_node_list_head s) (ps @ [p])"
  proof (cases "ps = []")
    case True
    then show ?thesis using ptes[OF pok(1), of 0] ptes[OF pok(1), of 1] prev0 by simp
  next
    case False
    have "pte (mem s') q 0 = pte (mem s) q 0" if "q \<in> set ps" for q
      using ptes[of q 0] w(4)[OF that] d(2) that by auto
    moreover have "pte (mem s') q 1 = pte (mem s) q 1" if "q \<in> set (butlast ps)" for q
    proof -
      have "q \<in> set ps" "q \<noteq> last ps" using that w(2) distinct_butlast_last[of "[]" ps] False by (auto dest: in_set_butlastD)
      then show ?thesis using ptes[of q 1] w(4) d(2) by auto
    qed
    moreover have "pte (mem s') (last ps) 1 = p + PHYSICAL_MAP_OFFSET"
      using ptes[of "last ps" 1] w(4)[of "last ps"] False d(2) prev0 by auto
    ultimately show ?thesis using chain_snoc[OF w(1) False] ptes[OF pok(1), of 0] ptes[OF pok(1), of 1] False
      by (simp add: prev_def)
  qed
  have z: "pte (mem s') q i = 0" if "q \<in> set (butlast (pmm_stack s))" "i < 512" for q i
  proof -
    have "q \<in> set (pmm_stack s)" "q \<noteq> p" "q \<notin> set ps" using that d(1,3,4) by auto
    then show ?thesis using ptes[of q i] w(5)[of q] that prev0 by auto
  qed
  have "nh_wf (ps @ [p]) (s'\<lparr>g_node_list_head := (if ps = [] then p + PHYSICAL_MAP_OFFSET else g_node_list_head s)\<rparr>)"
    using ch d(1,4) s'(2,3) hdr z w(4,5) pok(1) unfolding nh_wf_def by (auto simp: stack_low_def)
  moreover have "own (ps @ [p]) (mem s') = own ps (mem s)"
    using us nu w(4) slot_less unfolding own_def by (auto 4 4 dest: slot_less)
  moreover have "hdr_frame (set (ps @ [p])) (mem s) (mem s')"
    by (rule hdr_frame_trans[OF fr hdr_frame_refl]) (use prev0 in auto)
  moreover have "\<not> used (mem s') p 0" by (rule nu) (simp add: slot_def)
  ultimately show thesis using that s' by blast
qed

lemma find_page_chain:
  assumes "chain (mem s) prev h ps" "ps \<noteq> []" "\<And>p. p \<in> set ps \<Longrightarrow> phys_ok p \<and> hdr_ok (mem s) p"
  shows "(\<exists>p\<in>set ps. \<exists>k. slot k \<and> \<not> used (mem s) p k \<and> find_page h s = Some (p + PHYSICAL_MAP_OFFSET, int k, s)) \<or>
    (\<forall>p\<in>set ps. \<forall>k. slot k \<longrightarrow> used (mem s) p k) \<and>
      find_page h s = (case init_avl_page (last ps + PHYSICAL_MAP_OFFSET) s of (page, s') \<Rightarrow> find_page page s')"
  using assms
proof (induction ps arbitrary: prev h)
  case (Cons p ps)
  have h: "h = p + PHYSICAL_MAP_OFFSET" and ch: "chain (mem s) h (pte (mem s) p 1) ps" using Cons.prems(1) by auto
  have nx: "ld64 (mem s) (PAGE_POINTER h 1) = pte (mem s) p 1"
    by (simp add: h PAGE_POINTER_def pte_def entry_addr_def)
  consider k where "find_0_bit (mem s) h = int k" "slot k" "\<not> used (mem s) p k"
    | "find_0_bit (mem s) h = - 1" "\<forall>k. slot k \<longrightarrow> used (mem s) p k"
    using find_0_bit_spec[of "mem s" p] Cons.prems(3)[of p] h by auto
  then show ?case
  proof cases
    case (1 k)
    then have "find_page h s = Some (p + PHYSICAL_MAP_OFFSET, int k, s)" by (subst find_page.simps) (simp add: h)
    then show ?thesis using 1 by auto
  next
    case 2
    show ?thesis
    proof (cases "ps = []")
      case True
      then have "find_page h s = (case init_avl_page h s of (page, s') \<Rightarrow> find_page page s')"
        using 2 nx ch by (subst find_page.simps) simp
      then show ?thesis using True 2 h by simp
    next
      case False
      then have "pte (mem s) p 1 \<noteq> 0" using ch Cons.prems(3) window_nonzero by (cases ps) auto
      then have "find_page h s = find_page (pte (mem s) p 1) s"
        using 2 nx by (subst find_page.simps) simp
      then show ?thesis using Cons.IH[OF ch False] Cons.prems(3) 2 False by auto
    qed
  qed
qed simp

lemma chain_unique:
  assumes "chain m prev h ps" "chain m prev h qs" "\<forall>p\<in>set ps \<union> set qs. phys_ok p"
  shows "ps = qs"
  using assms
proof (induction ps arbitrary: prev h qs)
  case Nil
  then show ?case using window_nonzero by (cases qs) auto
next
  case (Cons p ps)
  then obtain q qs' where "qs = q # qs'" using window_nonzero[of p] by (cases qs) auto
  then show ?case using Cons by auto
qed

lemma nh_wfD:
  assumes "nh_wf ps s"
  shows "chain (mem s) 0 (g_node_list_head s) ps" "distinct (ps @ pmm_stack s)" "stack_low s"
    "\<And>q. q \<in> set ps \<Longrightarrow> phys_ok q \<and> hdr_ok (mem s) q"
    "\<And>q. q \<in> set (pmm_stack s) \<Longrightarrow> phys_ok q" "\<And>q i. q \<in> set (pmm_stack s) \<Longrightarrow> i < 512 \<Longrightarrow> pte (mem s) q i = 0"
  using assms by (auto simp: nh_wf_def)

lemma find_page_free:
  assumes "hdr_ok (mem s) p" "slot j" "\<not> used (mem s) p j"
  shows "\<exists>k. slot k \<and> \<not> used (mem s) p k \<and> find_page (p + PHYSICAL_MAP_OFFSET) s = Some (p + PHYSICAL_MAP_OFFSET, int k, s)"
proof -
  obtain k where "find_0_bit (mem s) (p + PHYSICAL_MAP_OFFSET) = int k" "slot k" "\<not> used (mem s) p k"
    using find_0_bit_spec[OF assms(1)] assms(2,3) by blast
  then show ?thesis by (intro exI[of _ k]) (subst find_page.simps, simp)
qed

lemma mark_spec:
  assumes wf: "nh_wf ps s" and p: "p \<in> set ps" "slot k" "\<not> used (mem s) p k"
  defines "m' \<equiv> set_header_bit (mem s) (p + PHYSICAL_MAP_OFFSET) (int k) True"
  shows "nh_wf ps (s\<lparr>mem := m'\<rparr>)" "own ps m' = insert (node_addr p k) (own ps (mem s))"
    "hdr_frame (set ps) (mem s) m'" "pmm_stack (s\<lparr>mem := m'\<rparr>) = pmm_stack s" "node_addr p k \<notin> own ps (mem s)"
proof -
  note w = nh_wfD[OF wf]
  have pok: "phys_ok p" using w(4)[OF p(1)] by simp
  note sb = set_header_bit_used[OF p(2) pok, where m = "mem s", folded m'_def]
  have i: "(2 + of_nat (k div 64) :: u64) < 4" "(2 + of_nat (k div 64) :: u64) < 512"
     "(2 + of_nat (k div 64) :: u64) \<noteq> 0" "(2 + of_nat (k div 64) :: u64) \<noteq> 1"
    using p(2) by (cases rule: slot_cases; simp)+
  show stk: "pmm_stack (s\<lparr>mem := m'\<rparr>) = pmm_stack s"
    using stack_st[OF w(3) pok i(2)] by (simp add: m'_def set_header_bit_slot[OF p(2)])
  have "chain m' 0 (g_node_list_head s) ps"
    using w(1) sb(1)[of _ 0] sb(1)[of _ 1] w(4) i by (subst chain_frame[of _ _ "mem s"]) auto
  moreover have "pte m' q j = 0" if "q \<in> set (pmm_stack s)" "j < 512" for q j
    using that w(2,5,6) p(1) by (subst sb(1)) auto
  ultimately show "nh_wf ps (s\<lparr>mem := m'\<rparr>)"
    unfolding nh_wf_def stk using w sb(3) by (auto simp: stack_low_def)
  show "own ps m' = insert (node_addr p k) (own ps (mem s))"
    using sb(2) w(4) p(1,2) unfolding own_def by (auto; metis)
  show "hdr_frame (set ps) (mem s) m'"
    unfolding m'_def set_header_bit_slot[OF p(2)] by (rule hdr_frame_st[OF p(1) i(1)])
  show "node_addr p k \<notin> own ps (mem s)"
    using node_addr_inj[OF pok _ p(2)] w(4) p(3) unfolding own_def by blast
qed

definition node_room :: "u64 list \<Rightarrow> 'z node_heap_scheme \<Rightarrow> bool" where
  "node_room ps s \<longleftrightarrow> pmm_stack s \<noteq> [] \<or> (\<exists>p\<in>set ps. \<exists>k. slot k \<and> \<not> used (mem s) p k)"

lemma create_node_page:
  assumes wf: "nh_wf ps s" and room: "node_room ps s"
  shows "\<exists>ps' p k s'. create_node s = Some (node_addr p k,
       s'\<lparr>mem := set_header_bit (mem s') (p + PHYSICAL_MAP_OFFSET) (int k) True\<rparr>) \<and>
     nh_wf ps' s' \<and> p \<in> set ps' \<and> slot k \<and> \<not> used (mem s') p k \<and> own ps' (mem s') = own ps (mem s) \<and>
     hdr_frame (set ps') (mem s) (mem s') \<and> g_free_pages s' = g_free_pages s \<and>
     (ps' = ps \<and> pmm_stack s' = pmm_stack s \<or>
      pmm_stack s \<noteq> [] \<and> ps' = ps @ [last (pmm_stack s)] \<and> pmm_stack s' = butlast (pmm_stack s))"
proof -
  note w = nh_wfD[OF wf]
  have fin: "create_node s = Some (node_addr p k, s'\<lparr>mem := set_header_bit (mem s') (p + PHYSICAL_MAP_OFFSET) (int k) True\<rparr>)"
    if "s1 = (if g_node_list_head s = 0 then let (page, s) = init_avl_page 0 s in s\<lparr>g_node_list_head := page\<rparr> else s)"
      "find_page (g_node_list_head s1) s1 = Some (p + PHYSICAL_MAP_OFFSET, int k, s')" for s1 s' p k
    using that node_addr_code[of p k] by (simp add: create_node_def Let_def)
  show ?thesis
  proof (cases "ps = []")
    case True
    then have stk: "pmm_stack s \<noteq> []" using room by (simp add: node_room_def)
    let ?p = "last (pmm_stack s)"
    from init_extend[OF wf stk] True obtain s' where
      s': "init_avl_page 0 s = (?p + PHYSICAL_MAP_OFFSET, s')" "nh_wf [?p] (s'\<lparr>g_node_list_head := ?p + PHYSICAL_MAP_OFFSET\<rparr>)"
      "own [?p] (mem s') = own ps (mem s)" "hdr_frame {?p} (mem s) (mem s')" "pmm_stack s' = butlast (pmm_stack s)"
      "\<not> used (mem s') ?p 0" "g_free_pages s' = g_free_pages s"
      by (simp only: simp_thms if_True append_Nil list.set) blast
    let ?s = "s'\<lparr>g_node_list_head := ?p + PHYSICAL_MAP_OFFSET\<rparr>"
    obtain k where k: "slot k" "\<not> used (mem s') ?p k"
      "find_page (?p + PHYSICAL_MAP_OFFSET) ?s = Some (?p + PHYSICAL_MAP_OFFSET, int k, ?s)"
      using find_page_free[of ?s ?p 0] s'(6) nh_wfD(4)[OF s'(2)] by (auto simp: slot_def)
    have "create_node s = Some (node_addr ?p k, ?s\<lparr>mem := set_header_bit (mem ?s) (?p + PHYSICAL_MAP_OFFSET) (int k) True\<rparr>)"
      by (rule fin[of ?s]) (use w(1) True s'(1) k(3) in auto)
    then show ?thesis using s' k stk True by (intro exI[of _ "[?p]"] exI[of _ ?p] exI[of _ k] exI[of _ ?s]) auto
  next
    case False
    then have h: "g_node_list_head s \<noteq> 0" using w(1,4) window_nonzero by (cases ps) auto
    from find_page_chain[OF w(1) False w(4)]
    consider p k where "p \<in> set ps" "slot k" "\<not> used (mem s) p k"
        "find_page (g_node_list_head s) s = Some (p + PHYSICAL_MAP_OFFSET, int k, s)"
      | "\<forall>p\<in>set ps. \<forall>k. slot k \<longrightarrow> used (mem s) p k"
        "find_page (g_node_list_head s) s = (case init_avl_page (last ps + PHYSICAL_MAP_OFFSET) s of (page, s') \<Rightarrow> find_page page s')"
      by blast
    then show ?thesis
    proof cases
      case (1 p k)
      then show ?thesis using fin[of s p k s] h wf
        by (intro exI[of _ ps] exI[of _ p] exI[of _ k] exI[of _ s]) auto
    next
      case 2
      then have stk: "pmm_stack s \<noteq> []" using room by (auto simp: node_room_def)
      let ?p = "last (pmm_stack s)"
      from init_extend[OF wf stk] False obtain s' where
        s': "init_avl_page (last ps + PHYSICAL_MAP_OFFSET) s = (?p + PHYSICAL_MAP_OFFSET, s')"
        "nh_wf (ps @ [?p]) (s'\<lparr>g_node_list_head := g_node_list_head s\<rparr>)" "g_node_list_head s' = g_node_list_head s"
        "own (ps @ [?p]) (mem s') = own ps (mem s)" "hdr_frame (set (ps @ [?p])) (mem s) (mem s')" "pmm_stack s' = butlast (pmm_stack s)"
        "\<not> used (mem s') ?p 0" "g_free_pages s' = g_free_pages s"
        by (simp only: simp_thms if_False) blast
      have wf': "nh_wf (ps @ [?p]) s'" using s'(2) by (simp flip: s'(3))
      obtain k where k: "slot k" "\<not> used (mem s') ?p k"
        "find_page (?p + PHYSICAL_MAP_OFFSET) s' = Some (?p + PHYSICAL_MAP_OFFSET, int k, s')"
        using find_page_free[of s' ?p 0] s'(7) nh_wfD(4)[OF wf'] by (auto simp: slot_def)
      then have "create_node s = Some (node_addr ?p k, s'\<lparr>mem := set_header_bit (mem s') (?p + PHYSICAL_MAP_OFFSET) (int k) True\<rparr>)"
        using 2(2) s'(1) h by (intro fin[of s]) auto
      then show ?thesis using s' k stk wf' by (intro exI[of _ "ps @ [?p]"] exI[of _ ?p] exI[of _ k] exI[of _ s']) auto
    qed
  qed
qed

section \<open>The interface of the node allocator\<close>

text \<open>
  What a client of the node allocator relies on. \<open>g\<close> is the list of node pages the state has, \<open>owned\<close>
  the nodes handed out: a new node is none of them, lies apart from them and leaves their bytes
  alone, and the client may write the nodes it owns as it likes.
\<close>

locale node_pool =
  fixes create :: "'s \<Rightarrow> (u64 \<times> 's) option"
    and cmem :: "'s \<Rightarrow> memory" and upd :: "memory \<Rightarrow> 's \<Rightarrow> 's"
    and ok :: "'g \<Rightarrow> 's \<Rightarrow> bool" and owned :: "'g \<Rightarrow> memory \<Rightarrow> u64 set"
    and room :: "'g \<Rightarrow> 's \<Rightarrow> bool" and grow :: "'g \<Rightarrow> 's \<Rightarrow> 'g \<Rightarrow> 's \<Rightarrow> bool"
  assumes create_fresh: "ok g s \<Longrightarrow> room g s \<Longrightarrow>
      \<exists>g' p s'. create s = Some (p, s') \<and> ok g' s' \<and> grow g s g' s' \<and> p \<notin> owned g (cmem s) \<and>
        owned g' (cmem s') = insert p (owned g (cmem s)) \<and>
        (\<forall>q\<in>owned g (cmem s). \<forall>x\<in>region q 48. cmem s' x = cmem s x)"
    and owned_sep: "ok g s \<Longrightarrow> p \<in> owned g (cmem s) \<Longrightarrow> q \<in> owned g (cmem s) \<Longrightarrow> p \<noteq> q \<Longrightarrow> sep p 48 q 48"
    and owned_nonzero: "ok g s \<Longrightarrow> p \<in> owned g (cmem s) \<Longrightarrow> p \<noteq> 0"
    and write_owned: "ok g s \<Longrightarrow> (\<And>x. (\<And>q. q \<in> owned g (cmem s) \<Longrightarrow> x \<notin> region q 48) \<Longrightarrow> m x = cmem s x) \<Longrightarrow>
      ok g (upd m s) \<and> owned g m = owned g (cmem s)"

definition win_frame :: "u64 set \<Rightarrow> memory \<Rightarrow> memory \<Rightarrow> bool" where
  "win_frame P m m' \<longleftrightarrow> (\<forall>x. (\<forall>p\<in>P. x \<notin> region (p + PHYSICAL_MAP_OFFSET) 4096) \<longrightarrow> m' x = m x)"

text \<open>How a page list grows: it stays the same, or takes the next free page.\<close>

definition pages_grow :: "u64 list \<Rightarrow> 'z node_heap_scheme \<Rightarrow> u64 list \<Rightarrow> 'z node_heap_scheme \<Rightarrow> bool" where
  "pages_grow ps s ps' s' \<longleftrightarrow>
     (ps' = ps \<and> pmm_stack s' = pmm_stack s \<or>
      pmm_stack s \<noteq> [] \<and> ps' = ps @ [last (pmm_stack s)] \<and> pmm_stack s' = butlast (pmm_stack s)) \<and>
     g_free_pages s' = g_free_pages s \<and> win_frame (set ps') (mem s) (mem s')"

lemma hdr_win_frame: "hdr_frame P m m' \<Longrightarrow> win_frame P m m'"
proof -
  have "x \<notin> region a 32" if "x \<notin> region a 4096" for x a using that by (simp add: region_def)
  then show "hdr_frame P m m' \<Longrightarrow> win_frame P m m'" unfolding hdr_frame_def win_frame_def by blast
qed

lemma nodes_region:
  assumes "nh_wf ps s" "q \<in> own ps (mem s)" "x \<in> region q 48" "\<forall>p\<in>P. phys_ok p"
  shows "\<forall>p\<in>P. x \<notin> region (p + PHYSICAL_MAP_OFFSET) 32"
proof
  fix p assume "p \<in> P"
  moreover obtain a k where "q = node_addr a k" "phys_ok a" "slot k"
    using nh_wfD(4)[OF assms(1)] assms(2) by (auto simp: own_def)
  ultimately show "x \<notin> region (p + PHYSICAL_MAP_OFFSET) 32"
    using node_header_sep[of a p k] slot_less assms(3,4) sep_region_disjoint by blast
qed

lemma nodes_in_window:
  assumes "nh_wf ps s" "q \<in> own ps (mem s)" "x \<in> region q 48"
  shows "\<exists>p\<in>set ps. x \<in> region (p + PHYSICAL_MAP_OFFSET) 4096 - region (p + PHYSICAL_MAP_OFFSET) 32"
proof -
  obtain p k where q: "q = node_addr p k" "p \<in> set ps" "slot k" using assms(2) by (auto simp: own_def)
  define d where "d = unat (x - q)"
  have d: "d < 48" "x = q + of_nat d" using assms(3) by (simp_all add: region_def d_def)
  have "x - (p + PHYSICAL_MAP_OFFSET) = of_nat (32 + 48 * k + d)"
    using d(2) by (simp add: q(1) node_addr_def)
  moreover have "unat (of_nat (32 + 48 * k + d) :: u64) = 32 + 48 * k + d"
    using d(1) slot_less[OF q(3)] by (simp add: unat_of_nat del: of_nat_add of_nat_mult)
  ultimately have "unat (x - (p + PHYSICAL_MAP_OFFSET)) = 32 + 48 * k + d" by metis
  then show ?thesis using q(2) d(1) slot_less[OF q(3)] by (intro bexI[of _ p]) (auto simp: region_def)
qed

lemma pte_cong:
  assumes "\<And>x. x \<in> region (entry_addr p i) 8 \<Longrightarrow> m x = m' x"
  shows "pte m p i = pte m' p i"
  unfolding pte_def using m64.ld_frame[of "entry_addr p i" 8 m m' 0] assms by simp

lemma own_cong: "(\<And>p k. p \<in> set ps \<Longrightarrow> slot k \<Longrightarrow> used m p k = used m' p k) \<Longrightarrow> own ps m = own ps m'"
  unfolding own_def by blast

lemma entry_region: "8 * unat i + 8 \<le> n \<Longrightarrow> n \<le> 2 ^ 64 \<Longrightarrow> region (entry_addr p i) 8 \<subseteq> region (p + PHYSICAL_MAP_OFFSET) n"
  using region_sub[of "8 * unat i" 8 n "p + PHYSICAL_MAP_OFFSET"] by (simp add: entry_addr_def)

lemma window_high:
  assumes "phys_ok p" "x \<in> region (p + PHYSICAL_MAP_OFFSET) 4096"
  shows "2 ^ 64 - 2 ^ 46 \<le> unat x"
proof -
  define d where "d = unat (x - (p + PHYSICAL_MAP_OFFSET))"
  have d: "d < 4096" "x = p + PHYSICAL_MAP_OFFSET + of_nat d" using assms(2) by (simp_all add: region_def d_def)
  define i where "i = (of_nat (d div 8) :: u64)"
  have i: "unat i = d div 8" using d(1) by (simp add: i_def unat_of_nat)
  have e: "x = entry_addr p i + of_nat (d mod 8)"
  proof -
    have "(of_nat d :: u64) = of_nat (8 * (d div 8) + d mod 8)" by simp
    then have "(of_nat d :: u64) = 8 * of_nat (d div 8) + of_nat (d mod 8)"
      by (simp only: of_nat_add of_nat_mult of_nat_numeral)
    then show ?thesis using d(2) by (simp add: entry_addr_def i_def)
  qed
  have "i < 512" using i d(1) by (simp add: word_less_nat_alt)
  note h = entry_addr_high[OF assms(1) this]
  have "unat (of_nat (d mod 8) :: u64) = d mod 8" by (simp add: unat_of_nat)
  then have "unat x = unat (entry_addr p i) + d mod 8" using h e by (simp add: unat_plus_if')
  then show ?thesis using h by simp
qed

lemma stack_frame:
  assumes low: "stack_low s" and m: "\<And>x. unat x < 2 ^ 64 - 2 ^ 46 \<Longrightarrow> m x = mem s x"
  shows "pmm_stack (s\<lparr>mem := m\<rparr>) = pmm_stack s"
proof -
  have "ld64 m (g_free_pages s + 8 * of_nat j) = ld64 (mem s) (g_free_pages s + 8 * of_nat j)"
    if "j < unat (g_free_index s)" for j
  proof (rule m64.ld_local)
    fix i assume "i < (8::nat)"
    then have "8 * j + i < 8 * unat (g_free_index s)" using that by simp
    then have "unat (g_free_pages s) + (8 * j + i) < 2 ^ 64 - 2 ^ 46" using low by (simp add: stack_low_def)
    moreover from this have "unat (g_free_pages s + of_nat (8 * j + i)) = unat (g_free_pages s) + (8 * j + i)"
      by (simp add: unat_plus_if' unat_of_nat del: of_nat_add of_nat_mult)
    ultimately show "m (g_free_pages s + 8 * of_nat j + of_nat i) = mem s (g_free_pages s + 8 * of_nat j + of_nat i)"
      by (intro m) (simp add: add.assoc)
  qed
  then show ?thesis by (simp add: pmm_stack_def)
qed

lemma window_disjoint:
  "phys_ok p \<Longrightarrow> phys_ok q \<Longrightarrow> p \<noteq> q \<Longrightarrow> x \<in> region (p + PHYSICAL_MAP_OFFSET) 4096 \<Longrightarrow> x \<notin> region (q + PHYSICAL_MAP_OFFSET) 4096"
  using sep_region_disjoint[OF window_sep[of q p]] by blast

lemma nh_wf_write:
  assumes wf: "nh_wf ps s" and m: "\<And>x. (\<And>q. q \<in> own ps (mem s) \<Longrightarrow> x \<notin> region q 48) \<Longrightarrow> m x = mem s x"
  shows "nh_wf ps (s\<lparr>mem := m\<rparr>)" "own ps m = own ps (mem s)" "pmm_stack (s\<lparr>mem := m\<rparr>) = pmm_stack s"
    "win_frame (set ps) (mem s) m"
proof -
  note w = nh_wfD[OF wf]
  have out: "m x = mem s x" if "\<And>p. p \<in> set ps \<Longrightarrow> x \<notin> region (p + PHYSICAL_MAP_OFFSET) 4096 - region (p + PHYSICAL_MAP_OFFSET) 32" for x
    using m nodes_in_window[OF wf] that by blast
  show "win_frame (set ps) (mem s) m" unfolding win_frame_def using out by blast
  have hd: "pte m p i = pte (mem s) p i" if "p \<in> set ps" "i < 4" for p i
  proof (rule pte_cong)
    fix x assume x: "x \<in> region (entry_addr p i) 8"
    have "x \<in> region (p + PHYSICAL_MAP_OFFSET) 32"
      using x entry_region[of i 32 p] that(2) by (auto simp: word_less_nat_alt)
    moreover from this have "x \<in> region (p + PHYSICAL_MAP_OFFSET) 4096" by (simp add: region_def)
    ultimately show "m x = mem s x" using that(1) w(4) by (intro out) (metis Diff_iff window_disjoint)
  qed
  have other: "pte m p i = pte (mem s) p i" if "phys_ok p" "p \<notin> set ps" "i < 512" for p i
  proof (rule pte_cong)
    fix x assume "x \<in> region (entry_addr p i) 8"
    then have "x \<in> region (p + PHYSICAL_MAP_OFFSET) 4096"
      using entry_region[of i 4096 p] that(3) by (auto simp: word_less_nat_alt)
    then show "m x = mem s x" using that w(4) by (intro out) (metis Diff_iff window_disjoint)
  qed
  show stk: "pmm_stack (s\<lparr>mem := m\<rparr>) = pmm_stack s"
    using w(4) by (intro stack_frame[OF w(3)] out) (metis Diff_iff window_high not_less)
  have us: "used m p k = used (mem s) p k" if "p \<in> set ps" "k < 128" for p k
  proof -
    have "k div 64 < 2" using that by simp
    then have "(2 + of_nat (k div 64) :: u64) < 4" by (auto simp: less_2_cases_iff)
    then show ?thesis using hd[OF that(1)] by (simp add: used_def)
  qed
  show "own ps m = own ps (mem s)" by (rule own_cong) (use us slot_less in force)
  have "chain m 0 (g_node_list_head s) ps" using w(1) hd by (subst chain_frame[of _ _ "mem s"]) auto
  moreover have "hdr_ok m p" if "p \<in> set ps" for p using us[OF that] w(4)[OF that] by (simp add: hdr_ok_def)
  moreover have "pte m p i = 0" if "p \<in> set (pmm_stack s)" "i < 512" for p i
    using that other[of p i] w(2,5,6) by auto
  ultimately show "nh_wf ps (s\<lparr>mem := m\<rparr>)" unfolding nh_wf_def stk using w by (auto simp: stack_low_def)
qed


lemma win_frame_trans: "win_frame P m m' \<Longrightarrow> win_frame Q m' m'' \<Longrightarrow> P \<subseteq> R \<Longrightarrow> Q \<subseteq> R \<Longrightarrow> win_frame R m m''"
  unfolding win_frame_def by (metis subsetD)

interpretation nodes: node_pool create_node mem "\<lambda>m s. s\<lparr>mem := m\<rparr>" nh_wf own node_room pages_grow
proof unfold_locales
  fix ps and s :: "'z node_heap_scheme"
  assume wf: "nh_wf ps s"
  show "sep p 48 q 48" if "p \<in> own ps (mem s)" "q \<in> own ps (mem s)" "p \<noteq> q" for p q
    using that nh_wfD(4)[OF wf] node_sep slot_less unfolding own_def by blast
  show "p \<noteq> 0" if p: "p \<in> own ps (mem s)" for p
  proof -
    obtain a where "a \<in> set ps" "p \<in> region (a + PHYSICAL_MAP_OFFSET) 4096"
      using nodes_in_window[OF wf p, of p] by (auto simp: region_def)
    then have "2 ^ 64 - 2 ^ 46 \<le> unat p" using window_high nh_wfD(4)[OF wf] by blast
    then show ?thesis by auto
  qed
  show "nh_wf ps (s\<lparr>mem := m\<rparr>) \<and> own ps m = own ps (mem s)"
    if "\<And>x. (\<And>q. q \<in> own ps (mem s) \<Longrightarrow> x \<notin> region q 48) \<Longrightarrow> m x = mem s x" for m
    using nh_wf_write[OF wf that] by blast
  assume room: "node_room ps s"
  from create_node_page[OF wf room] obtain ps' p k s1 where
    c: "create_node s = Some (node_addr p k, s1\<lparr>mem := set_header_bit (mem s1) (p + PHYSICAL_MAP_OFFSET) (int k) True\<rparr>)"
      "nh_wf ps' s1" "p \<in> set ps'" "slot k" "\<not> used (mem s1) p k" "own ps' (mem s1) = own ps (mem s)"
      "hdr_frame (set ps') (mem s) (mem s1)" "g_free_pages s1 = g_free_pages s"
      "ps' = ps \<and> pmm_stack s1 = pmm_stack s \<or>
       pmm_stack s \<noteq> [] \<and> ps' = ps @ [last (pmm_stack s)] \<and> pmm_stack s1 = butlast (pmm_stack s)" by blast
  note mk = mark_spec[OF c(2-5)]
  let ?m = "set_header_bit (mem s1) (p + PHYSICAL_MAP_OFFSET) (int k) True"
  have fr: "hdr_frame (set ps') (mem s) ?m" using hdr_frame_trans[OF c(7) mk(3)] by simp
  have "pages_grow ps s ps' (s1\<lparr>mem := ?m\<rparr>)"
    unfolding pages_grow_def mk(4) using c(8,9) hdr_win_frame[OF fr] by simp
  moreover have "?m x = mem s x" if "q \<in> own ps (mem s)" "x \<in> region q 48" for q x
    using nodes_region[OF wf that, of "set ps'"] fr nh_wfD(4)[OF c(2)] unfolding hdr_frame_def by blast
  ultimately show "\<exists>ps' p s'. create_node s = Some (p, s') \<and> nh_wf ps' s' \<and> pages_grow ps s ps' s' \<and>
      p \<notin> own ps (mem s) \<and> own ps' (mem s') = insert p (own ps (mem s)) \<and>
      (\<forall>q\<in>own ps (mem s). \<forall>x\<in>region q 48. mem s' x = mem s x)"
    using c(1,6) mk(1,2,5) by (intro exI[of _ ps'] exI[of _ "node_addr p k"] exI[of _ "s1\<lparr>mem := ?m\<rparr>"]) auto
qed


lemma aligned_offset:
  assumes "(a::u64) mod 4096 = 0" "c < 4096"
  shows "(a + of_nat c) mod 4096 = of_nat c"
proof -
  have "4096 dvd unat a" using assms(1) by (auto simp: aligned_unat mod_eq_0_iff_dvd)
  then have "unat a + 4096 \<le> 2 ^ 64" using unat_u64_less[of a] by (auto simp: dvd_def)
  then have "unat (a + of_nat c) = unat a + c" using assms(2) by (simp add: unat_plus_if' unat_of_nat)
  then have "unat ((a + of_nat c) mod 4096) = c"
    using \<open>4096 dvd unat a\<close> assms(2) by (simp add: unat_mod_distrib mod_add_left_eq[symmetric])
  then show ?thesis using assms(2) by (simp add: word_unat_eq_iff unat_of_nat)
qed

lemma node_page:
  assumes "phys_ok p" "k < 84"
  shows "get_node_page (node_addr p k) = p + PHYSICAL_MAP_OFFSET"
proof -
  have "(p + PHYSICAL_MAP_OFFSET) mod 4096 = 0"
    using assms(1) aligned_add[of p PHYSICAL_MAP_OFFSET] by (simp add: phys_ok_def PHYSICAL_MAP_OFFSET_def)
  from aligned_offset[OF this, of "32 + 48 * k"] show ?thesis
    using assms(2) by (simp add: get_node_page_def node_addr_def)
qed

lemma bit_not_one_shift:
  assumes "b < 32"
  shows "bit (scast (NOT (2 ^ b :: u32)) :: u64) n \<longleftrightarrow> n < 64 \<and> min 31 n \<noteq> b"
  using assms by (auto simp: bit_simps min_def)

text \<open>The offset \<open>free_node\<close> computes is negative, and the bit it clears is that of another node.\<close>

lemma free_node_clear:
  assumes "phys_ok p" "0 < k" "k < 32"
  shows "set_header_bit m (p + PHYSICAL_MAP_OFFSET)
      (sint (PAGE_NODES (p + PHYSICAL_MAP_OFFSET) - node_addr p k) sdiv int AVL_NODE_SIZE) False =
    st64 m (entry_addr p 2) (pte m p 2 AND scast (NOT (2 ^ (32 - k) :: u32)))"
proof -
  have "PAGE_NODES (p + PHYSICAL_MAP_OFFSET) - node_addr p k = - of_nat (48 * k)"
    by (simp add: PAGE_NODES_def node_addr_def)
  moreover have "sint (- of_nat (48 * k) :: u64) = - int (48 * k)"
  proof -
    have "(- of_nat (48 * k) :: u64) = word_of_int (- int (48 * k))" by simp
    then show ?thesis using assms(3) by (simp only: signed_of_int) (simp add: signed_take_bit_int_eq_self)
  qed
  ultimately have idx: "sint (PAGE_NODES (p + PHYSICAL_MAP_OFFSET) - node_addr p k) sdiv int AVL_NODE_SIZE = - int k"
    by (simp add: AVL_NODE_SIZE_def signed_divide_int_def sgn_if)
  have "- int k sdiv 64 = 0" "- int k smod 64 = - int k" "(- int k) mod 32 = int (32 - k)"
    using assms(2,3) by (auto simp: signed_divide_int_def signed_modulo_int_def zmod_zminus1_eq_if of_nat_diff)
  moreover have "nat (32 - int k) = 32 - k" using assms(3) by (simp add: nat_diff_distrib)
  ultimately show ?thesis
    using assms by (simp add: idx set_header_bit_def Let_def pte_def entry_addr_def PAGE_HEADER_def)
qed

lemma free_node_marked:
  assumes "phys_ok p" "0 < k" "k < 32" "k \<noteq> 16" "used (mem s) p k"
  shows "free_node (node_addr p k) s =
    s\<lparr>mem := st64 (mem s) (entry_addr p 2) (pte (mem s) p 2 AND scast (NOT (2 ^ (32 - k) :: u32)))\<rparr>"
proof -
  let ?h = "pte (mem s) p 2 AND scast (NOT (2 ^ (32 - k) :: u32))"
  have "bit ?h k" using assms by (auto simp: bit_and_iff bit_not_one_shift used_def)
  then have "?h \<noteq> 0" by auto
  moreover have "header (st64 m (entry_addr p 2) ?h) (p + PHYSICAL_MAP_OFFSET) 0 = ?h" for m
    by (simp add: header_pte) (simp add: pte_def)
  ultimately show ?thesis
    using assms(1,3) by (simp add: free_node_def Let_def free_node_clear[OF assms(1-3)] node_page del: bit.conj_cancel_right)
qed

section \<open>Properties\<close>

definition demo_nodes :: node_heap where
  "demo_nodes = \<lparr>mem = mem demo_vm, cr3 = 0, g_free_pages = 0x400000, g_free_index = 3, g_ranges = [],
     g_ranges_size = 0, g_ap_low_page = 0, g_node_list_head = 0\<rparr>"

lemma demo_nodes_wf: "nh_wf [] demo_nodes" "node_room [] demo_nodes" "pmm_stack demo_nodes = [0x2000, 0x3000, 0x4000]"
proof -
  have "pmm_stack demo_nodes = pmm_stack demo_vm" by (simp add: demo_nodes_def demo_vm_def pmm_stack_def)
  then show stk: "pmm_stack demo_nodes = [0x2000, 0x3000, 0x4000]" by (simp add: demo_vm_stack)
  have "pt_wf (mem demo_vm) 0x1000 (set (pmm_stack demo_vm))" using demo_vm_fresh(1) by (simp add: vm_wf_def)
  note z = pt_wfD(3,4)[OF this]
  show "nh_wf [] demo_nodes" unfolding nh_wf_def stk
    using z by (auto simp: demo_nodes_def demo_vm_stack stack_low_def)
  show "node_room [] demo_nodes" unfolding node_room_def stk by simp
qed

text \<open>
  C14. \<open>create_node\<close> returns, and what it returns is a node that nobody holds: when the page list is
  well formed and there is a free slot or a free page, the new node is none of the nodes handed out
  before, lies apart from all of them, leaves their bytes unchanged and is the only node added. Its
  index in its page is below 32 or at least 64: the nodes 32 to 63 of a page are never used.
\<close>

theorem create_node_fresh:
  assumes "nh_wf ps s" "node_room ps s"
  shows "\<exists>ps' a p k s'. create_node s = Some (a, s') \<and> nh_wf ps' s' \<and> a = node_addr p k \<and> p \<in> set ps' \<and> slot k \<and>
    a \<notin> own ps (mem s) \<and> own ps' (mem s') = insert a (own ps (mem s)) \<and>
    (\<forall>q\<in>own ps (mem s). sep a 48 q 48 \<and> (\<forall>x\<in>region q 48. mem s' x = mem s x))"
proof -
  from nodes.create_fresh[OF assms] obtain ps' a s' where
    c: "create_node s = Some (a, s')" "nh_wf ps' s'" "a \<notin> own ps (mem s)"
      "own ps' (mem s') = insert a (own ps (mem s))" "\<forall>q\<in>own ps (mem s). \<forall>x\<in>region q 48. mem s' x = mem s x" by blast
  have "sep a 48 q 48" if "q \<in> own ps (mem s)" for q
    using nodes.owned_sep[OF c(2), of a q] c(3,4) that by auto
  moreover obtain p k where "a = node_addr p k" "p \<in> set ps'" "slot k" using c(4) unfolding own_def by blast
  ultimately show ?thesis using c by blast
qed

theorem create_node_fresh_witness:
  "\<exists>ps' a s'. create_node demo_nodes = Some (a, s') \<and> nh_wf ps' s' \<and> own ps' (mem s') = {a}"
  using create_node_fresh[OF demo_nodes_wf(1,2)] by (auto simp: own_def)

text \<open>
  C24. \<open>free_node\<close> does not release the node it is given: for a node in use with an index from 1 to 31
  other than 16, that node stays marked and the mark of node \<open>32 - k\<close> of the same page is cleared,
  whoever holds it, because the code subtracts the node from the array and not the array from the node.
\<close>

theorem free_node_other:
  assumes "phys_ok p" "0 < k" "k < 32" "k \<noteq> 16" "used (mem s) p k" "slot j"
  shows "used (mem (free_node (node_addr p k) s)) p j \<longleftrightarrow> used (mem s) p j \<and> j \<noteq> 32 - k"
proof -
  have "pte (mem (free_node (node_addr p k) s)) p i =
      (if i = 2 then pte (mem s) p 2 AND scast (NOT (2 ^ (32 - k) :: u32)) else pte (mem s) p i)" if "i < 512" for i
    using that assms(1) by (simp add: free_node_marked[OF assms(1-5)] pte_st_ok)
  then show ?thesis using assms(2,3)
    by (cases rule: slot_cases[OF assms(6)]) (auto simp: used_def bit_and_iff bit_not_one_shift)
qed

definition demo_used :: node_heap where
  "demo_used = demo_nodes\<lparr>mem := st64 (mem demo_nodes) (entry_addr 0x5000 2) 0xffffffffffffffff\<rparr>"

theorem free_node_other_witness:
  "used (mem (free_node (node_addr 0x5000 5) demo_used)) 0x5000 5 \<and>
   \<not> used (mem (free_node (node_addr 0x5000 5) demo_used)) 0x5000 27"
proof -
  have "used (mem demo_used) 0x5000 5" by (simp add: demo_used_def used_def pte_st)
  then show ?thesis
    using free_node_other[of "0x5000" 5 demo_used 5] free_node_other[of "0x5000" 5 demo_used 27]
    by (simp add: phys_ok_def slot_def)
qed

end
