(* ===== verification/Avl_Tree.thy ===== *)
theory Avl_Tree
  imports Node_Alloc "HOL-Library.Tree"
begin

text \<open>
  The AVL tree of address ranges (\<^verbatim>\<open>kernel/system/mem_mgmt/vmm/avl_tree.c\<close>). The nodes live in the
  memory at the addresses the node allocator hands out; a node is read as the \<open>struct avl_node\<close> at its
  address. The functions that follow the pointers of a tree are partial: on a cyclic structure they
  do not return.
\<close>

section \<open>Data\<close>

record avl_node =
  nd_addr :: u64
  nd_page_count :: u64
  nd_allocated :: u8
  nd_left :: u64
  nd_right :: u64
  nd_height :: u16

definition node_at :: "memory \<Rightarrow> u64 \<Rightarrow> avl_node" where
  "node_at m p = \<lparr>nd_addr = ld64 m p, nd_page_count = ld64 m (p + 8), nd_allocated = ld8 m (p + 16),
     nd_left = ld64 m (p + 24), nd_right = ld64 m (p + 32), nd_height = ld16 m (p + 40)\<rparr>"

definition set_addr :: "memory \<Rightarrow> u64 \<Rightarrow> u64 \<Rightarrow> memory" where "set_addr m p v = st64 m p v"
definition set_page_count :: "memory \<Rightarrow> u64 \<Rightarrow> u64 \<Rightarrow> memory" where "set_page_count m p v = st64 m (p + 8) v"
definition set_allocated :: "memory \<Rightarrow> u64 \<Rightarrow> u8 \<Rightarrow> memory" where "set_allocated m p v = st8 m (p + 16) v"
definition set_left :: "memory \<Rightarrow> u64 \<Rightarrow> u64 \<Rightarrow> memory" where "set_left m p v = st64 m (p + 24) v"
definition set_right :: "memory \<Rightarrow> u64 \<Rightarrow> u64 \<Rightarrow> memory" where "set_right m p v = st64 m (p + 32) v"
definition set_height :: "memory \<Rightarrow> u64 \<Rightarrow> u16 \<Rightarrow> memory" where "set_height m p v = st16 m (p + 40) v"

lemmas node_stores = set_addr_def set_page_count_def set_allocated_def set_left_def set_right_def set_height_def

section \<open>Operations\<close>

definition node_height :: "memory \<Rightarrow> u64 \<Rightarrow> u16" where
  "node_height m node =
     (if node = 0 then 0
      else let n = node_at m node;
               lh = (if nd_left n \<noteq> 0 then nd_height (node_at m (nd_left n)) + 1 else 0);
               rh = (if nd_right n \<noteq> 0 then nd_height (node_at m (nd_right n)) + 1 else 0)
           in if lh > rh then lh else rh)"

definition balance :: "memory \<Rightarrow> u64 \<Rightarrow> u8" where
  "balance m node =
     (if node = 0 then 0
      else let n = node_at m node;
               lh = (if nd_left n \<noteq> 0 then ucast (nd_height (node_at m (nd_left n))) + 1 else 0 :: u32);
               rh = (if nd_right n \<noteq> 0 then ucast (nd_height (node_at m (nd_right n))) + 1 else 0 :: u32)
           in ucast (rh - lh))"

definition rotate_left :: "memory \<Rightarrow> u64 \<Rightarrow> u64 \<times> memory" where
  "rotate_left m x =
     (let z = nd_right (node_at m x);
          m = set_right m x (nd_left (node_at m z));
          m = set_left m z x;
          m = set_height m x (node_height m x);
          m = set_height m z (node_height m z)
      in (z, m))"

definition rotate_right :: "memory \<Rightarrow> u64 \<Rightarrow> u64 \<times> memory" where
  "rotate_right m x =
     (let z = nd_left (node_at m x);
          m = set_left m x (nd_right (node_at m z));
          m = set_right m z x;
          m = set_height m x (node_height m x);
          m = set_height m z (node_height m z)
      in (z, m))"

text \<open>The end of \<open>_insert_node\<close> and of \<open>_delete_node\<close>; \<open>int8_t\<close> values are compared as bytes.\<close>

definition rebalance :: "memory \<Rightarrow> u64 \<Rightarrow> u64 \<times> memory" where
  "rebalance m node =
     (let b = balance m node;
          (node, m) =
            (if b = - 2
             then let m = (if balance m (nd_left (node_at m node)) = 1
                           then let (z, m) = rotate_left m (nd_left (node_at m node)) in set_left m node z
                           else m)
                  in rotate_right m node
             else if b = 2
             then let m = (if balance m (nd_right (node_at m node)) = - 1
                           then let (z, m) = rotate_right m (nd_right (node_at m node)) in set_right m node z
                           else m)
                  in rotate_left m node
             else (node, m))
      in (node, set_height m node (node_height m node)))"

partial_function (option) insert_node ::
  "u64 \<Rightarrow> u64 \<Rightarrow> u64 \<Rightarrow> 'z node_heap_scheme \<Rightarrow> (u64 \<times> 'z node_heap_scheme) option" where
  "insert_node node addr page_count s =
     (if node = 0
      then do {
        (node, s) \<leftarrow> create_node s;
        let m = set_addr (mem s) node addr;
        let m = set_page_count m node page_count;
        let m = set_left m node 0;
        let m = set_right m node 0;
        let m = set_allocated m node 0;
        let (node, m) = rebalance m node;
        Some (node, s\<lparr>mem := m\<rparr>)
      }
      else if addr < nd_addr (node_at (mem s) node)
      then do {
        (l, s) \<leftarrow> insert_node (nd_left (node_at (mem s) node)) addr page_count s;
        let (node, m) = rebalance (set_left (mem s) node l) node;
        Some (node, s\<lparr>mem := m\<rparr>)
      }
      else if addr > nd_addr (node_at (mem s) node)
      then do {
        (r, s) \<leftarrow> insert_node (nd_right (node_at (mem s) node)) addr page_count s;
        let (node, m) = rebalance (set_right (mem s) node r) node;
        Some (node, s\<lparr>mem := m\<rparr>)
      }
      else let m = set_addr (mem s) node addr;
               m = set_page_count m node page_count;
               m = set_allocated m node 0
           in Some (node, s\<lparr>mem := m\<rparr>))"

declare insert_node.simps [code]

text \<open>
  The loop that looks for the successor of a node with two children. \<open>parent\<close> is not initialised in
  the code: its first value \<open>junk\<close> is a parameter of the model.
\<close>

partial_function (option) find_min :: "memory \<Rightarrow> u64 \<Rightarrow> u64 \<Rightarrow> (u64 \<times> u64) option" where
  "find_min m ptr parent =
     (if nd_left (node_at m ptr) \<noteq> 0 then find_min m (nd_left (node_at m ptr)) ptr else Some (ptr, parent))"

declare find_min.simps [code]

definition replace_by_successor :: "u64 \<Rightarrow> u64 \<Rightarrow> 'z node_heap_scheme \<Rightarrow> 'z node_heap_scheme option" where
  "replace_by_successor node junk s = do {
     (ptr, parent) \<leftarrow> find_min (mem s) (nd_right (node_at (mem s) node)) junk;
     let n = node_at (mem s) ptr;
     let m = set_addr (mem s) node (nd_addr n);
     let m = set_page_count m node (nd_page_count (node_at m ptr));
     let m = set_allocated m node (nd_allocated (node_at m ptr));
     let right = nd_right (node_at m ptr);
     let m = (if right \<noteq> 0 \<and> parent = 0 then set_right m node right
              else if right \<noteq> 0 then set_left m parent right
              else if parent \<noteq> 0 then set_left m parent 0
              else m);
     Some (free_node ptr (s\<lparr>mem := m\<rparr>))
   }"

partial_function (option) delete_node ::
  "u64 \<Rightarrow> u64 \<Rightarrow> u64 \<Rightarrow> 'z node_heap_scheme \<Rightarrow> (u64 \<times> 'z node_heap_scheme) option" where
  "delete_node node addr junk s =
     (let finish = (\<lambda>node s. let (node, m) = rebalance (mem s) node in Some (node, s\<lparr>mem := m\<rparr>));
          n = node_at (mem s) node
      in if node = 0 then Some (0, s)
         else if addr < nd_addr n
         then do {
           (l, s) \<leftarrow> delete_node (nd_left n) addr junk s;
           finish node (s\<lparr>mem := set_left (mem s) node l\<rparr>)
         }
         else if addr > nd_addr n
         then do {
           (r, s) \<leftarrow> delete_node (nd_right n) addr junk s;
           finish node (s\<lparr>mem := set_right (mem s) node r\<rparr>)
         }
         else if nd_left n = 0 \<and> nd_right n = 0 then Some (0, free_node node s)
         else if nd_left n \<noteq> 0 \<and> nd_right n = 0 then finish (nd_left n) (free_node node s)
         else if nd_left n = 0 \<and> nd_right n \<noteq> 0 then finish (nd_right n) (free_node node s)
         else do {
           s \<leftarrow> replace_by_successor node junk s;
           finish node s
         })"

declare delete_node.simps [code]

text \<open>The \<open>struct memory_manager\<close> the exported functions work on: \<open>tree\<close>, \<open>pml4t\<close> and \<open>lock\<close>.\<close>

definition mgr_tree :: "memory \<Rightarrow> u64 \<Rightarrow> u64" where "mgr_tree m mgr = ld64 m mgr"
definition mgr_pml4t :: "memory \<Rightarrow> u64 \<Rightarrow> u64" where "mgr_pml4t m mgr = ld64 m (mgr + 8)"
definition mgr_lock :: "memory \<Rightarrow> u64 \<Rightarrow> u8" where "mgr_lock m mgr = ld8 m (mgr + 16)"

definition avl_insert :: "u64 \<Rightarrow> u64 \<Rightarrow> u64 \<Rightarrow> 'z node_heap_scheme \<Rightarrow> 'z node_heap_scheme option" where
  "avl_insert tree addr page_count s = do {
     (node, s) \<leftarrow> insert_node (mgr_tree (mem s) tree) addr page_count s;
     Some (s\<lparr>mem := st64 (mem s) tree node\<rparr>)
   }"

definition avl_remove :: "u64 \<Rightarrow> u64 \<Rightarrow> u64 \<Rightarrow> 'z node_heap_scheme \<Rightarrow> 'z node_heap_scheme option" where
  "avl_remove tree addr junk s = do {
     (node, s) \<leftarrow> delete_node (mgr_tree (mem s) tree) addr junk s;
     Some (s\<lparr>mem := st64 (mem s) tree node\<rparr>)
   }"

partial_function (option) avl_min_size :: "memory \<Rightarrow> u64 \<Rightarrow> u64 \<Rightarrow> u64 option" where
  "avl_min_size m node page_count =
     (let n = node_at m node in do {
        r \<leftarrow> (if nd_right n \<noteq> 0 then avl_min_size m (nd_right n) page_count else Some 0);
        if r \<noteq> 0 then Some r
        else if nd_page_count n \<ge> page_count \<and> nd_allocated n = 0 then Some node
        else if nd_left n \<noteq> 0 then avl_min_size m (nd_left n) page_count
        else Some 0
      })"

declare avl_min_size.simps [code]

partial_function (option) avl_below :: "memory \<Rightarrow> u64 \<Rightarrow> u64 \<Rightarrow> u64 option" where
  "avl_below m node addr =
     (let n = node_at m node;
          diff = sint (ucast (addr - (nd_addr n + nd_page_count n * 0x1000)) :: u32)
      in if diff = 0 then Some node
         else if diff < 0 then (if nd_left n \<noteq> 0 then avl_below m (nd_left n) addr else Some 0)
         else (if nd_right n \<noteq> 0 then avl_below m (nd_right n) addr else Some 0))"

declare avl_below.simps [code]

partial_function (option) avl_find :: "memory \<Rightarrow> u64 \<Rightarrow> u64 \<Rightarrow> u64 option" where
  "avl_find m node addr =
     (let n = node_at m node
      in if nd_addr n = addr then Some node
         else if addr < nd_addr n then (if nd_left n \<noteq> 0 then avl_find m (nd_left n) addr else Some 0)
         else (if nd_right n \<noteq> 0 then avl_find m (nd_right n) addr else Some 0))"

declare avl_find.simps [code]

section \<open>Trees in memory\<close>

text \<open>
  A node of the abstract tree carries the address it is stored at and the fields of the structure
  other than the child pointers.
\<close>

record label =
  lp :: u64
  laddr :: u64
  lpages :: u64
  lalloc :: u8
  lheight :: u16

type_synonym avl = "label tree"

fun root :: "avl \<Rightarrow> u64" where
  "root Leaf = 0"
| "root (Node l x r) = lp x"

fun tree_in :: "(u64 \<Rightarrow> avl_node) \<Rightarrow> avl \<Rightarrow> bool" where
  "tree_in H Leaf \<longleftrightarrow> True"
| "tree_in H (Node l x r) \<longleftrightarrow> lp x \<noteq> 0 \<and>
     H (lp x) = \<lparr>nd_addr = laddr x, nd_page_count = lpages x, nd_allocated = lalloc x,
       nd_left = root l, nd_right = root r, nd_height = lheight x\<rparr> \<and> tree_in H l \<and> tree_in H r"

definition ptr_list :: "avl \<Rightarrow> u64 list" where "ptr_list t = map lp (inorder t)"

lemma ptr_list_simps [simp]:
  "ptr_list Leaf = []" "ptr_list (Node l x r) = ptr_list l @ lp x # ptr_list r"
  by (simp_all add: ptr_list_def)

abbreviation "ptrs t \<equiv> set (ptr_list t)"

definition apart :: "u64 set \<Rightarrow> bool" where
  "apart P \<longleftrightarrow> (\<forall>p\<in>P. \<forall>q\<in>P. p \<noteq> q \<longrightarrow> sep p 48 q 48)"

lemma apartD: "apart P \<Longrightarrow> p \<in> P \<Longrightarrow> q \<in> P \<Longrightarrow> p \<noteq> q \<Longrightarrow> sep p 48 q 48"
  by (simp add: apart_def)

lemma apart_mono: "apart P \<Longrightarrow> Q \<subseteq> P \<Longrightarrow> apart Q" by (auto simp: apart_def)

lemma tree_in_cong: "(\<And>p. p \<in> ptrs t \<Longrightarrow> H p = H' p) \<Longrightarrow> tree_in H t = tree_in H' t"
  by (induction t) auto

lemma root_zero: "tree_in H t \<Longrightarrow> root t = 0 \<longleftrightarrow> t = Leaf"
  by (cases t) auto

lemma node_at_cong:
  assumes "\<And>x. x \<in> region p 48 \<Longrightarrow> m x = m' x"
  shows "node_at m p = node_at m' p"
  using m64.ld_frame[of p 48 m m' 0] m64.ld_frame[of p 48 m m' 8] m8.ld_frame[of p 48 m m' 16]
    m64.ld_frame[of p 48 m m' 24] m64.ld_frame[of p 48 m m' 32] m16.ld_frame[of p 48 m m' 40] assms
  by (simp add: node_at_def)

lemma node_store_out:
  assumes "x \<notin> region p 48"
  shows "set_addr m p a x = m x" "set_page_count m p a x = m x" "set_allocated m p b x = m x"
    "set_left m p a x = m x" "set_right m p a x = m x" "set_height m p h x = m x"
proof -
  have "x \<notin> region (p + of_nat i) n" if "i + n \<le> 48" for i n
    using region_sub[of i n 48 p] that assms by auto
  from this[of 0 8] this[of 8 8] this[of 16 1] this[of 24 8] this[of 32 8] this[of 40 2]
  show "set_addr m p a x = m x" "set_page_count m p a x = m x" "set_allocated m p b x = m x"
    "set_left m p a x = m x" "set_right m p a x = m x" "set_height m p h x = m x"
    by (simp_all add: node_stores m64.st_region m8.st_region m16.st_region)
qed

lemma node_at_store_other:
  assumes "sep p 48 q 48"
  shows "node_at (set_addr m p a) q = node_at m q" "node_at (set_page_count m p a) q = node_at m q"
    "node_at (set_allocated m p b) q = node_at m q" "node_at (set_left m p a) q = node_at m q"
    "node_at (set_right m p a) q = node_at m q" "node_at (set_height m p h) q = node_at m q"
  by (rule node_at_cong, rule node_store_out, rule sep_region_disjoint[OF assms], assumption)+

lemma node_at_store_same:
  "node_at (set_addr m p a) p = (node_at m p)\<lparr>nd_addr := a\<rparr>"
  "node_at (set_page_count m p a) p = (node_at m p)\<lparr>nd_page_count := a\<rparr>"
  "node_at (set_allocated m p b) p = (node_at m p)\<lparr>nd_allocated := b\<rparr>"
  "node_at (set_left m p a) p = (node_at m p)\<lparr>nd_left := a\<rparr>"
  "node_at (set_right m p a) p = (node_at m p)\<lparr>nd_right := a\<rparr>"
  "node_at (set_height m p h) p = (node_at m p)\<lparr>nd_height := h\<rparr>"
  by (simp_all add: node_at_def node_stores ld_sep sep_def)


text \<open>A store to a node of a set of separated nodes, as an update of the heap of nodes.\<close>

lemma node_at_store:
  assumes "apart P" "p \<in> P" "q \<in> P"
  shows "node_at (set_addr m p a) q = (if q = p then (node_at m p)\<lparr>nd_addr := a\<rparr> else node_at m q)"
    "node_at (set_page_count m p a) q = (if q = p then (node_at m p)\<lparr>nd_page_count := a\<rparr> else node_at m q)"
    "node_at (set_allocated m p b) q = (if q = p then (node_at m p)\<lparr>nd_allocated := b\<rparr> else node_at m q)"
    "node_at (set_left m p a) q = (if q = p then (node_at m p)\<lparr>nd_left := a\<rparr> else node_at m q)"
    "node_at (set_right m p a) q = (if q = p then (node_at m p)\<lparr>nd_right := a\<rparr> else node_at m q)"
    "node_at (set_height m p h) q = (if q = p then (node_at m p)\<lparr>nd_height := h\<rparr> else node_at m q)"
  using node_at_store_same[of m p] node_at_store_other[OF apartD[OF assms]] by auto

section \<open>The operations on abstract trees\<close>

fun hgt :: "avl \<Rightarrow> u16" where
  "hgt Leaf = 0"
| "hgt (Node l x r) = lheight x + 1"

fun hgt32 :: "avl \<Rightarrow> u32" where
  "hgt32 Leaf = 0"
| "hgt32 (Node l x r) = ucast (lheight x) + 1"

fun new_height :: "avl \<Rightarrow> u16" where
  "new_height Leaf = 0"
| "new_height (Node l x r) = max (hgt l) (hgt r)"

fun bal :: "avl \<Rightarrow> u8" where
  "bal Leaf = 0"
| "bal (Node l x r) = ucast (hgt32 r - hgt32 l)"

fun fix_height :: "avl \<Rightarrow> avl" where
  "fix_height Leaf = Leaf"
| "fix_height (Node l x r) = Node l (x\<lparr>lheight := max (hgt l) (hgt r)\<rparr>) r"

fun rot_left :: "avl \<Rightarrow> avl" where
  "rot_left (Node a x (Node b z c)) = fix_height (Node (fix_height (Node a x b)) z c)"
| "rot_left t = t"

fun rot_right :: "avl \<Rightarrow> avl" where
  "rot_right (Node (Node a z b) x c) = fix_height (Node a z (fix_height (Node b x c)))"
| "rot_right t = t"

fun reb :: "avl \<Rightarrow> avl" where
  "reb Leaf = Leaf"
| "reb (Node l x r) = fix_height
     (if bal (Node l x r) = - 2 then rot_right (Node (if bal l = 1 then rot_left l else l) x r)
      else if bal (Node l x r) = 2 then rot_left (Node l x (if bal r = - 1 then rot_right r else r))
      else Node l x r)"

lemma node_height_tree:
  assumes "tree_in (node_at m) t"
  shows "node_height m (root t) = new_height t"
proof (cases t)
  case (Node l x r)
  then show ?thesis using assms by (cases l; cases r) (auto simp: node_height_def Let_def max_def word_gt_0)
qed (simp add: node_height_def)

lemma balance_tree:
  assumes "tree_in (node_at m) t"
  shows "balance m (root t) = bal t"
proof (cases t)
  case (Node l x r)
  then show ?thesis using assms by (cases l; cases r) (auto simp: balance_def Let_def)
qed (simp add: balance_def)

lemma ptrs_fix_height [simp]: "ptr_list (fix_height t) = ptr_list t" by (cases t) auto
lemma root_fix_height [simp]: "root (fix_height t) = root t" by (cases t) auto
lemma ptrs_rot [simp]: "ptr_list (rot_left t) = ptr_list t" "ptr_list (rot_right t) = ptr_list t"
  by (cases t rule: rot_left.cases; simp) (cases t rule: rot_right.cases; simp)

text \<open>Only the bytes of the nodes of \<open>P\<close> differ.\<close>

definition node_frame :: "u64 set \<Rightarrow> memory \<Rightarrow> memory \<Rightarrow> bool" where
  "node_frame P m m' \<longleftrightarrow> (\<forall>x. (\<forall>p\<in>P. x \<notin> region p 48) \<longrightarrow> m' x = m x)"

lemma node_frame_refl [simp]: "node_frame P m m" by (simp add: node_frame_def)

lemma node_frame_trans: "node_frame P m m' \<Longrightarrow> node_frame P m' m'' \<Longrightarrow> node_frame P m m''"
  by (simp add: node_frame_def)

lemma node_frame_mono: "node_frame P m m' \<Longrightarrow> P \<subseteq> Q \<Longrightarrow> node_frame Q m m'"
  unfolding node_frame_def by blast

lemma node_frame_store:
  assumes "node_frame P m m'" "p \<in> P"
  shows "node_frame P m (set_addr m' p a)" "node_frame P m (set_page_count m' p a)"
    "node_frame P m (set_allocated m' p b)" "node_frame P m (set_left m' p a)"
    "node_frame P m (set_right m' p a)" "node_frame P m (set_height m' p h)"
  using assms node_store_out[of _ p m'] by (simp_all add: node_frame_def)

lemma node_frame_at:
  assumes "node_frame P m m'" "apart (insert q P)" "q \<notin> P"
  shows "node_at m' q = node_at m q"
proof (rule node_at_cong)
  fix x assume "x \<in> region q 48"
  then have "x \<notin> region p 48" if "p \<in> P" for p
    using sep_region_disjoint apartD[OF assms(2), of p q] that assms(3) by blast
  then show "m' x = m x" using assms(1) by (simp add: node_frame_def)
qed

lemma node_frame_tree:
  assumes "node_frame P m m'" "apart (ptrs t \<union> P)" "ptrs t \<inter> P = {}"
  shows "tree_in (node_at m') t = tree_in (node_at m) t"
proof (rule tree_in_cong)
  fix p assume "p \<in> ptrs t"
  then show "node_at m' p = node_at m p" using assms by (intro node_frame_at[OF assms(1)] apart_mono[OF assms(2)]) auto
qed


lemma set_height_tree:
  assumes "tree_in (node_at m) (Node l x r)" "apart (ptrs (Node l x r))" "distinct (ptr_list (Node l x r))"
  shows "tree_in (node_at (set_height m (lp x) (node_height m (lp x)))) (fix_height (Node l x r))"
proof -
  let ?m = "set_height m (lp x) (node_height m (lp x))" and ?P = "ptrs (Node l x r)"
  have st: "node_at ?m q = (if q = lp x then (node_at m (lp x))\<lparr>nd_height := node_height m (lp x)\<rparr> else node_at m q)"
    if "q \<in> ?P" for q using node_at_store(6)[OF assms(2) _ that] by simp
  have "node_height m (lp x) = max (hgt l) (hgt r)" using node_height_tree[OF assms(1)] by simp
  moreover have "tree_in (node_at ?m) l = tree_in (node_at m) l" "tree_in (node_at ?m) r = tree_in (node_at m) r"
    using assms(3) st by (auto intro!: tree_in_cong)
  ultimately show ?thesis using assms(1) st[of "lp x"] by simp
qed

lemma rotate_left_tree:
  assumes t: "tree_in (node_at m) (Node a x (Node b z c))"
    and ap: "apart (ptrs (Node a x (Node b z c)))" and d: "distinct (ptr_list (Node a x (Node b z c)))"
  obtains m' where "rotate_left m (lp x) = (lp z, m')" "tree_in (node_at m') (rot_left (Node a x (Node b z c)))"
    "node_frame (ptrs (Node a x (Node b z c))) m m'"
proof -
  let ?t = "Node a x (Node b z c)"
  let ?m1 = "set_right m (lp x) (root b)" let ?m2 = "set_left ?m1 (lp z) (lp x)"
  let ?m3 = "set_height ?m2 (lp x) (node_height ?m2 (lp x))"
  let ?m4 = "set_height ?m3 (lp z) (node_height ?m3 (lp z))"
  have xz: "lp x \<noteq> lp z" using d by auto
  have st: "node_at ?m2 q = (if q = lp z then (node_at m (lp z))\<lparr>nd_left := lp x\<rparr>
      else if q = lp x then (node_at m (lp x))\<lparr>nd_right := root b\<rparr> else node_at m q)" if "q \<in> ptrs ?t" for q
    using node_at_store(4,5)[OF ap _ that] node_at_store(5)[OF ap, of "lp x" "lp z"] xz by auto
  have sub: "tree_in (node_at ?m2) a = tree_in (node_at m) a" "tree_in (node_at ?m2) b = tree_in (node_at m) b"
    "tree_in (node_at ?m2) c = tree_in (node_at m) c" using d st by (auto intro!: tree_in_cong)
  have i: "tree_in (node_at ?m2) (Node a x b)" using t sub st[of "lp x"] xz by auto
  have 1: "tree_in (node_at ?m3) (fix_height (Node a x b))"
    using set_height_tree[OF i apart_mono[OF ap]] d by auto
  have st3: "node_at ?m3 q = node_at ?m2 q" if "q \<in> ptrs ?t" "q \<noteq> lp x" for q
    using node_at_store(6)[OF ap, of "lp x" q] that by simp
  have "tree_in (node_at ?m3) c = tree_in (node_at ?m2) c" using d st3 by (auto intro!: tree_in_cong)
  then have "tree_in (node_at ?m3) (Node (fix_height (Node a x b)) z c)"
    using 1 t sub(3) st[of "lp z"] st3[of "lp z"] xz by auto
  from set_height_tree[OF this apart_mono[OF ap]] d have "tree_in (node_at ?m4) (rot_left ?t)" by auto
  moreover have "rotate_left m (lp x) = (lp z, ?m4)" using t by (simp add: rotate_left_def Let_def)
  moreover have "node_frame (ptrs ?t) m ?m4"
    by (intro node_frame_store node_frame_refl) simp_all
  ultimately show thesis using that by blast
qed

lemma rotate_right_tree:
  assumes t: "tree_in (node_at m) (Node (Node a z b) x c)"
    and ap: "apart (ptrs (Node (Node a z b) x c))" and d: "distinct (ptr_list (Node (Node a z b) x c))"
  obtains m' where "rotate_right m (lp x) = (lp z, m')" "tree_in (node_at m') (rot_right (Node (Node a z b) x c))"
    "node_frame (ptrs (Node (Node a z b) x c)) m m'"
proof -
  let ?t = "Node (Node a z b) x c"
  let ?m1 = "set_left m (lp x) (root b)" let ?m2 = "set_right ?m1 (lp z) (lp x)"
  let ?m3 = "set_height ?m2 (lp x) (node_height ?m2 (lp x))"
  let ?m4 = "set_height ?m3 (lp z) (node_height ?m3 (lp z))"
  have xz: "lp x \<noteq> lp z" using d by auto
  have st: "node_at ?m2 q = (if q = lp z then (node_at m (lp z))\<lparr>nd_right := lp x\<rparr>
      else if q = lp x then (node_at m (lp x))\<lparr>nd_left := root b\<rparr> else node_at m q)" if "q \<in> ptrs ?t" for q
    using node_at_store(4,5)[OF ap _ that] node_at_store(4)[OF ap, of "lp x" "lp z"] xz by auto
  have sub: "tree_in (node_at ?m2) a = tree_in (node_at m) a" "tree_in (node_at ?m2) b = tree_in (node_at m) b"
    "tree_in (node_at ?m2) c = tree_in (node_at m) c" using d st by (auto intro!: tree_in_cong)
  have i: "tree_in (node_at ?m2) (Node b x c)" using t sub st[of "lp x"] xz by auto
  have 1: "tree_in (node_at ?m3) (fix_height (Node b x c))"
    using set_height_tree[OF i apart_mono[OF ap]] d by auto
  have st3: "node_at ?m3 q = node_at ?m2 q" if "q \<in> ptrs ?t" "q \<noteq> lp x" for q
    using node_at_store(6)[OF ap, of "lp x" q] that by simp
  have "tree_in (node_at ?m3) a = tree_in (node_at ?m2) a" using d st3 by (auto intro!: tree_in_cong)
  then have "tree_in (node_at ?m3) (Node a z (fix_height (Node b x c)))"
    using 1 t sub(1) st[of "lp z"] st3[of "lp z"] xz by auto
  from set_height_tree[OF this apart_mono[OF ap]] d have "tree_in (node_at ?m4) (rot_right ?t)" by auto
  moreover have "rotate_right m (lp x) = (lp z, ?m4)" using t by (simp add: rotate_right_def Let_def)
  moreover have "node_frame (ptrs ?t) m ?m4"
    by (intro node_frame_store node_frame_refl) simp_all
  ultimately show thesis using that by blast
qed

lemma set_left_tree:
  assumes "tree_in (node_at m) (Node l x r)" "tree_in (node_at m1) l'" "apart (ptrs (Node l' x r))"
    "distinct (ptr_list (Node l' x r))" "\<And>q. q \<in> insert (lp x) (ptrs r) \<Longrightarrow> node_at m1 q = node_at m q"
  shows "tree_in (node_at (set_left m1 (lp x) (root l'))) (Node l' x r)"
proof -
  let ?m = "set_left m1 (lp x) (root l')"
  have st: "node_at ?m q = (if q = lp x then (node_at m1 (lp x))\<lparr>nd_left := root l'\<rparr> else node_at m1 q)"
    if "q \<in> ptrs (Node l' x r)" for q using node_at_store(4)[OF assms(3) _ that] by simp
  have "tree_in (node_at ?m) l' = tree_in (node_at m1) l'" "tree_in (node_at ?m) r = tree_in (node_at m) r"
    using assms(4,5) st by (auto intro!: tree_in_cong)
  then show ?thesis using assms(1,2) st[of "lp x"] assms(5)[of "lp x"] by simp
qed

lemma set_right_tree:
  assumes "tree_in (node_at m) (Node l x r)" "tree_in (node_at m1) r'" "apart (ptrs (Node l x r'))"
    "distinct (ptr_list (Node l x r'))" "\<And>q. q \<in> insert (lp x) (ptrs l) \<Longrightarrow> node_at m1 q = node_at m q"
  shows "tree_in (node_at (set_right m1 (lp x) (root r'))) (Node l x r')"
proof -
  let ?m = "set_right m1 (lp x) (root r')"
  have st: "node_at ?m q = (if q = lp x then (node_at m1 (lp x))\<lparr>nd_right := root r'\<rparr> else node_at m1 q)"
    if "q \<in> ptrs (Node l x r')" for q using node_at_store(5)[OF assms(3) _ that] by simp
  have "tree_in (node_at ?m) r' = tree_in (node_at m1) r'" "tree_in (node_at ?m) l = tree_in (node_at m) l"
    using assms(4,5) st by (auto intro!: tree_in_cong)
  then show ?thesis using assms(1,2) st[of "lp x"] assms(5)[of "lp x"] by simp
qed

text \<open>Stored heights below 200 keep the 8-bit balance exact where the code compares it.\<close>

fun hn :: "avl \<Rightarrow> nat" where
  "hn Leaf = 0"
| "hn (Node l x r) = unat (lheight x) + 1"

definition low :: "avl \<Rightarrow> bool" where
  "low t \<longleftrightarrow> (\<forall>x\<in>set_tree t. lheight x < 200)"

lemma low_simps [simp]: "low Leaf" "low (Node l x r) \<longleftrightarrow> lheight x < 200 \<and> low l \<and> low r"
  by (auto simp: low_def)

lemma hn_le: "low t \<Longrightarrow> hn t \<le> 200" by (cases t) (auto simp: word_less_nat_alt)

lemma hgt32_hn: "hgt32 t = of_nat (hn t)" by (cases t) (auto simp: unsigned_ucast_eq)

lemma bal_eq:
  assumes "low l" "low r" "e \<in> {- 2, - 1, 1, 2}"
  shows "bal (Node l x r) = of_int e \<longleftrightarrow> int (hn r) - int (hn l) = e"
proof -
  have u: "(ucast (word_of_int k :: u32) :: u8) = word_of_int k" for k
    by (simp add: unsigned_of_int word_of_int_eq_iff take_bit_take_bit)
  have "bal (Node l x r) = of_int (int (hn r) - int (hn l))"
    using u[of "int (hn r) - int (hn l)"] by (simp add: hgt32_hn)
  then have "bal (Node l x r) = of_int e \<longleftrightarrow> (int (hn r) - int (hn l)) mod 256 = e mod 256"
    by (simp only: word_of_int_eq_iff take_bit_eq_mod) simp
  moreover have "int (hn r) \<le> 200" "int (hn l) \<le> 200" using hn_le assms by (auto simp: hn_le)
  moreover have "d mod 256 = e mod 256 \<longleftrightarrow> d = e" if "- 200 \<le> d" "d \<le> 200" for d :: int
  proof
    assume "d mod 256 = e mod 256"
    then have "256 dvd d - e" by (simp add: mod_eq_dvd_iff)
    then obtain k where "d - e = 256 * k" by (rule dvdE)
    then show "d = e" using that assms(3) by (auto; presburger)
  qed simp
  ultimately show ?thesis by simp
qed


lemma bal_minus_2: "low l \<Longrightarrow> low r \<Longrightarrow> bal (Node l x r) = - 2 \<longleftrightarrow> int (hn r) - int (hn l) = - 2"
  and bal_2: "low l \<Longrightarrow> low r \<Longrightarrow> bal (Node l x r) = 2 \<longleftrightarrow> int (hn r) - int (hn l) = 2"
  and bal_1: "low l \<Longrightarrow> low r \<Longrightarrow> bal (Node l x r) = 1 \<longleftrightarrow> int (hn r) - int (hn l) = 1"
  and bal_minus_1: "low l \<Longrightarrow> low r \<Longrightarrow> bal (Node l x r) = - 1 \<longleftrightarrow> int (hn r) - int (hn l) = - 1"
  using bal_eq[of l r "- 2" x] bal_eq[of l r 2 x] bal_eq[of l r 1 x] bal_eq[of l r "- 1" x] by simp_all

lemma bal_left_cases:
  assumes "low l" "low r" "bal (Node l x r) = - 2"
  obtains a z b where "l = Node a z b" "bal l = 1 \<Longrightarrow> b \<noteq> Leaf"
proof -
  have "hn l \<noteq> 0" using bal_minus_2[of l r x] assms by auto
  then obtain a z b where l: "l = Node a z b" by (cases l) auto
  moreover have "b \<noteq> Leaf" if "bal l = 1" using bal_1[of a b z] that assms(1) l by auto
  ultimately show thesis using that by blast
qed

lemma bal_right_cases:
  assumes "low l" "low r" "bal (Node l x r) = 2"
  obtains b z c where "r = Node b z c" "bal r = - 1 \<Longrightarrow> b \<noteq> Leaf"
proof -
  have "hn r \<noteq> 0" using bal_2[of l r x] assms by auto
  then obtain b z c where r: "r = Node b z c" by (cases r) auto
  moreover have "b \<noteq> Leaf" if "bal r = - 1" using bal_minus_1[of b c z] that assms(2) r by auto
  ultimately show thesis using that by blast
qed

lemma tree_in_Node: "tree_in H t \<Longrightarrow> t \<noteq> Leaf \<Longrightarrow> nd_left (H (root t)) = root (left t) \<and> nd_right (H (root t)) = root (right t)"
  by (cases t) auto

lemma finish_height:
  assumes "tree_in (node_at m) t" "apart (ptrs t)" "distinct (ptr_list t)" "t \<noteq> Leaf"
  shows "tree_in (node_at (set_height m (root t) (node_height m (root t)))) (fix_height t)"
    "node_frame (ptrs t) m (set_height m (root t) (node_height m (root t)))"
  using assms set_height_tree[of m] node_frame_store(6)[OF node_frame_refl, of "root t" "ptrs t" m] by (cases t; auto)+

text \<open>The inner rotation of \<open>rebalance\<close>, when there is one, and the outer one.\<close>

lemma inner_left:
  assumes t: "tree_in (node_at m) (Node l x r)" and ap: "apart (ptrs (Node l x r))"
    and d: "distinct (ptr_list (Node l x r))" and lo: "low l" "low r" and b: "bal (Node l x r) = - 2"
  defines "l' \<equiv> (if bal l = 1 then rot_left l else l)"
    and "m1 \<equiv> (if bal l = 1 then let (z, m) = rotate_left m (root l) in set_left m (lp x) z else m)"
  shows "tree_in (node_at m1) (Node l' x r)" "node_frame (ptrs (Node l x r)) m m1" "l' \<noteq> Leaf" "ptr_list l' = ptr_list l"
proof -
  obtain a z b0 where l: "l = Node a z b0" "bal l = 1 \<Longrightarrow> b0 \<noteq> Leaf" using bal_left_cases[OF lo b] by blast
  have pl: "tree_in (node_at m) l" "apart (ptrs l)" "distinct (ptr_list l)" using t d apart_mono[OF ap] by auto
  have "tree_in (node_at m1) (Node l' x r) \<and> node_frame (ptrs (Node l x r)) m m1 \<and> l' \<noteq> Leaf \<and> ptr_list l' = ptr_list l"
  proof (cases "bal l = 1")
    case True
    then obtain b1 y c1 where l2: "l = Node a z (Node b1 y c1)" using l by (cases b0) auto
    obtain m2 where m2: "rotate_left m (lp z) = (lp y, m2)" "tree_in (node_at m2) (rot_left l)" "node_frame (ptrs l) m m2"
      using rotate_left_tree[OF pl[unfolded l2]] unfolding l2 by blast
    have "node_at m2 q = node_at m q" if "q \<in> insert (lp x) (ptrs r)" for q
      using that d by (intro node_frame_at[OF m2(3)] apart_mono[OF ap]) auto
    then have "tree_in (node_at (set_left m2 (lp x) (root (rot_left l)))) (Node (rot_left l) x r)"
      using ap d by (intro set_left_tree[OF t m2(2)]) auto
    moreover have "m1 = set_left m2 (lp x) (root (rot_left l))" using True m2(1) t by (simp add: m1_def l2)
    moreover have "node_frame (ptrs (Node l x r)) m m1" unfolding calculation(2)
      by (intro node_frame_store node_frame_mono[OF m2(3)]) auto
    moreover have "rot_left l \<noteq> Leaf" by (simp add: l2)
    ultimately show ?thesis using True by (simp add: l'_def)
  qed (use t l in \<open>simp add: l'_def m1_def\<close>)
  then show "tree_in (node_at m1) (Node l' x r)" "node_frame (ptrs (Node l x r)) m m1" "l' \<noteq> Leaf" "ptr_list l' = ptr_list l"
    by blast+
qed

lemma inner_right:
  assumes t: "tree_in (node_at m) (Node l x r)" and ap: "apart (ptrs (Node l x r))"
    and d: "distinct (ptr_list (Node l x r))" and lo: "low l" "low r" and b: "bal (Node l x r) = 2"
  defines "r' \<equiv> (if bal r = - 1 then rot_right r else r)"
    and "m1 \<equiv> (if bal r = - 1 then let (z, m) = rotate_right m (root r) in set_right m (lp x) z else m)"
  shows "tree_in (node_at m1) (Node l x r')" "node_frame (ptrs (Node l x r)) m m1" "r' \<noteq> Leaf" "ptr_list r' = ptr_list r"
proof -
  obtain b0 z c where r: "r = Node b0 z c" "bal r = - 1 \<Longrightarrow> b0 \<noteq> Leaf" using bal_right_cases[OF lo b] by blast
  have pr: "tree_in (node_at m) r" "apart (ptrs r)" "distinct (ptr_list r)" using t d apart_mono[OF ap] by auto
  have "tree_in (node_at m1) (Node l x r') \<and> node_frame (ptrs (Node l x r)) m m1 \<and> r' \<noteq> Leaf \<and> ptr_list r' = ptr_list r"
  proof (cases "bal r = - 1")
    case True
    then obtain b1 y c1 where r2: "r = Node (Node b1 y c1) z c" using r by (cases b0) auto
    obtain m2 where m2: "rotate_right m (lp z) = (lp y, m2)" "tree_in (node_at m2) (rot_right r)" "node_frame (ptrs r) m m2"
      using rotate_right_tree[OF pr[unfolded r2]] unfolding r2 by blast
    have "node_at m2 q = node_at m q" if "q \<in> insert (lp x) (ptrs l)" for q
      using that d by (intro node_frame_at[OF m2(3)] apart_mono[OF ap]) auto
    then have "tree_in (node_at (set_right m2 (lp x) (root (rot_right r)))) (Node l x (rot_right r))"
      using ap d by (intro set_right_tree[OF t m2(2)]) auto
    moreover have "m1 = set_right m2 (lp x) (root (rot_right r))" using True m2(1) t by (simp add: m1_def r2)
    moreover have "node_frame (ptrs (Node l x r)) m m1" unfolding calculation(2)
      by (intro node_frame_store node_frame_mono[OF m2(3)]) auto
    moreover have "rot_right r \<noteq> Leaf" by (simp add: r2)
    ultimately show ?thesis using True by (simp add: r'_def)
  qed (use t r in \<open>simp add: r'_def m1_def\<close>)
  then show "tree_in (node_at m1) (Node l x r')" "node_frame (ptrs (Node l x r)) m m1" "r' \<noteq> Leaf" "ptr_list r' = ptr_list r"
    by blast+
qed

lemma outer_left:
  assumes t: "tree_in (node_at m) (Node l x r)" and ap: "apart (ptrs (Node l x r))"
    and d: "distinct (ptr_list (Node l x r))" and r: "r \<noteq> Leaf"
  obtains m' where "rotate_left m (lp x) = (root (rot_left (Node l x r)), m')"
    "tree_in (node_at m') (rot_left (Node l x r))" "node_frame (ptrs (Node l x r)) m m'" "rot_left (Node l x r) \<noteq> Leaf"
proof -
  obtain b z c where "r = Node b z c" using r by (cases r) auto
  then show thesis using rotate_left_tree[of m l x b z c] t ap d that by auto
qed

lemma outer_right:
  assumes t: "tree_in (node_at m) (Node l x r)" and ap: "apart (ptrs (Node l x r))"
    and d: "distinct (ptr_list (Node l x r))" and l: "l \<noteq> Leaf"
  obtains m' where "rotate_right m (lp x) = (root (rot_right (Node l x r)), m')"
    "tree_in (node_at m') (rot_right (Node l x r))" "node_frame (ptrs (Node l x r)) m m'" "rot_right (Node l x r) \<noteq> Leaf"
proof -
  obtain a z b where "l = Node a z b" using l by (cases l) auto
  then show thesis using rotate_right_tree[of m a z b x r] t ap d that by auto
qed

lemma rebalance_tree:
  assumes t: "tree_in (node_at m) (Node l x r)" and ap: "apart (ptrs (Node l x r))"
    and d: "distinct (ptr_list (Node l x r))" and lo: "low l" "low r"
  shows "\<exists>m'. rebalance m (lp x) = (root (reb (Node l x r)), m') \<and> tree_in (node_at m') (reb (Node l x r)) \<and>
     node_frame (ptrs (Node l x r)) m m'"
proof -
  let ?t = "Node l x r"
  have b: "balance m (lp x) = bal ?t" using balance_tree[OF t] by simp
  have ch: "nd_left (node_at m (lp x)) = root l" "nd_right (node_at m (lp x)) = root r"
    "balance m (root l) = bal l" "balance m (root r) = bal r"
    using balance_tree[of m l] balance_tree[of m r] t by simp_all
  have fin: ?thesis if r: "rebalance m (lp x) = (root u, set_height m2 (root u) (node_height m2 (root u)))"
    and "reb ?t = fix_height u" "tree_in (node_at m2) u" "node_frame (ptrs ?t) m m2" "u \<noteq> Leaf" "ptr_list u = ptr_list ?t" for u m2
    using that finish_height[of m2 u] ap d node_frame_trans[of "ptrs ?t" m m2] by auto
  consider (left) "bal ?t = - 2" | (right) "bal ?t = 2" | (none) "bal ?t \<noteq> - 2" "bal ?t \<noteq> 2" by blast
  then show ?thesis
  proof cases
    case none
    then show ?thesis using t by (intro fin[of ?t m]) (simp_all add: rebalance_def Let_def b)
  next
    case left
    note i = inner_left[OF t ap d lo left]
    let ?l = "if bal l = 1 then rot_left l else l"
    have p: "ptr_list (Node ?l x r) = ptr_list ?t" using i(4) by simp
    from outer_right[OF i(1) _ _ i(3)] ap d obtain m2 where m2:
      "rotate_right (if bal l = 1 then let (z, m) = rotate_left m (root l) in set_left m (lp x) z else m) (lp x) = (root (rot_right (Node ?l x r)), m2)"
      "tree_in (node_at m2) (rot_right (Node ?l x r))" "node_frame (ptrs ?t) (if bal l = 1 then let (z, m) = rotate_left m (root l) in set_left m (lp x) z else m) m2"
      "rot_right (Node ?l x r) \<noteq> Leaf" unfolding p by blast
    show ?thesis
      by (rule fin[of "rot_right (Node ?l x r)" m2])
        (use left m2 node_frame_trans[OF i(2) m2(3)] p in
          \<open>(cases "bal l = 1"; simp add: rebalance_def Let_def b ch del: rot_right.simps)+\<close>)
  next
    case right
    note i = inner_right[OF t ap d lo right]
    let ?r = "if bal r = - 1 then rot_right r else r"
    have p: "ptr_list (Node l x ?r) = ptr_list ?t" using i(4) by simp
    from outer_left[OF i(1) _ _ i(3)] ap d obtain m2 where m2:
      "rotate_left (if bal r = - 1 then let (z, m) = rotate_right m (root r) in set_right m (lp x) z else m) (lp x) = (root (rot_left (Node l x ?r)), m2)"
      "tree_in (node_at m2) (rot_left (Node l x ?r))" "node_frame (ptrs ?t) (if bal r = - 1 then let (z, m) = rotate_right m (root r) in set_right m (lp x) z else m) m2"
      "rot_left (Node l x ?r) \<noteq> Leaf" unfolding p by blast
    show ?thesis
      by (rule fin[of "rot_left (Node l x ?r)" m2])
        (use right m2 node_frame_trans[OF i(2) m2(3)] p in
          \<open>(cases "bal r = - 1"; simp add: rebalance_def Let_def b ch del: rot_left.simps)+\<close>)
  qed
qed

section \<open>Balance\<close>

fun avl :: "avl \<Rightarrow> bool" where
  "avl Leaf \<longleftrightarrow> True"
| "avl (Node l x r) \<longleftrightarrow> height l \<le> height r + 1 \<and> height r \<le> height l + 1 \<and>
     lheight x = of_nat (max (height l) (height r)) \<and> avl l \<and> avl r"

lemma unat_small16: "n \<le> 200 \<Longrightarrow> unat (of_nat n :: u16) = n"
  by (simp add: unat_of_nat)

lemma max_of_nat16: "i \<le> 200 \<Longrightarrow> j \<le> 200 \<Longrightarrow> max (of_nat i :: u16) (of_nat j) = of_nat (max i j)"
  by (simp add: max_def word_le_nat_alt unat_small16)

lemma avl_heights:
  assumes "avl t" "height t \<le> 200"
  shows "hn t = height t" "hgt t = of_nat (height t)" "low t"
  using assms
proof (induction t)
  case (Node l x r)
  {
    case 1
    then show ?case by (simp add: unat_small16)
  next
    case 2
    then show ?case by simp
  next
    case 3
    then have "lheight x < 200" by (simp add: word_less_nat_alt unat_small16)
    then show ?case using 3 Node by simp
  }
qed simp_all

lemma height_fix [simp]: "height (fix_height t) = height t" by (cases t) auto

lemma avl_fix:
  assumes "avl l" "avl r" "height l \<le> 200" "height r \<le> 200" "height l \<le> height r + 1" "height r \<le> height l + 1"
  shows "avl (fix_height (Node l x r))"
  using assms avl_heights(2)[of l] avl_heights(2)[of r] by (simp add: max_of_nat16)

lemma fix_fix [simp]: "fix_height (fix_height t) = fix_height t" by (cases t) auto

lemma bal_height:
  assumes "avl l" "avl r" "height l \<le> 200" "height r \<le> 200"
  shows "bal (Node l x r) = - 2 \<longleftrightarrow> height l = height r + 2" "bal (Node l x r) = 2 \<longleftrightarrow> height r = height l + 2"
    "bal (Node l x r) = 1 \<longleftrightarrow> height r = height l + 1" "bal (Node l x r) = - 1 \<longleftrightarrow> height l = height r + 1"
  using avl_heights[OF assms(1,3)] avl_heights[OF assms(2,4)] bal_minus_2[of l r x] bal_2[of l r x]
    bal_1[of l r x] bal_minus_1[of l r x] by auto

declare fix_height.simps(2) [simp del]

lemma avl_reb_left:
  assumes "avl l" "avl r" "height l \<le> 200" "height l = height r + 2"
  shows "avl (reb (Node l x r)) \<and> height (reb (Node l x r)) \<in> {height l, height l + 1}"
proof -
  obtain a z b where l: "l = Node a z b" using assms(4) by (cases l) auto
  have ab: "avl a" "avl b" "height a \<le> height b + 1" "height b \<le> height a + 1" "height r + 2 = Suc (max (height a) (height b))"
    "height a \<le> 200" "height b \<le> 200" "height r \<le> 198" "max (height a) (height b) \<le> 199"
    using assms l by auto
  have b2: "bal (Node l x r) = - 2" using bal_height(1)[OF assms(1,2)] assms by simp
  have bl: "bal l = 1 \<longleftrightarrow> height b = height a + 1" unfolding l by (rule bal_height(3)) (use ab in auto)
  show ?thesis
  proof (cases "bal l = 1")
    case True
    then have hb: "height b = height a + 1" using bl by simp
    then obtain b1 y b2 where b: "b = Node b1 y b2" by (cases b) auto
    have "reb (Node l x r) = fix_height (Node (fix_height (Node a z b1)) y (fix_height (Node b2 x r)))"
      using True b2 by (simp add: l b fix_height.simps(2))
    moreover have "avl (fix_height (Node a z b1))" "avl (fix_height (Node b2 x r))"
      using ab hb b assms(2) by (auto intro!: avl_fix)
    ultimately show ?thesis using ab hb b assms(4) l by (auto intro!: avl_fix)
  next
    case False
    then have "reb (Node l x r) = fix_height (Node a z (fix_height (Node b x r)))" using b2 by (simp add: l)
    moreover have "avl (fix_height (Node b x r))"
      using ab False bl assms(2) by (auto intro!: avl_fix)
    ultimately show ?thesis using ab False bl assms(4) l by (auto intro!: avl_fix)
  qed
qed

lemma avl_reb_right:
  assumes "avl l" "avl r" "height r \<le> 200" "height r = height l + 2"
  shows "avl (reb (Node l x r)) \<and> height (reb (Node l x r)) \<in> {height r, height r + 1}"
proof -
  obtain b z c where r: "r = Node b z c" using assms(4) by (cases r) auto
  have bc: "avl b" "avl c" "height b \<le> height c + 1" "height c \<le> height b + 1" "height l + 2 = Suc (max (height b) (height c))"
    "height b \<le> 200" "height c \<le> 200" "height l \<le> 198" "max (height b) (height c) \<le> 199"
    using assms r by auto
  have b2: "bal (Node l x r) = 2" "bal (Node l x r) \<noteq> - 2" using bal_height(1,2)[OF assms(1,2)] assms by auto
  have br: "bal r = - 1 \<longleftrightarrow> height b = height c + 1" unfolding r by (rule bal_height(4)) (use bc in auto)
  show ?thesis
  proof (cases "bal r = - 1")
    case True
    then have hb: "height b = height c + 1" using br by simp
    then obtain b1 y b3 where b: "b = Node b1 y b3" by (cases b) auto
    have "reb (Node l x r) = fix_height (Node (fix_height (Node l x b1)) y (fix_height (Node b3 z c)))"
      using True b2 by (simp add: r b fix_height.simps(2))
    moreover have "avl (fix_height (Node l x b1))" "avl (fix_height (Node b3 z c))"
      using bc hb b assms(1) by (auto intro!: avl_fix)
    ultimately show ?thesis using bc hb b assms(4) r by (auto intro!: avl_fix)
  next
    case False
    then have "reb (Node l x r) = fix_height (Node (fix_height (Node l x b)) z c)" using b2 by (simp add: r)
    moreover have "avl (fix_height (Node l x b))"
      using bc False br assms(1) by (auto intro!: avl_fix)
    ultimately show ?thesis using bc False br assms(4) r by (auto intro!: avl_fix)
  qed
qed

lemma avl_reb_none:
  assumes "avl l" "avl r" "height l \<le> 199" "height r \<le> 199" "height l \<le> height r + 1" "height r \<le> height l + 1"
  shows "reb (Node l x r) = fix_height (Node l x r)" "avl (reb (Node l x r))"
proof -
  show r: "reb (Node l x r) = fix_height (Node l x r)" using bal_height(1,2)[OF assms(1,2), of x] assms by simp
  show "avl (reb (Node l x r))" unfolding r by (rule avl_fix) (use assms in auto)
qed

lemma avl_reb:
  assumes "avl l" "avl r" "height l \<le> 199" "height r \<le> 199" "height l \<le> height r + 2" "height r \<le> height l + 2"
  shows "avl (reb (Node l x r))" "height (reb (Node l x r)) \<in> {height (Node l x r) - 1, height (Node l x r)}"
    "height l \<le> height r + 1 \<Longrightarrow> height r \<le> height l + 1 \<Longrightarrow> height (reb (Node l x r)) = height (Node l x r)"
proof -
  consider (l) "height l = height r + 2" | (r) "height r = height l + 2" | (n) "height l \<le> height r + 1" "height r \<le> height l + 1"
    using assms by linarith
  then have "avl (reb (Node l x r)) \<and> height (reb (Node l x r)) \<in> {height (Node l x r) - 1, height (Node l x r)} \<and>
     (height l \<le> height r + 1 \<longrightarrow> height r \<le> height l + 1 \<longrightarrow> height (reb (Node l x r)) = height (Node l x r))"
  proof cases
    case l
    then show ?thesis using avl_reb_left[OF assms(1,2) _ l, of x] assms by auto
  next
    case r
    then show ?thesis using avl_reb_right[OF assms(1,2) _ r, of x] assms by auto
  next
    case n
    then show ?thesis using avl_reb_none[OF assms(1-4) n, of x] by (simp del: reb.simps)
  qed
  then show "avl (reb (Node l x r))" "height (reb (Node l x r)) \<in> {height (Node l x r) - 1, height (Node l x r)}"
    "height l \<le> height r + 1 \<Longrightarrow> height r \<le> height l + 1 \<Longrightarrow> height (reb (Node l x r)) = height (Node l x r)" by blast+
qed

end
