(* ===== verification/Avl_Insert.thy ===== *)
theory Avl_Insert
  imports Avl_Tree
begin

text \<open>
  Insertion into the AVL tree: \<open>ins\<close> on abstract trees keeps the order, the balance and the stored
  heights, and \<open>_insert_node\<close> on the memory implements it. Of the node allocator the proofs use the
  laws of \<open>node_pool\<close> only.
\<close>

section \<open>Insertion\<close>

type_synonym range_entry = "u64 \<times> u64 \<times> u8"

definition entry_of :: "label \<Rightarrow> range_entry" where "entry_of x = (laddr x, lpages x, lalloc x)"

definition ranges :: "avl \<Rightarrow> range_entry list" where "ranges t = map entry_of (inorder t)"

lemma ranges_simps [simp]: "ranges Leaf = []" "ranges (Node l x r) = ranges l @ entry_of x # ranges r"
  by (simp_all add: ranges_def)

definition ordered :: "range_entry list \<Rightarrow> bool" where "ordered xs \<longleftrightarrow> sorted_wrt (<) (map fst xs)"

fun ins :: "u64 \<Rightarrow> u64 \<Rightarrow> u64 \<Rightarrow> avl \<Rightarrow> avl" where
  "ins q a n Leaf = Node Leaf \<lparr>lp = q, laddr = a, lpages = n, lalloc = 0, lheight = 0\<rparr> Leaf"
| "ins q a n (Node l x r) =
     (if a < laddr x then reb (Node (ins q a n l) x r)
      else if a > laddr x then reb (Node l x (ins q a n r))
      else Node l (x\<lparr>lpages := n, lalloc := 0\<rparr>) r)"

text \<open>The abstract operation: a sorted list of ranges, one entry for each address.\<close>

fun upd :: "u64 \<Rightarrow> u64 \<Rightarrow> range_entry list \<Rightarrow> range_entry list" where
  "upd a n [] = [(a, n, 0)]"
| "upd a n (e # xs) =
     (if a < fst e then (a, n, 0) # e # xs else if a = fst e then (a, n, 0) # xs else e # upd a n xs)"

lemma ranges_fix [simp]: "ranges (fix_height t) = ranges t" by (cases t) (auto simp: fix_height.simps(2) entry_of_def)

lemma ranges_rot [simp]: "ranges (rot_left t) = ranges t" "ranges (rot_right t) = ranges t"
  by (cases t rule: rot_left.cases; simp) (cases t rule: rot_right.cases; simp)

lemma ranges_reb [simp]: "ranges (reb t) = ranges t"
  by (cases t) simp_all

lemma ptr_list_reb [simp]: "ptr_list (reb t) = ptr_list t"
  by (cases t) simp_all

lemma reb_not_Leaf [simp]: "reb t = Leaf \<longleftrightarrow> t = Leaf"
proof -
  have "ptr_list (reb t) = [] \<longleftrightarrow> ptr_list t = []" by simp
  moreover have "ptr_list u = [] \<longleftrightarrow> u = Leaf" for u by (cases u) auto
  ultimately show ?thesis by metis
qed

declare reb.simps(2) [simp del]

lemma upd_append:
  "ordered (xs @ e # ys) \<Longrightarrow> upd a n (xs @ e # ys) =
    (if a < fst e then upd a n xs @ e # ys else xs @ upd a n (e # ys))"
proof (induction xs)
  case (Cons x xs)
  then show ?case by (auto simp: ordered_def)
qed simp

lemma ordered_append: "ordered (xs @ e # ys) \<Longrightarrow> ordered xs \<and> ordered ys"
  by (auto simp: ordered_def sorted_wrt_append)

lemma ranges_ins: "ordered (ranges t) \<Longrightarrow> ranges (ins q a n t) = upd a n (ranges t)"
proof (induction t)
  case (Node l x r)
  then show ?case using ordered_append[of "ranges l" "entry_of x" "ranges r"]
    by (auto simp: upd_append entry_of_def)
qed (simp add: entry_of_def)

lemma fst_upd: "fst ` set (upd a n xs) = insert a (fst ` set xs)"
  by (induction xs) auto

lemma ordered_upd: "ordered xs \<Longrightarrow> ordered (upd a n xs)"
proof (induction xs)
  case (Cons e xs)
  have "set (map fst (upd a n xs)) = insert a (set (map fst xs))" using fst_upd[of a n xs] by simp
  then show ?case using Cons by (auto simp: ordered_def)
qed (simp add: ordered_def)

lemma map_of_upd: "ordered xs \<Longrightarrow> map_of (upd a n xs) = (map_of xs)(a \<mapsto> (n, 0))"
proof (induction xs)
  case (Cons e xs)
  have "map_of xs (fst e) = None" using Cons.prems by (force simp: ordered_def map_of_eq_None_iff)
  then show ?case using Cons by (cases e) (auto simp: ordered_def fun_upd_twist)
qed simp

lemma ptr_list_ins:
  "ptrs (ins q a n t) \<subseteq> insert q (ptrs t)"
  "distinct (ptr_list t) \<Longrightarrow> q \<notin> ptrs t \<Longrightarrow> distinct (ptr_list (ins q a n t))"
proof -
  show sub: "ptrs (ins q a n t) \<subseteq> insert q (ptrs t)" for t by (induction t) auto
  show "distinct (ptr_list t) \<Longrightarrow> q \<notin> ptrs t \<Longrightarrow> distinct (ptr_list (ins q a n t))"
  proof (induction t)
    case (Node l x r)
    then show ?case using sub[of l] sub[of r] by auto
  qed simp
qed

lemma avl_ins:
  "avl t \<Longrightarrow> height t \<le> 190 \<Longrightarrow> avl (ins q a n t) \<and> height (ins q a n t) \<in> {height t, height t + 1}"
proof (induction t)
  case (Node l x r)
  consider "a < laddr x" | "a > laddr x" | "a = laddr x" by fastforce
  then show ?case
  proof cases
    case 1
    let ?l = "ins q a n l"
    have l: "avl ?l" "height ?l = height l \<or> height ?l = height l + 1" using Node by auto
    have "avl (reb (Node ?l x r))" "height (reb (Node ?l x r)) \<in> {height (Node ?l x r) - 1, height (Node ?l x r)}"
      "height ?l \<le> height r + 1 \<Longrightarrow> height r \<le> height ?l + 1 \<Longrightarrow> height (reb (Node ?l x r)) = height (Node ?l x r)"
      by (rule avl_reb; use Node.prems l in auto)+
    then show ?thesis using 1 l Node.prems by (auto simp: max_def split: if_splits)
  next
    case 2
    let ?r = "ins q a n r"
    have r: "avl ?r" "height ?r = height r \<or> height ?r = height r + 1" using Node by auto
    have "avl (reb (Node l x ?r))" "height (reb (Node l x ?r)) \<in> {height (Node l x ?r) - 1, height (Node l x ?r)}"
      "height l \<le> height ?r + 1 \<Longrightarrow> height ?r \<le> height l + 1 \<Longrightarrow> height (reb (Node l x ?r)) = height (Node l x ?r)"
      by (rule avl_reb; use Node.prems r in auto)+
    then show ?thesis using 2 r Node.prems by (auto simp: max_def split: if_splits)
  next
    case 3
    then show ?thesis using Node.prems by auto
  qed
qed simp

lemma avl_height_size: "avl t \<Longrightarrow> 2 ^ (height t div 2) \<le> size1 t"
proof (induction t)
  case (Node l x r)
  define m where "m = max (height l) (height r)"
  show ?case
  proof (cases "m = 0")
    case True
    then show ?thesis by (simp add: m_def)
  next
    case False
    have "(m - 1) div 2 \<le> height l div 2" "(m - 1) div 2 \<le> height r div 2"
      using Node.prems unfolding m_def by (auto intro!: div_le_mono)
    then have "(2::nat) ^ ((m - 1) div 2) \<le> 2 ^ (height l div 2)" "(2::nat) ^ ((m - 1) div 2) \<le> 2 ^ (height r div 2)"
      by simp_all
    moreover have "2 ^ (height l div 2) \<le> size1 l" "2 ^ (height r div 2) \<le> size1 r" using Node by simp_all
    ultimately have "2 * 2 ^ ((m - 1) div 2) \<le> size1 l + size1 r" by linarith
    moreover have "Suc m div 2 = Suc ((m - 1) div 2)" using False by (cases m) auto
    ultimately show ?thesis by (simp add: m_def)
  qed
qed simp

lemma height_bound:
  assumes "avl t" "distinct (ptr_list t)"
  shows "height t \<le> 130"
proof -
  have "card (ptrs t) = length (ptr_list t)" using assms(2) by (rule distinct_card)
  then have "card (ptrs t) = size t" by (simp only: ptr_list_def length_map length_inorder)
  moreover have "card (ptrs t) \<le> CARD(u64)" by (rule card_mono) simp_all
  ultimately have "size1 t \<le> 2 ^ 64 + 1" by (simp add: size1_size card_word)
  then have "(2::nat) ^ (height t div 2) < 2 ^ 65" using avl_height_size[OF assms(1)] by simp
  then have "height t div 2 < 65" by (simp only: power_strict_increasing_iff[of "2::nat"])
  then show ?thesis by simp
qed

section \<open>The code implements the tree operations\<close>

context node_pool
begin

lemma apart_owned: "ok g s \<Longrightarrow> apart (owned g (cmem s))"
  using owned_sep by (auto simp: apart_def)

lemma write_nodes:
  assumes "ok g s" "node_frame P (cmem s) m" "P \<subseteq> owned g (cmem s)"
  shows "ok g (upd m s)" "owned g m = owned g (cmem s)"
  using write_owned[OF assms(1), of m] assms(2,3) unfolding node_frame_def by blast+

lemma other_nodes:
  assumes "ok g s" "node_frame P (cmem s) m" "P \<subseteq> owned g (cmem s)" "p \<in> owned g (cmem s) - P" "x \<in> region p 48"
  shows "m x = cmem s x"
proof -
  have "x \<notin> region q 48" if "q \<in> P" for q
    using sep_region_disjoint[OF owned_sep[OF assms(1), of q p]] that assms(3-5) by blast
  then show ?thesis using assms(2) by (simp add: node_frame_def)
qed

end

lemma pages_grow_write:
  assumes "pages_grow ps s ps' s'" "nh_wf ps' s'" "node_frame P (mem s') m" "P \<subseteq> own ps' (mem s')"
  shows "pages_grow ps s ps' (s'\<lparr>mem := m\<rparr>)"
proof -
  have "\<And>x. (\<And>q. q \<in> own ps' (mem s') \<Longrightarrow> x \<notin> region q 48) \<Longrightarrow> m x = mem s' x"
    using assms(3,4) unfolding node_frame_def by blast
  note w = nh_wf_write[OF assms(2) this]
  then show ?thesis using assms(1) win_frame_trans[of "set ps'" "mem s" "mem s'" "set ps'" m]
    unfolding pages_grow_def w(3) by simp
qed

lemma pages_grow_refl: "pages_grow ps s ps s"
  by (simp add: pages_grow_def win_frame_def)

text \<open>What one call of \<open>_insert_node\<close> establishes.\<close>

definition insert_post ::
  "u64 list \<Rightarrow> 'z node_heap_scheme \<Rightarrow> avl \<Rightarrow> u64 \<Rightarrow> u64 \<Rightarrow> u64 list \<Rightarrow> u64 \<Rightarrow> 'z node_heap_scheme \<Rightarrow> bool" where
  "insert_post ps s t a n ps' q s' \<longleftrightarrow> nh_wf ps' s' \<and> pages_grow ps s ps' s' \<and>
     tree_in (node_at (mem s')) (ins q a n t) \<and> q \<notin> own ps (mem s) \<and>
     own ps' (mem s') = (if a \<in> fst ` set (ranges t) then own ps (mem s) else insert q (own ps (mem s))) \<and>
     (\<forall>p\<in>own ps (mem s) - ptrs t. \<forall>x\<in>region p 48. mem s' x = mem s x)"

lemma insert_finish:
  assumes wf: "nh_wf ps s" and t: "tree_in (node_at (mem s)) (Node l x r)" and d: "distinct (ptr_list (Node l x r))"
    and o: "ptrs (Node l x r) \<subseteq> own ps (mem s)" and lo: "low l" "low r"
  obtains m where "rebalance (mem s) (lp x) = (root (reb (Node l x r)), m)" "tree_in (node_at m) (reb (Node l x r))"
    "node_frame (ptrs (Node l x r)) (mem s) m"
  using rebalance_tree[OF t apart_mono[OF nodes.apart_owned[OF wf] o] d lo] by blast

lemma insert_node_Leaf:
  assumes wf: "nh_wf ps s" and room: "node_room ps s"
  shows "\<exists>ps' q s'. insert_node 0 a n s = Some (q, s') \<and> insert_post ps s Leaf a n ps' q s'"
proof -
  from nodes.create_fresh[OF assms] obtain ps' q s1 where
    c: "create_node s = Some (q, s1)" "nh_wf ps' s1" "pages_grow ps s ps' s1" "q \<notin> own ps (mem s)"
      "own ps' (mem s1) = insert q (own ps (mem s))" "\<forall>p\<in>own ps (mem s). \<forall>x\<in>region p 48. mem s1 x = mem s x" by blast
  let ?m = "set_allocated (set_right (set_left (set_page_count (set_addr (mem s1) q a) q n) q 0) q 0) q 0"
  let ?x = "\<lparr>lp = q, laddr = a, lpages = n, lalloc = 0, lheight = nd_height (node_at (mem s1) q)\<rparr>"
  have fr: "node_frame {q} (mem s1) ?m" by (intro node_frame_store node_frame_refl) simp_all
  have "q \<noteq> 0" using nodes.owned_nonzero[OF c(2)] c(5) by simp
  then have t: "tree_in (node_at ?m) (Node Leaf ?x Leaf)" by (simp add: node_at_store_same)
  from rebalance_tree[OF t] obtain m where
    m: "rebalance ?m q = (root (reb (Node Leaf ?x Leaf)), m)" "tree_in (node_at m) (reb (Node Leaf ?x Leaf))"
    "node_frame {q} ?m m" by (auto simp: apart_def)
  have r: "reb (Node Leaf ?x Leaf) = ins q a n Leaf" by (simp add: reb.simps fix_height.simps)
  have fr': "node_frame {q} (mem s1) m" by (rule node_frame_trans[OF fr m(3)])
  have "insert_node 0 a n s = Some (q, s1\<lparr>mem := m\<rparr>)"
    using c(1) m(1) by (subst insert_node.simps) (simp add: r Let_def)
  moreover have "insert_post ps s Leaf a n ps' q (s1\<lparr>mem := m\<rparr>)"
    using nodes.write_nodes[OF c(2) fr'] pages_grow_write[OF c(3,2) fr'] m(2) c(4,5,6) nodes.other_nodes[OF c(2) fr']
    unfolding insert_post_def r by auto
  ultimately show ?thesis by blast
qed

lemma ordered_keys:
  assumes "ordered (xs @ e # ys)"
  shows "a < fst e \<Longrightarrow> a \<in> fst ` set (xs @ e # ys) \<longleftrightarrow> a \<in> fst ` set xs"
    "a > fst e \<Longrightarrow> a \<in> fst ` set (xs @ e # ys) \<longleftrightarrow> a \<in> fst ` set ys"
proof -
  have l: "\<forall>x\<in>set xs. fst x < fst e" "\<forall>y\<in>set ys. fst e < fst y"
    using assms by (auto simp: ordered_def sorted_wrt_append)
  show "a < fst e \<Longrightarrow> a \<in> fst ` set (xs @ e # ys) \<longleftrightarrow> a \<in> fst ` set xs" using l(2) by auto
  show "a > fst e \<Longrightarrow> a \<in> fst ` set (xs @ e # ys) \<longleftrightarrow> a \<in> fst ` set ys" using l(1) by auto
qed

lemma ptrs_ins:
  "ordered (ranges t) \<Longrightarrow> ptrs (ins q a n t) = (if a \<in> fst ` set (ranges t) then ptrs t else insert q (ptrs t))"
proof (induction t)
  case (Node l x r)
  note o = ordered_append[OF Node.prems[unfolded ranges_simps]]
  consider "a < laddr x" | "a > laddr x" | "a = laddr x" by fastforce
  then show ?case
  proof cases
    case 1
    then have "a \<in> fst ` set (ranges (Node l x r)) \<longleftrightarrow> a \<in> fst ` set (ranges l)"
      using ordered_keys(1)[OF Node.prems[unfolded ranges_simps], of a] by (simp add: entry_of_def)
    then show ?thesis using 1 Node.IH(1) o by (auto simp del: ranges_simps)
  next
    case 2
    then have "a \<in> fst ` set (ranges (Node l x r)) \<longleftrightarrow> a \<in> fst ` set (ranges r)"
      using ordered_keys(2)[OF Node.prems[unfolded ranges_simps], of a] by (simp add: entry_of_def)
    then show ?thesis using 2 Node.IH(2) o by (auto simp del: ranges_simps)
  next
    case 3
    then show ?thesis by (simp add: entry_of_def)
  qed
qed simp

lemma insert_postI:
  "nh_wf ps' s' \<Longrightarrow> pages_grow ps s ps' s' \<Longrightarrow> tree_in (node_at (mem s')) (ins q a n t) \<Longrightarrow> q \<notin> own ps (mem s) \<Longrightarrow>
   own ps' (mem s') = (if a \<in> fst ` set (ranges t) then own ps (mem s) else insert q (own ps (mem s))) \<Longrightarrow>
   (\<And>p x. p \<in> own ps (mem s) - ptrs t \<Longrightarrow> x \<in> region p 48 \<Longrightarrow> mem s' x = mem s x) \<Longrightarrow>
   insert_post ps s t a n ps' q s'"
  unfolding insert_post_def by blast

lemma insert_up_left:
  assumes t: "tree_in (node_at (mem s)) (Node l x r)" and d: "distinct (ptr_list (Node l x r))"
    and o: "ptrs (Node l x r) \<subseteq> own ps (mem s)" and lo: "low (ins q a n l)" "low r" and key: "a < laddr x"
    and ord: "ordered (ranges (Node l x r))"
    and p: "insert_post ps s l a n ps' q s'"
  shows "\<exists>s2. rebalance (set_left (mem s') (lp x) (root (ins q a n l))) (lp x) = (root (ins q a n (Node l x r)), mem s2) \<and>
    s2 = s'\<lparr>mem := mem s2\<rparr> \<and> insert_post ps s (Node l x r) a n ps' q s2"
proof -
  let ?l = "ins q a n l" and ?m = "set_left (mem s') (lp x) (root (ins q a n l))"
  have wf: "nh_wf ps' s'" and gr: "pages_grow ps s ps' s'" and tl: "tree_in (node_at (mem s')) ?l" and qo: "q \<notin> own ps (mem s)"
    and ow: "own ps' (mem s') = (if a \<in> fst ` set (ranges l) then own ps (mem s) else insert q (own ps (mem s)))"
    and rest: "\<And>p x. p \<in> own ps (mem s) - ptrs l \<Longrightarrow> x \<in> region p 48 \<Longrightarrow> mem s' x = mem s x"
    using p unfolding insert_post_def by blast+
  have ql: "q \<notin> ptrs l" "q \<noteq> lp x" "q \<notin> ptrs r" using qo o by auto
  have sub: "ptrs ?l \<subseteq> insert q (ptrs l)" by (rule ptr_list_ins(1))
  have dl: "distinct (ptr_list (Node ?l x r))" using sub d ql ptr_list_ins(2)[of l q a n] by auto
  have keys: "a \<in> fst ` set (ranges (Node l x r)) \<longleftrightarrow> a \<in> fst ` set (ranges l)"
    using ordered_keys(1)[OF ord[unfolded ranges_simps], of a] key by (simp add: entry_of_def)
  have ol: "ptrs (Node ?l x r) \<subseteq> own ps' (mem s')"
    using ptrs_ins[of l q a n] ordered_append[OF ord[unfolded ranges_simps]] o ow by (auto split: if_splits)
  note ap = apart_mono[OF nodes.apart_owned[OF wf] ol]
  have "node_at (mem s') p = node_at (mem s) p" if "p \<in> insert (lp x) (ptrs r)" for p
  proof -
    have "p \<in> own ps (mem s) - ptrs l" using that o d by auto
    then show ?thesis using rest by (intro node_at_cong) blast
  qed
  then have t': "tree_in (node_at ?m) (Node ?l x r)" by (rule set_left_tree[OF t tl ap dl])
  have fr: "node_frame (ptrs (Node ?l x r)) (mem s') ?m" by (intro node_frame_store node_frame_refl) simp
  from rebalance_tree[OF t' ap dl lo] obtain m where
    m: "rebalance ?m (lp x) = (root (reb (Node ?l x r)), m)" "tree_in (node_at m) (reb (Node ?l x r))"
      "node_frame (ptrs (Node ?l x r)) ?m m" by blast
  note fr' = node_frame_trans[OF fr m(3)]
  note w = nodes.write_nodes[OF wf fr' ol]
  have "m y = mem s y" if y: "p \<in> own ps (mem s) - ptrs (Node l x r)" "y \<in> region p 48" for p y
  proof -
    have "p \<in> own ps' (mem s') - ptrs (Node ?l x r)" using y(1) sub qo ow by (auto split: if_splits)
    then have "m y = mem s' y" using nodes.other_nodes[OF wf fr' ol] y(2) by blast
    also have "\<dots> = mem s y" using rest[of p y] y by simp
    finally show ?thesis .
  qed
  note other = this
  have i: "ins q a n (Node l x r) = reb (Node ?l x r)" using key by simp
  have "insert_post ps s (Node l x r) a n ps' q (s'\<lparr>mem := m\<rparr>)"
  proof (rule insert_postI)
    show "nh_wf ps' (s'\<lparr>mem := m\<rparr>)" by (rule w(1))
    show "pages_grow ps s ps' (s'\<lparr>mem := m\<rparr>)" by (rule pages_grow_write[OF gr wf fr' ol])
    show "tree_in (node_at (mem (s'\<lparr>mem := m\<rparr>))) (ins q a n (Node l x r))" unfolding i using m(2) by simp
    show "own ps' (mem (s'\<lparr>mem := m\<rparr>)) = (if a \<in> fst ` set (ranges (Node l x r)) then own ps (mem s) else insert q (own ps (mem s)))"
      unfolding keys using w(2) ow by simp
    show "mem (s'\<lparr>mem := m\<rparr>) y = mem s y" if "p \<in> own ps (mem s) - ptrs (Node l x r)" "y \<in> region p 48" for p y
      using other[OF that] by simp
  qed (rule qo)
  then show ?thesis using m(1) key by (intro exI[of _ "s'\<lparr>mem := m\<rparr>"]) simp
qed

lemma insert_up_right:
  assumes t: "tree_in (node_at (mem s)) (Node l x r)" and d: "distinct (ptr_list (Node l x r))"
    and o: "ptrs (Node l x r) \<subseteq> own ps (mem s)" and lo: "low l" "low (ins q a n r)" and key: "a > laddr x"
    and ord: "ordered (ranges (Node l x r))"
    and p: "insert_post ps s r a n ps' q s'"
  shows "\<exists>s2. rebalance (set_right (mem s') (lp x) (root (ins q a n r))) (lp x) = (root (ins q a n (Node l x r)), mem s2) \<and>
    s2 = s'\<lparr>mem := mem s2\<rparr> \<and> insert_post ps s (Node l x r) a n ps' q s2"
proof -
  let ?r = "ins q a n r" and ?m = "set_right (mem s') (lp x) (root (ins q a n r))"
  have wf: "nh_wf ps' s'" and gr: "pages_grow ps s ps' s'" and tl: "tree_in (node_at (mem s')) ?r" and qo: "q \<notin> own ps (mem s)"
    and ow: "own ps' (mem s') = (if a \<in> fst ` set (ranges r) then own ps (mem s) else insert q (own ps (mem s)))"
    and rest: "\<And>p x. p \<in> own ps (mem s) - ptrs r \<Longrightarrow> x \<in> region p 48 \<Longrightarrow> mem s' x = mem s x"
    using p unfolding insert_post_def by blast+
  have ql: "q \<notin> ptrs l" "q \<noteq> lp x" "q \<notin> ptrs r" using qo o by auto
  have sub: "ptrs ?r \<subseteq> insert q (ptrs r)" by (rule ptr_list_ins(1))
  have dl: "distinct (ptr_list (Node l x ?r))" using sub d ql ptr_list_ins(2)[of r q a n] by auto
  have keys: "a \<in> fst ` set (ranges (Node l x r)) \<longleftrightarrow> a \<in> fst ` set (ranges r)"
    using ordered_keys(2)[OF ord[unfolded ranges_simps], of a] key by (simp add: entry_of_def)
  have ol: "ptrs (Node l x ?r) \<subseteq> own ps' (mem s')"
    using ptrs_ins[of r q a n] ordered_append[OF ord[unfolded ranges_simps]] o ow by (auto split: if_splits)
  note ap = apart_mono[OF nodes.apart_owned[OF wf] ol]
  have "node_at (mem s') p = node_at (mem s) p" if "p \<in> insert (lp x) (ptrs l)" for p
  proof -
    have "p \<in> own ps (mem s) - ptrs r" using that o d by auto
    then show ?thesis using rest by (intro node_at_cong) blast
  qed
  then have t': "tree_in (node_at ?m) (Node l x ?r)" by (rule set_right_tree[OF t tl ap dl])
  have fr: "node_frame (ptrs (Node l x ?r)) (mem s') ?m" by (intro node_frame_store node_frame_refl) simp
  from rebalance_tree[OF t' ap dl lo] obtain m where
    m: "rebalance ?m (lp x) = (root (reb (Node l x ?r)), m)" "tree_in (node_at m) (reb (Node l x ?r))"
      "node_frame (ptrs (Node l x ?r)) ?m m" by blast
  note fr' = node_frame_trans[OF fr m(3)]
  note w = nodes.write_nodes[OF wf fr' ol]
  have "m y = mem s y" if y: "p \<in> own ps (mem s) - ptrs (Node l x r)" "y \<in> region p 48" for p y
  proof -
    have "p \<in> own ps' (mem s') - ptrs (Node l x ?r)" using y(1) sub qo ow by (auto split: if_splits)
    then have "m y = mem s' y" using nodes.other_nodes[OF wf fr' ol] y(2) by blast
    also have "\<dots> = mem s y" using rest[of p y] y by simp
    finally show ?thesis .
  qed
  note other = this
  have i: "ins q a n (Node l x r) = reb (Node l x ?r)" using key less_not_sym[OF key] by simp
  have "insert_post ps s (Node l x r) a n ps' q (s'\<lparr>mem := m\<rparr>)"
  proof (rule insert_postI)
    show "nh_wf ps' (s'\<lparr>mem := m\<rparr>)" by (rule w(1))
    show "pages_grow ps s ps' (s'\<lparr>mem := m\<rparr>)" by (rule pages_grow_write[OF gr wf fr' ol])
    show "tree_in (node_at (mem (s'\<lparr>mem := m\<rparr>))) (ins q a n (Node l x r))" unfolding i using m(2) by simp
    show "own ps' (mem (s'\<lparr>mem := m\<rparr>)) = (if a \<in> fst ` set (ranges (Node l x r)) then own ps (mem s) else insert q (own ps (mem s)))"
      unfolding keys using w(2) ow by simp
    show "mem (s'\<lparr>mem := m\<rparr>) y = mem s y" if "p \<in> own ps (mem s) - ptrs (Node l x r)" "y \<in> region p 48" for p y
      using other[OF that] by simp
  qed (rule qo)
  then show ?thesis using m(1) key less_not_sym[OF key] by (intro exI[of _ "s'\<lparr>mem := m\<rparr>"]) simp
qed

lemma insert_node_same:
  assumes wf: "nh_wf ps s" and t: "tree_in (node_at (mem s)) (Node l x r)" and d: "distinct (ptr_list (Node l x r))"
    and o: "ptrs (Node l x r) \<subseteq> own ps (mem s)" and q: "q \<notin> own ps (mem s)"
  shows "\<exists>s'. insert_node (lp x) (laddr x) n s = Some (lp x, s') \<and> insert_post ps s (Node l x r) (laddr x) n ps q s'"
proof -
  let ?m = "set_allocated (set_page_count (set_addr (mem s) (lp x) (laddr x)) (lp x) n) (lp x) 0"
  have fr: "node_frame {lp x} (mem s) ?m" by (intro node_frame_store node_frame_refl) simp_all
  have o1: "{lp x} \<subseteq> own ps (mem s)" using o by simp
  note ap = apart_mono[OF nodes.apart_owned[OF wf] o]
  have st: "node_at ?m p = (if p = lp x then (node_at (mem s) p)\<lparr>nd_addr := laddr x, nd_page_count := n, nd_allocated := 0\<rparr> else node_at (mem s) p)"
    if "p \<in> ptrs (Node l x r)" for p
    using node_at_store[OF ap _ that] node_at_store_same by auto
  have sub: "tree_in (node_at ?m) l = tree_in (node_at (mem s)) l" "tree_in (node_at ?m) r = tree_in (node_at (mem s)) r"
    using st d by (auto intro!: tree_in_cong)
  have "insert_node (lp x) (laddr x) n s = Some (lp x, s\<lparr>mem := ?m\<rparr>)"
    using t by (subst insert_node.simps) (simp add: Let_def)
  moreover have "insert_post ps s (Node l x r) (laddr x) n ps q (s\<lparr>mem := ?m\<rparr>)"
  proof (rule insert_postI)
    show "tree_in (node_at (mem (s\<lparr>mem := ?m\<rparr>))) (ins q (laddr x) n (Node l x r))"
      using t sub st[of "lp x"] by simp
    show "mem (s\<lparr>mem := ?m\<rparr>) y = mem s y" if "p \<in> own ps (mem s) - ptrs (Node l x r)" "y \<in> region p 48" for p y
      using nodes.other_nodes[OF wf fr o1, of p y] that by simp
  qed (use nodes.write_nodes[OF wf fr o1] pages_grow_write[OF pages_grow_refl wf fr o1] q in \<open>simp_all add: entry_of_def\<close>)
  ultimately show ?thesis by blast
qed

lemma insert_node_tree:
  assumes "nh_wf ps s" "tree_in (node_at (mem s)) t" "distinct (ptr_list t)" "ptrs t \<subseteq> own ps (mem s)"
    "avl t" "height t \<le> 190" "ordered (ranges t)" "node_room ps s"
  shows "\<exists>ps' q s'. insert_node (root t) a n s = Some (root (ins q a n t), s') \<and> insert_post ps s t a n ps' q s'"
  using assms
proof (induction t arbitrary: s)
  case Leaf
  then show ?case using insert_node_Leaf[of ps s a n] by simp
next
  case (Node l x r)
  note o = ordered_append[OF Node.prems(7)[unfolded ranges_simps]]
  have nz: "lp x \<noteq> 0" "nd_addr (node_at (mem s) (lp x)) = laddr x" "nd_left (node_at (mem s) (lp x)) = root l"
    "nd_right (node_at (mem s) (lp x)) = root r" using Node.prems(2) by auto
  consider "a < laddr x" | "a > laddr x" | "a = laddr x" by fastforce
  then show ?case
  proof cases
    case 1
    obtain ps' q s' where i: "insert_node (root l) a n s = Some (root (ins q a n l), s')" "insert_post ps s l a n ps' q s'"
      using Node.IH(1)[of s] Node.prems o by auto
    have "low (ins q a n l)" "low r"
      using avl_ins[of l q a n] avl_heights(3)[of "ins q a n l"] avl_heights(3)[of r] Node.prems by auto
    from insert_up_left[OF Node.prems(2-4) this 1 Node.prems(7) i(2)] obtain s2 where
      "rebalance (set_left (mem s') (lp x) (root (ins q a n l))) (lp x) = (root (ins q a n (Node l x r)), mem s2)"
      "s2 = s'\<lparr>mem := mem s2\<rparr>" "insert_post ps s (Node l x r) a n ps' q s2" by blast
    moreover from this have "insert_node (lp x) a n s = Some (root (ins q a n (Node l x r)), s2)"
      using 1 nz i(1) by (subst insert_node.simps) (simp add: Let_def del: ins.simps)
    ultimately show ?thesis by auto
  next
    case 2
    obtain ps' q s' where i: "insert_node (root r) a n s = Some (root (ins q a n r), s')" "insert_post ps s r a n ps' q s'"
      using Node.IH(2)[of s] Node.prems o by auto
    have "low l" "low (ins q a n r)"
      using avl_ins[of r q a n] avl_heights(3)[of "ins q a n r"] avl_heights(3)[of l] Node.prems by auto
    from insert_up_right[OF Node.prems(2-4) this 2 Node.prems(7) i(2)] obtain s2 where
      "rebalance (set_right (mem s') (lp x) (root (ins q a n r))) (lp x) = (root (ins q a n (Node l x r)), mem s2)"
      "s2 = s'\<lparr>mem := mem s2\<rparr>" "insert_post ps s (Node l x r) a n ps' q s2" by blast
    moreover from this have "insert_node (lp x) a n s = Some (root (ins q a n (Node l x r)), s2)"
      using 2 less_not_sym[OF 2] nz i(1) by (subst insert_node.simps) (simp add: Let_def del: ins.simps)
    ultimately show ?thesis by auto
  next
    case 3
    obtain q where "q \<notin> own ps (mem s)" using nodes.create_fresh[OF Node.prems(1,8)] by blast
    from insert_node_same[OF Node.prems(1-4) this, of n] 3 show ?thesis by auto
  qed
qed

section \<open>Properties of insertion\<close>

text \<open>
  The representation: the tree \<open>t\<close> is stored at its addresses in nodes the allocator has handed out,
  no node twice, it is balanced with the right heights in the nodes, and sorted by address.
\<close>

definition avl_rep :: "u64 list \<Rightarrow> 'z node_heap_scheme \<Rightarrow> avl \<Rightarrow> bool" where
  "avl_rep ps s t \<longleftrightarrow> nh_wf ps s \<and> tree_in (node_at (mem s)) t \<and> distinct (ptr_list t) \<and>
     ptrs t \<subseteq> own ps (mem s) \<and> avl t \<and> ordered (ranges t)"

lemma avl_rep_Leaf: "avl_rep ps s Leaf \<longleftrightarrow> nh_wf ps s"
  by (simp add: avl_rep_def ordered_def)

lemma insert_node_rep:
  assumes "avl_rep ps s t" "node_room ps s"
  obtains ps' q s' where "insert_node (root t) a n s = Some (root (ins q a n t), s')"
    "avl_rep ps' s' (ins q a n t)" "insert_post ps s t a n ps' q s'"
proof -
  have r: "nh_wf ps s" "tree_in (node_at (mem s)) t" "distinct (ptr_list t)" "ptrs t \<subseteq> own ps (mem s)" "avl t"
    "ordered (ranges t)" using assms(1) by (auto simp: avl_rep_def)
  have h: "height t \<le> 190" using height_bound[OF r(5,3)] by simp
  from insert_node_tree[OF r(1-5) h r(6) assms(2)] obtain ps' q s' where
    i: "insert_node (root t) a n s = Some (root (ins q a n t), s')" "insert_post ps s t a n ps' q s'" by blast
  have P: "nh_wf ps' s'" "tree_in (node_at (mem s')) (ins q a n t)" "q \<notin> own ps (mem s)"
    "own ps' (mem s') = (if a \<in> fst ` set (ranges t) then own ps (mem s) else insert q (own ps (mem s)))"
    using i(2) by (simp_all add: insert_post_def)
  have "distinct (ptr_list (ins q a n t))" using ptr_list_ins(2)[OF r(3)] P(3) r(4) by blast
  moreover have "ptrs (ins q a n t) \<subseteq> own ps' (mem s')" using ptrs_ins[OF r(6), of q a n] P(4) r(4) by auto
  moreover have "avl (ins q a n t)" using avl_ins[OF r(5) h] by blast
  moreover have "ordered (ranges (ins q a n t))" using ranges_ins[OF r(6)] ordered_upd[OF r(6)] by simp
  ultimately show thesis using that i P(1,2) by (simp add: avl_rep_def)
qed

text \<open>
  C1. \<open>_insert_node\<close> is correct: on a tree in memory that is sorted, balanced and well formed, with
  room for one more node, it returns, and the result is again such a tree, which maps the inserted
  address to a free range of the given size and every other address to what it was. The recursion
  ends, the stored heights never wrap, and no node outside the tree is changed.
\<close>

theorem insert_node_correct:
  assumes "avl_rep ps s t" "node_room ps s"
  shows "\<exists>ps' t' s'. insert_node (root t) a n s = Some (root t', s') \<and> avl_rep ps' s' t' \<and>
    map_of (ranges t') = (map_of (ranges t))(a \<mapsto> (n, 0)) \<and>
    (\<forall>p\<in>own ps (mem s) - ptrs t. node_at (mem s') p = node_at (mem s) p)"
proof -
  have o: "ordered (ranges t)" using assms(1) by (simp add: avl_rep_def)
  from insert_node_rep[OF assms] obtain ps' q s' where i: "insert_node (root t) a n s = Some (root (ins q a n t), s')"
    "avl_rep ps' s' (ins q a n t)" "insert_post ps s t a n ps' q s'" .
  moreover have "map_of (ranges (ins q a n t)) = (map_of (ranges t))(a \<mapsto> (n, 0))"
    using ranges_ins[OF o] map_of_upd[OF o] by simp
  moreover have "node_at (mem s') p = node_at (mem s) p" if "p \<in> own ps (mem s) - ptrs t" for p
    using i(3) that by (intro node_at_cong) (auto simp: insert_post_def)
  ultimately show ?thesis by blast
qed

theorem insert_node_correct_witness:
  "\<exists>ps' t' s'. insert_node 0 0x100000 5 demo_nodes = Some (root t', s') \<and> avl_rep ps' s' t' \<and>
     map_of (ranges t') 0x100000 = Some (5, 0)"
  using insert_node_correct[of "[]" demo_nodes Leaf "0x100000" 5] demo_nodes_wf(1,2)
  by (simp add: avl_rep_Leaf) (metis fun_upd_same)

end
