(* ===== verification/Avl_Lookup.thy ===== *)
theory Avl_Lookup
  imports Avl_Insert
begin

text \<open>
  The searches of \<^verbatim>\<open>avl_tree.c\<close>: \<open>avl_find\<close>, \<open>avl_min_size\<close> and \<open>avl_below\<close> on a tree in memory are
  searches in the sorted list of its ranges, and they return.
\<close>

section \<open>Lookup\<close>

lemma find_append: "find P (xs @ ys) = (case find P xs of None \<Rightarrow> find P ys | Some x \<Rightarrow> Some x)"
  by (induction xs) auto

lemma find_SomeD: "find P xs = Some y \<Longrightarrow> y \<in> set xs \<and> P y"
  by (induction xs) (auto split: if_splits)

text \<open>The node a search reports: its address, or a null pointer.\<close>

definition found :: "label option \<Rightarrow> u64" where
  "found r = (case r of None \<Rightarrow> 0 | Some x \<Rightarrow> lp x)"

lemma found_simps [simp]: "found None = 0" "found (Some x) = lp x" by (simp_all add: found_def)

lemma tree_in_lp: "tree_in H t \<Longrightarrow> x \<in> set_tree t \<Longrightarrow> lp x \<noteq> 0 \<and> lp x \<in> ptrs t \<and>
    nd_addr (H (lp x)) = laddr x \<and> nd_page_count (H (lp x)) = lpages x \<and> nd_allocated (H (lp x)) = lalloc x"
  by (induction t) auto

lemma avl_min_size_tree:
  "tree_in (node_at m) t \<Longrightarrow> t \<noteq> Leaf \<Longrightarrow>
   avl_min_size m (root t) n = Some (found (find (\<lambda>x. n \<le> lpages x \<and> lalloc x = 0) (rev (inorder t))))"
proof (induction t)
  case (Node l x r)
  let ?P = "\<lambda>x. n \<le> lpages x \<and> lalloc x = 0"
  have nd: "nd_left (node_at m (lp x)) = root l" "nd_right (node_at m (lp x)) = root r"
    "nd_page_count (node_at m (lp x)) = lpages x" "nd_allocated (node_at m (lp x)) = lalloc x" using Node.prems by auto
  have lr: "root l = 0 \<longleftrightarrow> l = Leaf" "root r = 0 \<longleftrightarrow> r = Leaf" using Node.prems by (auto simp: root_zero)
  have right: "(if root r \<noteq> 0 then avl_min_size m (root r) n else Some 0) = Some (found (find ?P (rev (inorder r))))"
    using Node by (auto simp: lr)
  have nz: "found (find ?P (rev (inorder r))) = 0 \<longleftrightarrow> find ?P (rev (inorder r)) = None"
  proof (cases "find ?P (rev (inorder r))")
    case (Some y)
    then have "y \<in> set_tree r" by (auto dest: find_SomeD)
    then show ?thesis using tree_in_lp[of "node_at m" r y] Node.prems Some by auto
  qed simp
  have left: "(if root l \<noteq> 0 then avl_min_size m (root l) n else Some 0) = Some (found (find ?P (rev (inorder l))))"
    using Node by (auto simp: lr)
  have "avl_min_size m (lp x) n = (if found (find ?P (rev (inorder r))) \<noteq> 0 then Some (found (find ?P (rev (inorder r))))
      else if ?P x then Some (lp x) else Some (found (find ?P (rev (inorder l)))))"
    by (subst avl_min_size.simps) (simp only: Let_def nd right left Option.bind.simps)
  then show ?case unfolding nz by (auto simp: find_append split: option.splits)
qed simp

lemma ordered_nodes:
  assumes "ordered (ranges (Node l x r))"
  shows "\<And>y. y \<in> set_tree l \<Longrightarrow> laddr y < laddr x" "\<And>y. y \<in> set_tree r \<Longrightarrow> laddr x < laddr y"
  using assms by (auto simp: ordered_def ranges_def sorted_wrt_append entry_of_def)

lemma find_none: "(\<And>y. y \<in> set xs \<Longrightarrow> \<not> P y) \<Longrightarrow> find P xs = None"
  by (auto simp: find_None_iff)

lemma avl_find_tree:
  "tree_in (node_at m) t \<Longrightarrow> t \<noteq> Leaf \<Longrightarrow> ordered (ranges t) \<Longrightarrow>
   avl_find m (root t) a = Some (found (find (\<lambda>x. laddr x = a) (inorder t)))"
proof (induction t)
  case (Node l x r)
  note o = ordered_append[OF Node.prems(3)[unfolded ranges_simps]]
  have nd: "nd_left (node_at m (lp x)) = root l" "nd_right (node_at m (lp x)) = root r"
    "nd_addr (node_at m (lp x)) = laddr x" using Node.prems by auto
  have lr: "root l = 0 \<longleftrightarrow> l = Leaf" "root r = 0 \<longleftrightarrow> r = Leaf" using Node.prems by (auto simp: root_zero)
  have none: "laddr x \<le> a \<Longrightarrow> find (\<lambda>x. laddr x = a) (inorder l) = None"
     "a \<le> laddr x \<Longrightarrow> find (\<lambda>x. laddr x = a) (inorder r) = None"
    using ordered_nodes[OF Node.prems(3)] by (fastforce intro: find_none)+
  have left: "(if root l \<noteq> 0 then avl_find m (root l) a else Some 0) = Some (found (find (\<lambda>x. laddr x = a) (inorder l)))"
    and right: "(if root r \<noteq> 0 then avl_find m (root r) a else Some 0) = Some (found (find (\<lambda>x. laddr x = a) (inorder r)))"
    using Node o by (auto simp: lr)
  have "avl_find m (lp x) a = (if laddr x = a then Some (lp x) else if a < laddr x
      then Some (found (find (\<lambda>x. laddr x = a) (inorder l))) else Some (found (find (\<lambda>x. laddr x = a) (inorder r))))"
    by (subst avl_find.simps) (simp only: Let_def nd left right)
  then show ?case using none by (auto simp: find_append split: option.splits)
qed simp


text \<open>The address after a range, and when the 32-bit difference of \<open>avl_below\<close> is exact.\<close>

definition range_end :: "label \<Rightarrow> nat" where
  "range_end x = unat (laddr x) + 4096 * unat (lpages x)"

definition near :: "u64 \<Rightarrow> avl \<Rightarrow> bool" where
  "near a t \<longleftrightarrow> (\<forall>x\<in>set_tree t. - (2 ^ 31) \<le> int (unat a) - int (range_end x) \<and> int (unat a) - int (range_end x) < 2 ^ 31)"

definition ends_ordered :: "avl \<Rightarrow> bool" where
  "ends_ordered t \<longleftrightarrow> sorted_wrt (<) (map range_end (inorder t))"

lemma below_diff:
  assumes "- (2 ^ 31) \<le> int (unat a) - int (range_end x)" "int (unat a) - int (range_end x) < 2 ^ 31"
  shows "sint (ucast (a - (laddr x + lpages x * 0x1000)) :: u32) = int (unat a) - int (range_end x)"
proof -
  let ?d = "int (unat a) - int (range_end x)"
  have "a - (laddr x + lpages x * 0x1000) = word_of_int ?d"
    by (simp add: range_end_def mult.commute)
  moreover have "(ucast (word_of_int k :: u64) :: u32) = word_of_int k" for k
    by (simp add: unsigned_of_int word_of_int_eq_iff take_bit_take_bit)
  moreover have "sint (word_of_int ?d :: u32) = ?d"
    using assms by (simp only: signed_of_int) (simp add: signed_take_bit_int_eq_self)
  ultimately show ?thesis by metis
qed

lemma avl_below_tree:
  "tree_in (node_at m) t \<Longrightarrow> t \<noteq> Leaf \<Longrightarrow> ends_ordered t \<Longrightarrow> near a t \<Longrightarrow>
   avl_below m (root t) a = Some (found (find (\<lambda>x. range_end x = unat a) (inorder t)))"
proof (induction t)
  case (Node l x r)
  let ?P = "\<lambda>x. range_end x = unat a"
  have nd: "nd_left (node_at m (lp x)) = root l" "nd_right (node_at m (lp x)) = root r"
    "nd_addr (node_at m (lp x)) = laddr x" "nd_page_count (node_at m (lp x)) = lpages x" using Node.prems by auto
  have lr: "root l = 0 \<longleftrightarrow> l = Leaf" "root r = 0 \<longleftrightarrow> r = Leaf" using Node.prems by (auto simp: root_zero)
  have sub: "ends_ordered l" "ends_ordered r" "near a l" "near a r"
    using Node.prems by (auto simp: ends_ordered_def near_def sorted_wrt_append)
  have ord: "\<And>y. y \<in> set_tree l \<Longrightarrow> range_end y < range_end x" "\<And>y. y \<in> set_tree r \<Longrightarrow> range_end x < range_end y"
    using Node.prems(3) by (auto simp: ends_ordered_def sorted_wrt_append)
  have none: "range_end x \<le> unat a \<Longrightarrow> find ?P (inorder l) = None" "unat a \<le> range_end x \<Longrightarrow> find ?P (inorder r) = None"
    using ord by (fastforce intro: find_none)+
  have left: "(if root l \<noteq> 0 then avl_below m (root l) a else Some 0) = Some (found (find ?P (inorder l)))"
    and right: "(if root r \<noteq> 0 then avl_below m (root r) a else Some 0) = Some (found (find ?P (inorder r)))"
    using Node sub by (auto simp: lr)
  have d: "sint (ucast (a - (laddr x + lpages x * 0x1000)) :: u32) = int (unat a) - int (range_end x)"
    using below_diff[of a x] Node.prems(4) by (simp add: near_def)
  have c: "int (unat a) - int (range_end x) = 0 \<longleftrightarrow> range_end x = unat a"
    "int (unat a) - int (range_end x) < 0 \<longleftrightarrow> unat a < range_end x" by linarith+
  have "avl_below m (lp x) a = (if range_end x = unat a then Some (lp x) else if unat a < range_end x
      then Some (found (find ?P (inorder l))) else Some (found (find ?P (inorder r))))"
    by (subst avl_below.simps) (simp only: Let_def nd left right d c)
  then show ?case using none by (auto simp: find_append split: option.splits)
qed simp


section \<open>Properties of lookup\<close>

text \<open>A heap with one node page that holds a tree of three nodes, for the witnesses.\<close>

definition demo_node0 :: u64 where "demo_node0 = node_addr 0x4000 0"
definition demo_node1 :: u64 where "demo_node1 = node_addr 0x4000 1"
definition demo_node2 :: u64 where "demo_node2 = node_addr 0x4000 2"

definition demo_base :: node_heap where
  "demo_base = demo_nodes\<lparr>g_free_index := 2, g_node_list_head := 0x4000 + PHYSICAL_MAP_OFFSET,
     mem := st64 (mem demo_vm) (entry_addr 0x4000 2) 7\<rparr>"

definition demo_store :: "memory \<Rightarrow> label \<Rightarrow> u64 \<Rightarrow> u64 \<Rightarrow> memory" where
  "demo_store m x l r =
     set_height (set_right (set_left (set_allocated (set_page_count (set_addr m (lp x) (laddr x)) (lp x) (lpages x))
       (lp x) (lalloc x)) (lp x) l) (lp x) r) (lp x) (lheight x)"

definition demo_x0 :: label where
  "demo_x0 = \<lparr>lp = demo_node0, laddr = 0x100000, lpages = 5, lalloc = 0, lheight = 1\<rparr>"
definition demo_x1 :: label where
  "demo_x1 = \<lparr>lp = demo_node1, laddr = 0x105000, lpages = 7, lalloc = 1, lheight = 0\<rparr>"
definition demo_x2 :: label where
  "demo_x2 = \<lparr>lp = demo_node2, laddr = 0x80000, lpages = 9, lalloc = 0, lheight = 0\<rparr>"
definition demo_tree :: avl where "demo_tree = Node (Node Leaf demo_x2 Leaf) demo_x0 (Node Leaf demo_x1 Leaf)"

definition demo_heap :: node_heap where
  "demo_heap = demo_base\<lparr>mem := demo_store (demo_store (demo_store (mem demo_base) demo_x0 demo_node2 demo_node1) demo_x1 0 0) demo_x2 0 0\<rparr>"

lemma demo_base_wf: "nh_wf [0x4000] demo_base" "own [0x4000] (mem demo_base) = {demo_node0, demo_node1, demo_node2}"
  "pmm_stack demo_base = [0x2000, 0x3000]"
proof -
  have p: "phys_ok 0x4000" "phys_ok 0x2000" "phys_ok 0x3000" by (simp_all add: phys_ok_def)
  have z: "pte (mem demo_vm) q i = 0" if "q \<in> {0x2000, 0x3000, 0x4000}" "i < 512" for q i
    using demo_vm_fresh(1) that pt_wfD(4)[of "mem demo_vm" "0x1000" "set (pmm_stack demo_vm)" q i] by (auto simp: vm_wf_def demo_vm_stack)
  have pm: "pte (mem demo_base) q i = (if q = 0x4000 \<and> i = 2 then 7 else 0)" if "q \<in> {0x2000, 0x3000, 0x4000}" "i < 512" for q i
    using z[OF that] p that by (auto simp: demo_base_def pte_st_ok)
  have low: "stack_low (demo_vm\<lparr>g_free_index := 2\<rparr>)" by (simp add: demo_vm_def stack_low_def)
  have "pmm_stack (demo_vm\<lparr>g_free_index := 2\<rparr>) = [0x2000, 0x3000]"
    using demo_vm_stack by (simp add: pmm_stack_def demo_vm_def upt_rec)
  then show stk: "pmm_stack demo_base = [0x2000, 0x3000]"
    using stack_st[OF low p(1), of 2 7] by (simp add: demo_base_def demo_nodes_def demo_vm_def pmm_stack_def)
  have us: "used (mem demo_base) 0x4000 k \<longleftrightarrow> k < 3" if "k < 128" for k
  proof -
    have "(7::u64) = mask 3" by (simp add: mask_eq_exp_minus_1)
    then have b: "bit (7::u64) n \<longleftrightarrow> n < 3" for n by (simp only: bit_mask_iff) auto
    show ?thesis
    proof (cases "k < 64")
      case True
      then show ?thesis using pm[of "0x4000" 2] b[of k] by (simp add: used_def)
    next
      case False
      then have "k div 64 = 1" using that by simp
      then show ?thesis using pm[of "0x4000" 3] False by (simp add: used_def)
    qed
  qed
  show "nh_wf [0x4000] demo_base" unfolding nh_wf_def stk
    using p pm us by (auto simp: demo_base_def hdr_ok_def stack_low_def demo_nodes_def)
  show "own [0x4000] (mem demo_base) = {demo_node0, demo_node1, demo_node2}"
    using us by (auto simp: own_def demo_node0_def demo_node1_def demo_node2_def slot_def less_Suc_eq numeral_3_eq_3 numeral_2_eq_2)
qed


lemma demo_nodes_apart: "apart {demo_node0, demo_node1, demo_node2}" "distinct [demo_node0, demo_node1, demo_node2]"
  "demo_node0 \<noteq> 0" "demo_node1 \<noteq> 0" "demo_node2 \<noteq> 0"
  using nodes.apart_owned[OF demo_base_wf(1)] nodes.owned_nonzero[OF demo_base_wf(1)] node_addr_inj[of "0x4000" "0x4000" 0 1]
    node_addr_inj[of "0x4000" "0x4000" 0 2] node_addr_inj[of "0x4000" "0x4000" 1 2]
  by (auto simp: demo_base_wf(2) demo_node0_def demo_node1_def demo_node2_def phys_ok_def slot_def)

lemma demo_store_at:
  assumes "lp x \<in> {demo_node0, demo_node1, demo_node2}" "q \<in> {demo_node0, demo_node1, demo_node2}"
  shows "node_at (demo_store m x l r) q = (if q = lp x then \<lparr>nd_addr = laddr x, nd_page_count = lpages x, nd_allocated = lalloc x,
     nd_left = l, nd_right = r, nd_height = lheight x\<rparr> else node_at m q)"
  using assms demo_nodes_apart(2) by (simp add: demo_store_def node_at_store[OF demo_nodes_apart(1)])

lemma demo_heap_rep: "avl_rep [0x4000] demo_heap demo_tree" "own [0x4000] (mem demo_heap) = {demo_node0, demo_node1, demo_node2}"
  "stack_space demo_heap" "g_free_index demo_heap = 2"
proof -
  let ?W = "{demo_node0, demo_node1, demo_node2}"
  have x: "lp demo_x0 = demo_node0" "lp demo_x1 = demo_node1" "lp demo_x2 = demo_node2"
    by (simp_all add: demo_x0_def demo_x1_def demo_x2_def)
  have st: "node_frame ?W m (demo_store m x l r)" if "lp x \<in> ?W" for m x l r
    unfolding demo_store_def using that by (intro node_frame_store node_frame_refl)
  have fr: "node_frame ?W (mem demo_base) (mem demo_heap)"
    unfolding demo_heap_def using x by (simp add: node_frame_trans[OF st node_frame_trans[OF st st]])
  have sub: "?W \<subseteq> own [0x4000] (mem demo_base)" by (simp add: demo_base_wf(2))
  have h: "demo_heap = demo_base\<lparr>mem := mem demo_heap\<rparr>" by (simp add: demo_heap_def)
  note w = nodes.write_nodes[OF demo_base_wf(1) fr sub]
  show own: "own [0x4000] (mem demo_heap) = ?W" using w(2) by (simp add: demo_base_wf(2))
  have "tree_in (node_at (mem demo_heap)) demo_tree"
    using demo_nodes_apart x by (simp add: demo_tree_def demo_heap_def demo_store_at)
  moreover have "avl demo_tree" "ordered (ranges demo_tree)"
    by (simp_all add: demo_tree_def demo_x0_def demo_x1_def demo_x2_def ordered_def entry_of_def)
  ultimately show "avl_rep [0x4000] demo_heap demo_tree" unfolding avl_rep_def
    using w(1) h own demo_nodes_apart(2) x by (simp add: demo_tree_def) auto
  show "stack_space demo_heap" "g_free_index demo_heap = 2"
    by (simp_all add: stack_space_def demo_heap_def demo_base_def demo_nodes_def)
qed


lemma find_rev:
  "find P (rev xs) = Some x \<Longrightarrow> \<exists>ys zs. xs = ys @ x # zs \<and> P x \<and> (\<forall>z\<in>set zs. \<not> P z)"
proof (induction xs rule: rev_induct)
  case (snoc y xs)
  show ?case
  proof (cases "P y")
    case True
    then have "xs @ [y] = xs @ x # [] \<and> P x" using snoc.prems by simp
    then show ?thesis by (intro exI[of _ xs] exI[of _ "[]"]) simp
  next
    case False
    then obtain ys zs where "xs = ys @ x # zs" "P x" "\<forall>z\<in>set zs. \<not> P z" using snoc by auto
    then show ?thesis using False by (intro exI[of _ ys] exI[of _ "zs @ [y]"]) auto
  qed
qed simp

lemma map_of_ranges:
  "ordered (ranges t) \<Longrightarrow> map_of (ranges t) a = map_option (\<lambda>x. (lpages x, lalloc x)) (find (\<lambda>x. laddr x = a) (inorder t))"
proof -
  have "map_of (map entry_of xs) a = map_option (\<lambda>x. (lpages x, lalloc x)) (find (\<lambda>x. laddr x = a) xs)" for xs
    by (induction xs) (auto simp: entry_of_def)
  then show ?thesis by (simp add: ranges_def)
qed

text \<open>
  C19. \<open>avl_find\<close> is lookup in the map the tree denotes: it returns, with a null pointer exactly when no
  range starts at the address, and otherwise with the node whose fields are the range's.
\<close>

theorem avl_find_correct:
  assumes "avl_rep ps s t" "t \<noteq> Leaf"
  shows "\<exists>p. avl_find (mem s) (root t) a = Some p \<and>
    (if p = 0 then map_of (ranges t) a = None
     else nd_addr (node_at (mem s) p) = a \<and>
       map_of (ranges t) a = Some (nd_page_count (node_at (mem s) p), nd_allocated (node_at (mem s) p)))"
proof -
  have r: "tree_in (node_at (mem s)) t" "ordered (ranges t)" using assms(1) by (auto simp: avl_rep_def)
  show ?thesis
  proof (cases "find (\<lambda>x. laddr x = a) (inorder t)")
    case None
    then show ?thesis using avl_find_tree[OF r(1) assms(2) r(2)] map_of_ranges[OF r(2)] by simp
  next
    case (Some x)
    then have x: "x \<in> set_tree t" "laddr x = a" using find_SomeD[OF Some] by auto
    then show ?thesis using tree_in_lp[OF r(1) x(1)] avl_find_tree[OF r(1) assms(2) r(2)] map_of_ranges[OF r(2)] Some by simp
  qed
qed

theorem avl_find_correct_witness:
  "\<exists>p. avl_find (mem demo_heap) demo_node0 0x105000 = Some p \<and> p \<noteq> 0 \<and> nd_page_count (node_at (mem demo_heap) p) = 7"
  using avl_find_correct[OF demo_heap_rep(1), of "0x105000"]
  by (auto simp: demo_tree_def demo_x0_def demo_x1_def demo_x2_def entry_of_def split: if_splits)

text \<open>
  C20. \<open>avl_min_size\<close> finds the highest free range that is large enough: it returns, with a null pointer
  exactly when there is no free range of at least \<open>n\<close> pages, and otherwise with the node of such a
  range above which there is no other.
\<close>

theorem avl_min_size_correct:
  assumes "avl_rep ps s t" "t \<noteq> Leaf"
  shows "\<exists>p. avl_min_size (mem s) (root t) n = Some p \<and>
    (if p = 0 then \<forall>(a, c, f)\<in>set (ranges t). f \<noteq> 0 \<or> c < n
     else p \<in> ptrs t \<and> n \<le> nd_page_count (node_at (mem s) p) \<and>
       (nd_addr (node_at (mem s) p), nd_page_count (node_at (mem s) p), 0) \<in> set (ranges t) \<and>
       (\<forall>(a, c, f)\<in>set (ranges t). nd_addr (node_at (mem s) p) < a \<longrightarrow> f \<noteq> 0 \<or> c < n))"
proof -
  let ?P = "\<lambda>x. n \<le> lpages x \<and> lalloc x = 0"
  have r: "tree_in (node_at (mem s)) t" "ordered (ranges t)" using assms(1) by (auto simp: avl_rep_def)
  note m = avl_min_size_tree[OF r(1) assms(2), of n]
  show ?thesis
  proof (cases "find ?P (rev (inorder t))")
    case None
    then have "\<forall>x\<in>set_tree t. \<not> ?P x" by (auto simp: find_None_iff)
    then show ?thesis using m None by (auto simp: ranges_def entry_of_def not_le)
  next
    case (Some x)
    from find_rev[OF Some] obtain ys zs where i: "inorder t = ys @ x # zs" "?P x" "\<forall>z\<in>set zs. \<not> ?P z" by blast
    have "x \<in> set (inorder t)" by (simp add: i(1))
    then have x: "x \<in> set_tree t" by simp
    have "laddr y < laddr x" if "y \<in> set ys" for y using r(2) that by (auto simp: ordered_def ranges_def i(1) sorted_wrt_append entry_of_def)
    then have "\<forall>y\<in>set_tree t. laddr x < laddr y \<longrightarrow> \<not> ?P y"
      using i(3) unfolding set_inorder[symmetric] i(1) by (auto dest: less_not_sym)
    then show ?thesis using m Some i(2) x tree_in_lp[OF r(1) x]
      by (auto simp: ranges_def entry_of_def not_le image_iff intro!: bexI[of _ x])
  qed
qed

theorem avl_min_size_correct_witness:
  "\<exists>p. avl_min_size (mem demo_heap) demo_node0 3 = Some p \<and> nd_addr (node_at (mem demo_heap) p) = 0x100000"
  using avl_min_size_correct[OF demo_heap_rep(1), of 3]
  by (auto simp: demo_tree_def demo_x0_def demo_x1_def demo_x2_def entry_of_def split: if_splits)

text \<open>
  C21. \<open>avl_below\<close> finds the range that ends at an address, when the ends of all ranges are less than
  \<open>2 ^ 31\<close> bytes away from it and in the order of the ranges.
\<close>

theorem avl_below_correct:
  assumes "avl_rep ps s t" "t \<noteq> Leaf" "near a t" "ends_ordered t"
  shows "\<exists>p. avl_below (mem s) (root t) a = Some p \<and>
    (if p = 0 then \<forall>(b, c, f)\<in>set (ranges t). unat b + 4096 * unat c \<noteq> unat a
     else p \<in> ptrs t \<and>
       unat (nd_addr (node_at (mem s) p)) + 4096 * unat (nd_page_count (node_at (mem s) p)) = unat a)"
proof -
  have r: "tree_in (node_at (mem s)) t" using assms(1) by (auto simp: avl_rep_def)
  note m = avl_below_tree[OF r assms(2,4,3)]
  show ?thesis
  proof (cases "find (\<lambda>x. range_end x = unat a) (inorder t)")
    case None
    then have "\<forall>x\<in>set_tree t. range_end x \<noteq> unat a" by (simp add: find_None_iff)
    then show ?thesis using m None by (auto simp: ranges_def entry_of_def range_end_def)
  next
    case (Some x)
    then have x: "x \<in> set_tree t" "range_end x = unat a" using find_SomeD[OF Some] by auto
    then show ?thesis using m Some tree_in_lp[OF r x(1)] by (simp add: range_end_def)
  qed
qed

theorem avl_below_correct_witness:
  "\<exists>p. avl_below (mem demo_heap) demo_node0 0x105000 = Some p \<and> p \<noteq> 0"
proof -
  have "near 0x105000 demo_tree" "ends_ordered demo_tree" "demo_tree \<noteq> Leaf" "root demo_tree = demo_node0"
    by (simp_all add: near_def ends_ordered_def range_end_def demo_tree_def demo_x0_def demo_x1_def demo_x2_def)
  with avl_below_correct[OF demo_heap_rep(1), of "0x105000"] show ?thesis
    by (auto simp: demo_tree_def demo_x0_def demo_x1_def demo_x2_def entry_of_def split: if_splits)
qed




end
