(* ===== verification/Avl_Delete.thy ===== *)
theory Avl_Delete
  imports Avl_Lookup
begin

text \<open>
  Deletion from the AVL tree: what \<open>free_node\<close> may write, \<open>del\<close> on abstract trees, and that
  \<open>_delete_node\<close> implements it where it does not read its uninitialised pointer; where it does, the
  tree that results when that pointer is null.
\<close>

subsection \<open>What \<open>free_node\<close> writes\<close>

lemma chain_links:
  assumes "chain m prev h ps" "p \<in> set ps"
  shows "pte m p 1 = 0 \<or> (\<exists>q\<in>set ps. pte m p 1 = q + PHYSICAL_MAP_OFFSET)"
    "h = p + PHYSICAL_MAP_OFFSET \<or> (\<exists>q\<in>set ps. pte m p 0 = q + PHYSICAL_MAP_OFFSET)"
proof -
  have n: "pte m p 1 = 0 \<or> (\<exists>q\<in>set ps. pte m p 1 = q + PHYSICAL_MAP_OFFSET)" if "chain m prev h ps" "p \<in> set ps" for prev h ps
    using that
  proof (induction ps arbitrary: prev h)
    case (Cons q ps)
    show ?case
    proof (cases "p = q")
      case True
      then show ?thesis using Cons.prems by (cases ps) auto
    next
      case False
      then show ?thesis using Cons by auto
    qed
  qed simp
  show "pte m p 1 = 0 \<or> (\<exists>q\<in>set ps. pte m p 1 = q + PHYSICAL_MAP_OFFSET)" by (rule n[OF assms])
  have "h = p + PHYSICAL_MAP_OFFSET \<and> pte m p 0 = prev \<or> (\<exists>q\<in>set ps. pte m p 0 = q + PHYSICAL_MAP_OFFSET)"
    using assms
  proof (induction ps arbitrary: prev h)
    case (Cons q ps)
    then show ?case by fastforce
  qed simp
  then show "h = p + PHYSICAL_MAP_OFFSET \<or> (\<exists>q\<in>set ps. pte m p 0 = q + PHYSICAL_MAP_OFFSET)" by blast
qed

text \<open>A store to the header of a node page, or below the direct map.\<close>

definition free_frame :: "u64 set \<Rightarrow> memory \<Rightarrow> memory \<Rightarrow> bool" where
  "free_frame P m m' \<longleftrightarrow>
     (\<forall>x. (\<forall>p\<in>P. x \<notin> region (p + PHYSICAL_MAP_OFFSET) 32) \<and> 2 ^ 64 - 2 ^ 46 \<le> unat x \<longrightarrow> m' x = m x)"

lemma free_frame_hdr: "hdr_frame P m m' \<Longrightarrow> free_frame P m m'"
  by (auto simp: hdr_frame_def free_frame_def)

lemma free_frame_trans: "free_frame P m m' \<Longrightarrow> free_frame P m' m'' \<Longrightarrow> free_frame P m m''"
  by (auto simp: free_frame_def)

lemma free_frame_low:
  assumes "unat a + 8 \<le> 2 ^ 64 - 2 ^ 46"
  shows "free_frame P m (st64 m a v)"
  unfolding free_frame_def
proof (intro allI impI)
  fix x assume x: "(\<forall>p\<in>P. x \<notin> region (p + PHYSICAL_MAP_OFFSET) 32) \<and> 2 ^ 64 - 2 ^ 46 \<le> unat x"
  then have "x \<notin> region a 8" using assms by (auto simp: region_def unat_sub_if')
  then show "st64 m a v x = m x" by (rule m64.st_region)
qed

lemma free_frame_entry: "p \<in> P \<Longrightarrow> i < 4 \<Longrightarrow> free_frame P m (st64 m (entry_addr p i) v)"
  by (rule free_frame_hdr[OF hdr_frame_st])

lemma clear_bit:
  assumes "phys_ok p" "k < 32"
  shows "\<exists>v. set_header_bit m (p + PHYSICAL_MAP_OFFSET)
      (sint (PAGE_NODES (p + PHYSICAL_MAP_OFFSET) - node_addr p k) sdiv int AVL_NODE_SIZE) False = st64 m (entry_addr p 2) v"
proof (cases "k = 0")
  case True
  have "PAGE_NODES (p + PHYSICAL_MAP_OFFSET) - node_addr p 0 = 0" by (simp add: PAGE_NODES_def node_addr_def)
  then show ?thesis unfolding True
    by (simp add: set_header_bit_def Let_def entry_addr_def PAGE_HEADER_def) blast
next
  case False
  then show ?thesis using free_node_clear[OF assms(1) _ assms(2)] by blast
qed

lemma unlink_frame:
  assumes ch: "chain (mem s) 0 (g_node_list_head s) ps" and p: "p \<in> set ps" and sp: "stack_space s"
  shows "free_frame (set ps) (mem s) (mem (unlink_page (p + PHYSICAL_MAP_OFFSET) s))"
proof -
  have ptr: "PAGE_POINTER (x + PHYSICAL_MAP_OFFSET) 0 = entry_addr x 0" "PAGE_POINTER (x + PHYSICAL_MAP_OFFSET) 1 = entry_addr x 1" for x
    by (simp_all add: PAGE_POINTER_def entry_addr_def)
  have ld: "ld64 m (PAGE_POINTER (x + PHYSICAL_MAP_OFFSET) (Suc 0)) = pte m x 1"
    "ld64 m (PAGE_POINTER (x + PHYSICAL_MAP_OFFSET) 0) = pte m x 0" for m x
    using ptr by (simp_all add: pte_def)
  have push: "free_frame (set ps) m (st64 m (g_free_pages s + 8 * g_free_index s) v)" for m v
    using sp unat_of_nat[of "8 * unat (g_free_index s)", where 'a = 64]
    by (intro free_frame_low) (simp add: stack_space_def unat_plus_if' split: if_splits)
  have zero: "free_frame (set ps) m (st64 m 0 v)" for m v by (intro free_frame_low) simp
  note links = chain_links[OF ch p]
  have nx: "free_frame (set ps) m (st64 m (PAGE_POINTER (pte (mem s) p 1) 0) v)" for m v
    using links(1) free_frame_entry[of _ "set ps" 0] zero by (auto simp: ptr PAGE_POINTER_def[of 0])
  show ?thesis
  proof (cases "g_node_list_head s = p + PHYSICAL_MAP_OFFSET")
    case True
    then show ?thesis using push free_frame_trans[OF push nx]
      by (simp add: unlink_page_def Let_def pmm_free_page_def ld)
  next
    case False
    then obtain q where q: "q \<in> set ps" "pte (mem s) p 0 = q + PHYSICAL_MAP_OFFSET" using links(2) by auto
    then show ?thesis using False free_frame_trans[OF free_frame_trans[OF free_frame_entry[OF q(1), of 1] nx] push]
      by (simp add: unlink_page_def Let_def pmm_free_page_def ld ptr(2)[unfolded One_nat_def] flip: pte_def)
  qed
qed


lemma free_node_frame:
  assumes wf: "nh_wf ps s" and p: "p \<in> set ps" "k < 32" and sp: "stack_space s"
  shows "free_frame (set ps) (mem s) (mem (free_node (node_addr p k) s))"
proof -
  note w = nh_wfD[OF wf]
  have pok: "phys_ok p" using w(4)[OF p(1)] by simp
  obtain v where v: "set_header_bit (mem s) (p + PHYSICAL_MAP_OFFSET)
      (sint (PAGE_NODES (p + PHYSICAL_MAP_OFFSET) - node_addr p k) sdiv int AVL_NODE_SIZE) False = st64 (mem s) (entry_addr p 2) v"
    using clear_bit[OF pok p(2)] by blast
  let ?s = "s\<lparr>mem := st64 (mem s) (entry_addr p 2) v\<rparr>"
  have f1: "free_frame (set ps) (mem s) (mem ?s)" using free_frame_entry[OF p(1), of 2] by simp
  have un: "free_frame (set ps) (mem ?s) (mem (unlink_page (p + PHYSICAL_MAP_OFFSET) ?s))"
  proof (rule unlink_frame[OF _ p(1)])
    show "chain (mem ?s) 0 (g_node_list_head ?s) ps"
      using w(1,4) pok by (subst chain_frame[of _ _ "mem s"]) (auto simp: pte_st_ok)
  qed (use sp in \<open>simp add: stack_space_def\<close>)
  have "free_node (node_addr p k) s \<in> {?s, unlink_page (p + PHYSICAL_MAP_OFFSET) ?s}"
    using p(2) by (simp add: free_node_def Let_def node_page[OF pok] v)
  then show ?thesis using f1 free_frame_trans[OF f1 un] by auto
qed


lemma free_node_keeps:
  assumes wf: "nh_wf ps s" and p: "p \<in> set ps" "k < 32" and sp: "stack_space s" and q: "q \<in> own ps (mem s)"
  shows "node_at (mem (free_node (node_addr p k) s)) q = node_at (mem s) q"
proof (rule node_at_cong)
  fix x assume x: "x \<in> region q 48"
  obtain b where "b \<in> set ps" "x \<in> region (b + PHYSICAL_MAP_OFFSET) 4096" using nodes_in_window[OF wf q x] by blast
  then have "2 ^ 64 - 2 ^ 46 \<le> unat x" using window_high nh_wfD(4)[OF wf] by blast
  moreover have "\<forall>p\<in>set ps. x \<notin> region (p + PHYSICAL_MAP_OFFSET) 32"
    using nodes_region[OF wf q x] nh_wfD(4)[OF wf] by blast
  ultimately show "mem (free_node (node_addr p k) s) x = mem s x"
    using free_node_frame[OF wf p sp] by (simp add: free_frame_def)
qed

section \<open>Deletion\<close>

fun min_node :: "avl \<Rightarrow> label" where
  "min_node (Node l x r) = (if l = Leaf then x else min_node l)"
| "min_node Leaf = undefined"

fun cut_min :: "avl \<Rightarrow> avl" where
  "cut_min Leaf = Leaf"
| "cut_min (Node l x r) = (if l = Leaf then r else Node (cut_min l) x r)"

definition copy_data :: "label \<Rightarrow> label \<Rightarrow> label" where
  "copy_data x y = x\<lparr>laddr := laddr y, lpages := lpages y, lalloc := lalloc y\<rparr>"

fun del :: "u64 \<Rightarrow> avl \<Rightarrow> avl" where
  "del a Leaf = Leaf"
| "del a (Node l x r) =
     (if a < laddr x then reb (Node (del a l) x r)
      else if a > laddr x then reb (Node l x (del a r))
      else if l = Leaf \<and> r = Leaf then Leaf
      else if r = Leaf then reb l
      else if l = Leaf then reb r
      else reb (Node l (copy_data x (min_node r)) (cut_min r)))"

fun target :: "u64 \<Rightarrow> avl \<Rightarrow> avl" where
  "target a Leaf = Leaf"
| "target a (Node l x r) =
     (if a < laddr x then target a l else if a > laddr x then target a r else Node l x r)"

text \<open>
  The nodes \<open>_delete_node\<close> can remove: those with at most one child, and those whose right child has
  a left child. With two children and no left grandchild the code reads the pointer it never set.
\<close>

fun one_child :: "avl \<Rightarrow> bool" where
  "one_child (Node l x r) \<longleftrightarrow> l = Leaf \<or> r = Leaf"
| "one_child Leaf \<longleftrightarrow> True"

fun deep_successor :: "avl \<Rightarrow> bool" where
  "deep_successor (Node l x (Node rl y rr)) \<longleftrightarrow> l \<noteq> Leaf \<and> rl \<noteq> Leaf"
| "deep_successor _ \<longleftrightarrow> False"

text \<open>The node that goes back to the allocator.\<close>

fun freed :: "avl \<Rightarrow> label" where
  "freed (Node l x r) = (if l = Leaf \<or> r = Leaf then x else min_node r)"
| "freed Leaf = undefined"

lemma ranges_cut_min: "r \<noteq> Leaf \<Longrightarrow> entry_of (min_node r) # ranges (cut_min r) = ranges r"
  by (induction r) auto

lemma ptr_list_cut_min: "r \<noteq> Leaf \<Longrightarrow> lp (min_node r) # ptr_list (cut_min r) = ptr_list r"
  by (induction r) auto

lemma copy_data_simps [simp]: "entry_of (copy_data x y) = entry_of y" "lp (copy_data x y) = lp x" "lheight (copy_data x y) = lheight x"
  "laddr (copy_data x y) = laddr y" "lpages (copy_data x y) = lpages y" "lalloc (copy_data x y) = lalloc y"
  by (simp_all add: copy_data_def entry_of_def)

lemma filter_key:
  assumes "ordered (xs @ e # ys)"
  shows "a < fst e \<Longrightarrow> filter (\<lambda>e. fst e \<noteq> a) (xs @ e # ys) = filter (\<lambda>e. fst e \<noteq> a) xs @ e # ys"
    "a > fst e \<Longrightarrow> filter (\<lambda>e. fst e \<noteq> a) (xs @ e # ys) = xs @ e # filter (\<lambda>e. fst e \<noteq> a) ys"
    "a = fst e \<Longrightarrow> filter (\<lambda>e. fst e \<noteq> a) (xs @ e # ys) = xs @ ys"
proof -
  have l: "\<forall>x\<in>set xs. fst x < fst e" "\<forall>y\<in>set ys. fst e < fst y"
    using assms by (auto simp: ordered_def sorted_wrt_append)
  show "a < fst e \<Longrightarrow> filter (\<lambda>e. fst e \<noteq> a) (xs @ e # ys) = filter (\<lambda>e. fst e \<noteq> a) xs @ e # ys"
    using l(2) by (auto simp: filter_id_conv)
  show "a > fst e \<Longrightarrow> filter (\<lambda>e. fst e \<noteq> a) (xs @ e # ys) = xs @ e # filter (\<lambda>e. fst e \<noteq> a) ys"
    using l(1) by (auto simp: filter_id_conv)
  show "a = fst e \<Longrightarrow> filter (\<lambda>e. fst e \<noteq> a) (xs @ e # ys) = xs @ ys"
  proof -
    assume "a = fst e"
    then have "filter (\<lambda>e. fst e \<noteq> a) xs = xs" "filter (\<lambda>e. fst e \<noteq> a) ys = ys"
      using l by (auto simp: filter_id_conv)
    then show ?thesis using \<open>a = fst e\<close> by simp
  qed
qed

lemma ranges_del: "ordered (ranges t) \<Longrightarrow> ranges (del a t) = filter (\<lambda>e. fst e \<noteq> a) (ranges t)"
proof (induction t)
  case (Node l x r)
  note o = ordered_append[OF Node.prems[unfolded ranges_simps]]
  note f = filter_key[OF Node.prems[unfolded ranges_simps], of a]
  consider "a < laddr x" | "a > laddr x" | "a = laddr x" by fastforce
  then show ?case
  proof cases
    case 1
    then show ?thesis using f(1) Node.IH(1) o by (simp add: entry_of_def)
  next
    case 2
    then show ?thesis using f(2) Node.IH(2) o less_not_sym[OF 2] by (simp add: entry_of_def)
  next
    case 3
    then have "filter (\<lambda>e. fst e \<noteq> a) (ranges (Node l x r)) = ranges l @ ranges r" using f(3) by (simp add: entry_of_def)
    then show ?thesis using 3 ranges_cut_min[of r] by auto
  qed
qed simp

lemma ptrs_cut_min: "ptrs (cut_min r) \<subseteq> ptrs r" "distinct (ptr_list r) \<Longrightarrow> distinct (ptr_list (cut_min r))"
proof -
  have "\<exists>xs. ptr_list r = xs @ ptr_list (cut_min r)"
    using ptr_list_cut_min[of r] by (cases "r = Leaf") (simp, metis append_Cons append_Nil)
  then show "ptrs (cut_min r) \<subseteq> ptrs r" "distinct (ptr_list r) \<Longrightarrow> distinct (ptr_list (cut_min r))" by auto
qed

lemma ptrs_del:
  "ptrs (del a t) \<subseteq> ptrs t" "distinct (ptr_list t) \<Longrightarrow> distinct (ptr_list (del a t))"
proof -
  show s: "ptrs (del a t) \<subseteq> ptrs t" for t
  proof (induction t)
    case (Node l x r)
    then show ?case using ptrs_cut_min(1)[of r] by auto
  qed simp
  show "distinct (ptr_list t) \<Longrightarrow> distinct (ptr_list (del a t))"
  proof (induction t)
    case (Node l x r)
    then show ?case using s[of l] s[of r] ptrs_cut_min[of r] by auto
  qed simp
qed

lemma reb_avl: "avl t \<Longrightarrow> height t \<le> 190 \<Longrightarrow> reb t = t"
proof (cases t)
  case (Node l x r)
  assume a: "avl t" "height t \<le> 190"
  have "reb (Node l x r) = fix_height (Node l x r)" by (rule avl_reb_none) (use a Node in auto)
  then show ?thesis using a Node avl_heights(2)[of l] avl_heights(2)[of r] by (simp add: fix_height.simps max_of_nat16)
qed simp

lemma shrink_height:
  fixes a b c h :: nat
  assumes "a \<le> b + 1" "b \<le> a + 1" "c = a \<or> c = a - 1" "h \<in> {Suc (max c b) - 1, Suc (max c b)}"
    "c \<le> b + 1 \<Longrightarrow> b \<le> c + 1 \<Longrightarrow> h = Suc (max c b)"
  shows "h \<in> {Suc (max a b), Suc (max a b) - 1}"
  using assms by (cases "c \<le> b + 1 \<and> b \<le> c + 1"; cases "a \<le> b"; cases "c \<le> b") (auto simp: max_def)

lemma avl_del:
  "avl t \<Longrightarrow> height t \<le> 190 \<Longrightarrow> one_child (target a t) \<Longrightarrow> avl (del a t) \<and> height (del a t) \<in> {height t, height t - 1}"
proof (induction t)
  case (Node l x r)
  consider "a < laddr x" | "a > laddr x" | "a = laddr x" by fastforce
  then show ?case
  proof cases
    case 1
    let ?l = "del a l"
    have l: "avl ?l" "height ?l = height l \<or> height ?l = height l - 1" using Node 1 by auto
    have "avl (reb (Node ?l x r))" "height (reb (Node ?l x r)) \<in> {height (Node ?l x r) - 1, height (Node ?l x r)}"
      "height ?l \<le> height r + 1 \<Longrightarrow> height r \<le> height ?l + 1 \<Longrightarrow> height (reb (Node ?l x r)) = height (Node ?l x r)"
      by (rule avl_reb; use Node.prems l in auto)+
    with shrink_height[of "height l" "height r" "height ?l" "height (reb (Node ?l x r))"] l
    show ?thesis using 1 Node.prems by simp
  next
    case 2
    let ?r = "del a r"
    have r: "avl ?r" "height ?r = height r \<or> height ?r = height r - 1" using Node 2 less_not_sym[OF 2] by auto
    have "avl (reb (Node l x ?r))" "height (reb (Node l x ?r)) \<in> {height (Node l x ?r) - 1, height (Node l x ?r)}"
      "height l \<le> height ?r + 1 \<Longrightarrow> height ?r \<le> height l + 1 \<Longrightarrow> height (reb (Node l x ?r)) = height (Node l x ?r)"
      by (rule avl_reb; use Node.prems r in auto)+
    with shrink_height[of "height r" "height l" "height ?r" "height (reb (Node l x ?r))"] r
    show ?thesis using 2 less_not_sym[OF 2] Node.prems by (simp add: max.commute)
  next
    case 3
    then show ?thesis using Node.prems reb_avl[of l] reb_avl[of r] by auto
  qed
qed simp

lemma del_deep:
  "avl t \<Longrightarrow> height t \<le> 190 \<Longrightarrow> deep_successor (target a t) \<Longrightarrow> low (del a t) \<and> hn (del a t) = hn t \<and> hgt (del a t) = hgt t"
proof (induction t)
  case (Node l x r)
  have small: "avl l" "avl r" "height l \<le> 189" "height r \<le> 189" "height l \<le> height r + 1" "height r \<le> height l + 1"
    "lheight x = of_nat (max (height l) (height r))" using Node.prems by auto
  note hl = avl_heights[OF small(1)] and hr = avl_heights[OF small(2)]
  have x: "lheight x = max (hgt l) (hgt r)" "lheight x < 200"
    using small hl hr by (auto simp: max_of_nat16 word_less_nat_alt unat_small16)
  have stay: "reb (Node l' y r') = Node l' (y\<lparr>lheight := lheight x\<rparr>) r'"
    if "low l'" "low r'" "hn l' = hn l" "hn r' = hn r" "hgt l' = hgt l" "hgt r' = hgt r" for l' r' y
    using that bal_minus_2[of l' r' y] bal_2[of l' r' y] hl hr small x(1) by (simp add: reb.simps fix_height.simps)
  consider "a < laddr x" | "a > laddr x" | "a = laddr x" by fastforce
  then show ?case
  proof cases
    case 1
    then have "low (del a l) \<and> hn (del a l) = hn l \<and> hgt (del a l) = hgt l" using Node by auto
    then show ?thesis using 1 stay[of "del a l" r x] hr small x(2) by simp
  next
    case 2
    then have "low (del a r) \<and> hn (del a r) = hn r \<and> hgt (del a r) = hgt r" using Node less_not_sym[OF 2] by auto
    then show ?thesis using 2 less_not_sym[OF 2] stay[of l "del a r" x] hl small x(2) by simp
  next
    case 3
    then obtain rl y rr where r: "r = Node rl y rr" "rl \<noteq> Leaf" "l \<noteq> Leaf" using Node.prems(3) by (cases r) auto
    have "low (cut_min u)" if "low u" for u using that by (induction u) auto
    then have "low (cut_min r)" "hn (cut_min r) = hn r" "hgt (cut_min r) = hgt r" using r hr small by auto
    then show ?thesis using 3 r stay[of l "cut_min r" "copy_data x (min_node r)"] hl small x(2) by simp
  qed
qed simp

lemma low_del:
  assumes "avl t" "height t \<le> 190" "one_child (target a t) \<or> deep_successor (target a t)"
  shows "low (del a t)"
  using assms del_deep[of t a] avl_del[of t a] avl_heights(3)[of "del a t"] by force

fun min_parent :: "avl \<Rightarrow> label" where
  "min_parent (Node l y r) = (if left l = Leaf then y else min_parent l)"
| "min_parent Leaf = undefined"

fun min_right :: "avl \<Rightarrow> avl" where
  "min_right (Node l x r) = (if l = Leaf then r else min_right l)"
| "min_right Leaf = Leaf"

lemma find_min_tree:
  "tree_in (node_at m) t \<Longrightarrow> t \<noteq> Leaf \<Longrightarrow>
   find_min m (root t) p = Some (lp (min_node t), if left t = Leaf then p else lp (min_parent t))"
proof (induction t arbitrary: p)
  case (Node l x r)
  have nd: "nd_left (node_at m (lp x)) = root l" using Node.prems by simp
  have lr: "root l = 0 \<longleftrightarrow> l = Leaf" using Node.prems by (auto simp: root_zero)
  show ?case
  proof (cases "l = Leaf")
    case True
    then show ?thesis using nd by (subst find_min.simps) simp
  next
    case False
    then have "find_min m (lp x) p = find_min m (root l) (lp x)" using nd lr by (subst find_min.simps) simp
    then show ?thesis using Node False by (cases l; cases "left l") auto
  qed
qed simp

lemma min_in: "t \<noteq> Leaf \<Longrightarrow> lp (min_node t) \<in> ptrs t" "t \<noteq> Leaf \<Longrightarrow> left t \<noteq> Leaf \<Longrightarrow> lp (min_parent t) \<in> ptrs t"
proof -
  show "t \<noteq> Leaf \<Longrightarrow> lp (min_node t) \<in> ptrs t" by (induction t) auto
  show "t \<noteq> Leaf \<Longrightarrow> left t \<noteq> Leaf \<Longrightarrow> lp (min_parent t) \<in> ptrs t"
    by (induction t) auto
qed

lemma cut_min_tree:
  "tree_in (node_at m) t \<Longrightarrow> apart (ptrs t) \<Longrightarrow> distinct (ptr_list t) \<Longrightarrow> t \<noteq> Leaf \<Longrightarrow> left t \<noteq> Leaf \<Longrightarrow>
   tree_in (node_at (set_left m (lp (min_parent t)) (root (min_right t)))) (cut_min t) \<and> root (cut_min t) = root t"
proof (induction t)
  case (Node l y r)
  let ?v = "root (min_right (Node l y r))" and ?p = "lp (min_parent (Node l y r))"
  have l: "l \<noteq> Leaf" using Node.prems by simp
  have pin: "?p \<in> ptrs (Node l y r)" using min_in(2)[of "Node l y r"] l by simp
  have st: "node_at (set_left m ?p ?v) q = (if q = ?p then (node_at m ?p)\<lparr>nd_left := ?v\<rparr> else node_at m q)"
    if "q \<in> ptrs (Node l y r)" for q using node_at_store(4)[OF Node.prems(2) pin that] .
  show ?case
  proof (cases "left l = Leaf")
    case True
    then obtain z zr where lz: "l = Node Leaf z zr" using l by (cases l) auto
    have "tree_in (node_at (set_left m (lp y) (root zr))) u = tree_in (node_at m) u" if "u \<in> {zr, r}" for u
      using that Node.prems(3) st lz by (auto intro!: tree_in_cong)
    then show ?thesis using Node.prems st[of "lp y"] lz by simp
  next
    case False
    have pl: "lp (min_parent l) \<in> ptrs l" using min_in(2)[OF l False] .
    have IH: "tree_in (node_at (set_left m (lp (min_parent l)) (root (min_right l)))) (cut_min l)" "root (cut_min l) = root l"
      using Node.IH(1) Node.prems l False apart_mono[OF Node.prems(2)] by auto
    have ne: "lp y \<noteq> lp (min_parent l)" using pl Node.prems(3) by auto
    have "tree_in (node_at (set_left m (lp (min_parent l)) (root (min_right l)))) r = tree_in (node_at m) r"
      using Node.prems(3) st pl False l by (intro tree_in_cong) auto
    then show ?thesis using Node.prems IH st[of "lp y"] ne l False by simp
  qed
qed simp


lemma min_node_fields:
  "tree_in H t \<Longrightarrow> t \<noteq> Leaf \<Longrightarrow> nd_addr (H (lp (min_node t))) = laddr (min_node t) \<and>
     nd_page_count (H (lp (min_node t))) = lpages (min_node t) \<and> nd_allocated (H (lp (min_node t))) = lalloc (min_node t) \<and>
     nd_right (H (lp (min_node t))) = root (min_right t)"
  by (induction t) auto

lemma ptrs_nonzero: "tree_in H t \<Longrightarrow> p \<in> ptrs t \<Longrightarrow> p \<noteq> 0"
  by (induction t) auto

text \<open>The copy of the successor into the node and its removal from the right subtree, before the free.\<close>

lemma splice_tree:
  assumes t: "tree_in (node_at m) (Node l x r)" and ap: "apart (ptrs (Node l x r))" and d: "distinct (ptr_list (Node l x r))"
    and r: "r \<noteq> Leaf" "left r \<noteq> Leaf"
  defines "y \<equiv> min_node r"
  defines "m' \<equiv> set_left (set_allocated (set_page_count (set_addr m (lp x) (laddr y)) (lp x) (lpages y)) (lp x) (lalloc y))
     (lp (min_parent r)) (root (min_right r))"
  shows "tree_in (node_at m') (Node l (copy_data x y) (cut_min r))" "node_frame (ptrs (Node l x r)) m m'"
proof -
  let ?m3 = "set_allocated (set_page_count (set_addr m (lp x) (laddr y)) (lp x) (lpages y)) (lp x) (lalloc y)"
  have pin: "lp (min_parent r) \<in> ptrs r" using min_in(2)[OF r] .
  show "node_frame (ptrs (Node l x r)) m m'"
    unfolding m'_def using pin by (intro node_frame_store node_frame_refl) simp_all
  have st3: "node_at ?m3 q = (if q = lp x then (node_at m q)\<lparr>nd_addr := laddr y, nd_page_count := lpages y, nd_allocated := lalloc y\<rparr> else node_at m q)"
    if "q \<in> ptrs (Node l x r)" for q
    using node_at_store(1-3)[OF ap _ that] node_at_store_same(1-3) by auto
  have st: "node_at m' q = (if q = lp (min_parent r) then (node_at ?m3 q)\<lparr>nd_left := root (min_right r)\<rparr> else node_at ?m3 q)"
    if "q \<in> ptrs (Node l x r)" for q
    unfolding m'_def using node_at_store(4)[OF ap _ that, of "lp (min_parent r)"] pin by simp
  have "tree_in (node_at ?m3) r = tree_in (node_at m) r" using d st3 by (auto intro!: tree_in_cong)
  then have tr: "tree_in (node_at m') (cut_min r)" "root (cut_min r) = root r"
    using cut_min_tree[of ?m3 r] t r d apart_mono[OF ap, of "ptrs r"] unfolding m'_def by auto
  have tl: "tree_in (node_at m') l = tree_in (node_at m) l" using d st st3 pin by (auto intro!: tree_in_cong)
  show "tree_in (node_at m') (Node l (copy_data x y) (cut_min r))"
    using t tr tl st[of "lp x"] st3[of "lp x"] pin d by auto
qed

lemma replace_tree:
  assumes wf: "nh_wf ps s" and t: "tree_in (node_at (mem s)) (Node l x r)" and d: "distinct (ptr_list (Node l x r))"
    and o: "ptrs (Node l x r) \<subseteq> own ps (mem s)" and r: "r \<noteq> Leaf" "left r \<noteq> Leaf"
    and f: "lp (min_node r) = node_addr b k" "b \<in> set ps" "k < 32" and sp: "stack_space s"
  shows "\<exists>s'. replace_by_successor (lp x) junk s = Some s' \<and>
    tree_in (node_at (mem s')) (Node l (copy_data x (min_node r)) (cut_min r)) \<and>
    (\<forall>q\<in>own ps (mem s) - ptrs (Node l x r). node_at (mem s') q = node_at (mem s) q)"
proof -
  let ?y = "min_node r"
  let ?m3 = "set_allocated (set_page_count (set_addr (mem s) (lp x) (laddr ?y)) (lp x) (lpages ?y)) (lp x) (lalloc ?y)"
  let ?m = "set_left ?m3 (lp (min_parent r)) (root (min_right r))"
  note ap = apart_mono[OF nodes.apart_owned[OF wf] o]
  note sp' = splice_tree[OF t ap d r]
  note w = nodes.write_nodes[OF wf sp'(2) o]
  have tr: "tree_in (node_at (mem s)) r" and rt: "nd_right (node_at (mem s) (lp x)) = root r" using t by auto
  have yin: "lp ?y \<in> ptrs (Node l x r)" "lp ?y \<noteq> lp x" using min_in(1)[OF r(1)] d by auto
  have pz: "lp (min_parent r) \<noteq> 0" using ptrs_nonzero[OF tr min_in(2)[OF r]] .
  note mf = min_node_fields[OF tr r(1)]
  have same: "node_at (set_addr (mem s) (lp x) a) (lp ?y) = node_at (mem s) (lp ?y)"
    "node_at (set_page_count (set_addr (mem s) (lp x) a) (lp x) n) (lp ?y) = node_at (mem s) (lp ?y)"
    "node_at (set_allocated (set_page_count (set_addr (mem s) (lp x) a) (lp x) n) (lp x) c) (lp ?y) = node_at (mem s) (lp ?y)" for a n c
    using node_at_store(1-3)[OF ap, of "lp x" "lp ?y"] yin by auto
  have fm: "find_min (mem s) (root r) junk = Some (lp ?y, lp (min_parent r))" using find_min_tree[OF tr r(1)] r(2) by simp
  have "replace_by_successor (lp x) junk s = Some (free_node (lp ?y) (s\<lparr>mem := ?m\<rparr>))"
    using pz mf by (simp add: replace_by_successor_def rt fm same Let_def)
  moreover have keep: "node_at (mem (free_node (lp ?y) (s\<lparr>mem := ?m\<rparr>))) q = node_at ?m q" if "q \<in> own ps (mem s)" for q
    using free_node_keeps[OF w(1) f(2,3), of q] that sp w(2) by (simp add: f(1) stack_space_def)
  moreover have "node_at ?m q = node_at (mem s) q" if "q \<in> own ps (mem s) - ptrs (Node l x r)" for q
    by (rule node_at_cong) (use nodes.other_nodes[OF wf sp'(2) o that] in simp)
  moreover have "ptrs (Node l (copy_data x ?y) (cut_min r)) \<subseteq> own ps (mem s)" using o ptrs_cut_min(1)[of r] by auto
  then have "tree_in (node_at (mem (free_node (lp ?y) (s\<lparr>mem := ?m\<rparr>)))) (Node l (copy_data x ?y) (cut_min r))"
    using sp'(1) keep by (subst tree_in_cong[where H' = "node_at ?m"]) (auto simp del: tree_in.simps)
  ultimately show ?thesis by auto
qed


text \<open>What one call of \<open>_delete_node\<close> establishes, for the nodes \<open>W\<close> of the allocator.\<close>

definition delete_post :: "u64 set \<Rightarrow> memory \<Rightarrow> avl \<Rightarrow> avl \<Rightarrow> memory \<Rightarrow> bool" where
  "delete_post W m t t' m' \<longleftrightarrow> tree_in (node_at m') t' \<and> (\<forall>q\<in>W - ptrs t. node_at m' q = node_at m q)"

lemma delete_finish:
  assumes "apart W" "ptrs t \<subseteq> W" "delete_post W m t u m1" "ptrs u \<subseteq> ptrs t" "distinct (ptr_list u)"
    "u = Node l x r" "low l" "low r"
  shows "\<exists>m2. rebalance m1 (lp x) = (root (reb u), m2) \<and> delete_post W m t (reb u) m2"
proof -
  have ap: "apart (ptrs u)" using apart_mono[OF assms(1)] assms(2,4) by blast
  have "tree_in (node_at m1) u" using assms(3) by (simp add: delete_post_def)
  from rebalance_tree[of m1 l x r] this ap assms(5-8) obtain m2 where
    m2: "rebalance m1 (lp x) = (root (reb u), m2)" "tree_in (node_at m2) (reb u)" "node_frame (ptrs u) m1 m2" by auto
  have "node_at m2 q = node_at m q" if "q \<in> W - ptrs t" for q
  proof -
    have "node_at m2 q = node_at m1 q"
      by (rule node_frame_at[OF m2(3) apart_mono[OF assms(1)]]) (use that assms(2,4) in auto)
    then show ?thesis using assms(3) that by (simp add: delete_post_def)
  qed
  then show ?thesis using m2(1,2) by (auto simp: delete_post_def)
qed

lemma delete_up_left:
  assumes "apart W" "ptrs (Node l x r) \<subseteq> W" "tree_in (node_at m) (Node l x r)" "distinct (ptr_list (Node l x r))"
    "delete_post W m l l' m1" "ptrs l' \<subseteq> ptrs l" "distinct (ptr_list l')" "low l'" "low r"
  shows "\<exists>m2. rebalance (set_left m1 (lp x) (root l')) (lp x) = (root (reb (Node l' x r)), m2) \<and>
     delete_post W m (Node l x r) (reb (Node l' x r)) m2"
proof -
  have d: "distinct (ptr_list (Node l' x r))" "ptrs (Node l' x r) \<subseteq> ptrs (Node l x r)" using assms(4,6,7) by auto
  have ap: "apart (ptrs (Node l' x r))" using apart_mono[OF assms(1)] d(2) assms(2) by blast
  have same: "node_at m1 q = node_at m q" if "q \<in> W - ptrs l" for q using assms(5) that by (simp add: delete_post_def)
  have t: "tree_in (node_at (set_left m1 (lp x) (root l'))) (Node l' x r)"
    using assms(5) by (intro set_left_tree[OF assms(3) _ ap d(1)] same) (use assms(2,4) in \<open>auto simp: delete_post_def\<close>)
  have "node_at (set_left m1 (lp x) (root l')) q = node_at m q" if "q \<in> W - ptrs (Node l x r)" for q
    using node_at_store(4)[OF assms(1), of "lp x" q] same[of q] that assms(2) by auto
  then have "delete_post W m (Node l x r) (Node l' x r) (set_left m1 (lp x) (root l'))" using t by (simp add: delete_post_def)
  from delete_finish[OF assms(1,2) this d(2,1) refl assms(8,9)] show ?thesis .
qed

lemma delete_up_right:
  assumes "apart W" "ptrs (Node l x r) \<subseteq> W" "tree_in (node_at m) (Node l x r)" "distinct (ptr_list (Node l x r))"
    "delete_post W m r r' m1" "ptrs r' \<subseteq> ptrs r" "distinct (ptr_list r')" "low l" "low r'"
  shows "\<exists>m2. rebalance (set_right m1 (lp x) (root r')) (lp x) = (root (reb (Node l x r')), m2) \<and>
     delete_post W m (Node l x r) (reb (Node l x r')) m2"
proof -
  have d: "distinct (ptr_list (Node l x r'))" "ptrs (Node l x r') \<subseteq> ptrs (Node l x r)" using assms(4,6,7) by auto
  have ap: "apart (ptrs (Node l x r'))" using apart_mono[OF assms(1)] d(2) assms(2) by blast
  have same: "node_at m1 q = node_at m q" if "q \<in> W - ptrs r" for q using assms(5) that by (simp add: delete_post_def)
  have t: "tree_in (node_at (set_right m1 (lp x) (root r'))) (Node l x r')"
    using assms(5) by (intro set_right_tree[OF assms(3) _ ap d(1)] same) (use assms(2,4) in \<open>auto simp: delete_post_def\<close>)
  have "node_at (set_right m1 (lp x) (root r')) q = node_at m q" if "q \<in> W - ptrs (Node l x r)" for q
    using node_at_store(5)[OF assms(1), of "lp x" q] same[of q] that assms(2) by auto
  then have "delete_post W m (Node l x r) (Node l x r') (set_right m1 (lp x) (root r'))" using t by (simp add: delete_post_def)
  from delete_finish[OF assms(1,2) this d(2,1) refl assms(8,9)] show ?thesis .
qed

text \<open>The node to remove is the root.\<close>

definition can_free :: "u64 list \<Rightarrow> u64 \<Rightarrow> bool" where
  "can_free ps p \<longleftrightarrow> (\<exists>b k. p = node_addr b k \<and> b \<in> set ps \<and> k < 32)"

lemma delete_root:
  assumes wf: "nh_wf ps s" and t: "tree_in (node_at (mem s)) (Node l x r)" and d: "distinct (ptr_list (Node l x r))"
    and o: "ptrs (Node l x r) \<subseteq> own ps (mem s)" and av: "avl (Node l x r)" "height (Node l x r) \<le> 190"
    and c: "one_child (Node l x r) \<or> deep_successor (Node l x r)"
    and f: "can_free ps (lp (freed (Node l x r)))" and sp: "stack_space s"
  shows "\<exists>s'. delete_node (lp x) (laddr x) junk s = Some (root (del (laddr x) (Node l x r)), s') \<and>
    delete_post (own ps (mem s)) (mem s) (Node l x r) (del (laddr x) (Node l x r)) (mem s')"
proof -
  let ?W = "own ps (mem s)" and ?t = "Node l x r"
  note apo = nodes.apart_owned[OF wf]
  have n: "lp x \<noteq> 0" "nd_addr (node_at (mem s) (lp x)) = laddr x" "nd_left (node_at (mem s) (lp x)) = root l"
    "nd_right (node_at (mem s) (lp x)) = root r" "root l = 0 \<longleftrightarrow> l = Leaf" "root r = 0 \<longleftrightarrow> r = Leaf"
    using t by (auto simp: root_zero)
  have lo: "low l" "low r" using av avl_heights(3)[of l] avl_heights(3)[of r] by auto
  obtain b k where f': "lp (freed ?t) = node_addr b k" "b \<in> set ps" "k < 32" using f by (auto simp: can_free_def)
  have fk: "node_at (mem (free_node (lp (freed ?t)) s)) q = node_at (mem s) q" if "q \<in> ?W" for q
    unfolding f'(1) by (rule free_node_keeps[OF wf f'(2,3) sp that])
  have sub: "delete_post ?W (mem s) ?t u (mem (free_node (lp x) s))" if "l = Leaf \<or> r = Leaf" "u \<in> {l, r}" for u
  proof -
    have "tree_in (node_at (mem (free_node (lp x) s))) u = tree_in (node_at (mem s)) u"
      by (rule tree_in_cong) (use fk o that in auto)
    then show ?thesis using t fk that by (auto simp: delete_post_def)
  qed
  consider "l = Leaf" "r = Leaf" | "l \<noteq> Leaf" "r = Leaf" | "l = Leaf" "r \<noteq> Leaf" | "l \<noteq> Leaf" "r \<noteq> Leaf" "left r \<noteq> Leaf"
    using c by (cases r) auto
  then show ?thesis
  proof cases
    case 1
    then show ?thesis using n sub[of l] by (subst delete_node.simps) (simp add: Let_def)
  next
    case 2
    then obtain l1 y l2 where l: "l = Node l1 y l2" by (cases l) auto
    from delete_finish[OF apo o sub[of l] _ _ l] 2 d lo l obtain m2 where
      "rebalance (mem (free_node (lp x) s)) (lp y) = (root (reb l), m2)" "delete_post ?W (mem s) ?t (reb l) m2" by auto
    then show ?thesis using 2 n l by (subst delete_node.simps) (simp add: Let_def)
  next
    case 3
    then obtain r1 y r2 where r: "r = Node r1 y r2" by (cases r) auto
    from delete_finish[OF apo o sub[of r] _ _ r] 3 d lo r obtain m2 where
      "rebalance (mem (free_node (lp x) s)) (lp y) = (root (reb r), m2)" "delete_post ?W (mem s) ?t (reb r) m2" by auto
    then show ?thesis using 3 n r by (subst delete_node.simps) (simp add: Let_def)
  next
    case 4
    let ?u = "Node l (copy_data x (min_node r)) (cut_min r)"
    have "lp (min_node r) = node_addr b k" using f'(1) 4 by simp
    from replace_tree[OF wf t d o 4(2,3) this f'(2,3) sp] obtain s' where
      s': "replace_by_successor (lp x) junk s = Some s'" "delete_post ?W (mem s) ?t ?u (mem s')" by (auto simp: delete_post_def)
    have "low (cut_min r)" using lo(2) by (induction r) auto
    moreover have "distinct (ptr_list ?u)" "ptrs ?u \<subseteq> ptrs ?t" using d ptrs_cut_min[of r] by auto
    ultimately obtain m2 where "rebalance (mem s') (lp x) = (root (reb ?u), m2)" "delete_post ?W (mem s) ?t (reb ?u) m2"
      using delete_finish[OF apo o s'(2) _ _ refl lo(1)] by auto
    then show ?thesis using 4 n s'(1) by (subst delete_node.simps) (simp add: Let_def)
  qed
qed

lemma delete_node_tree:
  assumes "nh_wf ps s" "tree_in (node_at (mem s)) t" "distinct (ptr_list t)" "ptrs t \<subseteq> own ps (mem s)"
    "avl t" "height t \<le> 190" "one_child (target a t) \<or> deep_successor (target a t)"
    "target a t \<noteq> Leaf \<Longrightarrow> can_free ps (lp (freed (target a t)))" "stack_space s"
  shows "\<exists>s'. delete_node (root t) a junk s = Some (root (del a t), s') \<and>
    delete_post (own ps (mem s)) (mem s) t (del a t) (mem s')"
  using assms
proof (induction t)
  case Leaf
  then show ?case by (subst delete_node.simps) (simp add: Let_def delete_post_def)
next
  case (Node l x r)
  note apo = nodes.apart_owned[OF Node.prems(1)]
  have n: "lp x \<noteq> 0" "nd_addr (node_at (mem s) (lp x)) = laddr x" "nd_left (node_at (mem s) (lp x)) = root l"
    "nd_right (node_at (mem s) (lp x)) = root r" using Node.prems(2) by auto
  have lo: "low l" "low r" using Node.prems avl_heights(3)[of l] avl_heights(3)[of r] by auto
  consider "a < laddr x" | "a > laddr x" | "a = laddr x" by fastforce
  then show ?case
  proof cases
    case 1
    then obtain s' where s': "delete_node (root l) a junk s = Some (root (del a l), s')"
      "delete_post (own ps (mem s)) (mem s) l (del a l) (mem s')"
      using Node.IH(1)[OF Node.prems(1)] Node.prems by auto
    have "low (del a l)" using low_del[of l a] Node.prems 1 by auto
    then obtain m2 where "rebalance (set_left (mem s') (lp x) (root (del a l))) (lp x) = (root (reb (Node (del a l) x r)), m2)"
      "delete_post (own ps (mem s)) (mem s) (Node l x r) (reb (Node (del a l) x r)) m2"
      using delete_up_left[OF apo Node.prems(4,2,3) s'(2) ptrs_del(1) ptrs_del(2) _ lo(2)] Node.prems(3) by auto
    then show ?thesis using 1 n s'(1) by (subst delete_node.simps) (simp add: Let_def)
  next
    case 2
    then obtain s' where s': "delete_node (root r) a junk s = Some (root (del a r), s')"
      "delete_post (own ps (mem s)) (mem s) r (del a r) (mem s')"
      using Node.IH(2)[OF Node.prems(1)] Node.prems less_not_sym[OF 2] by auto
    have "low (del a r)" using low_del[of r a] Node.prems 2 less_not_sym[OF 2] by auto
    then obtain m2 where "rebalance (set_right (mem s') (lp x) (root (del a r))) (lp x) = (root (reb (Node l x (del a r))), m2)"
      "delete_post (own ps (mem s)) (mem s) (Node l x r) (reb (Node l x (del a r))) m2"
      using delete_up_right[OF apo Node.prems(4,2,3) s'(2) ptrs_del(1) ptrs_del(2) lo(1)] Node.prems(3) by auto
    then show ?thesis using 2 less_not_sym[OF 2] n s'(1) by (subst delete_node.simps) (simp add: Let_def)
  next
    case 3
    then show ?thesis using delete_root[OF Node.prems(1-6) _ _ Node.prems(9)] Node.prems(7,8) by simp
  qed
qed

section \<open>Properties of deletion\<close>

text \<open>
  C3. \<open>_delete_node\<close> removes the range at an address and no other: when the node found has at most one
  child, or two children and a successor below its right child, the call returns for every value of
  the uninitialised pointer, the tree in memory is the old one without the range, and it is still
  balanced when the node had at most one child. The node returned to the allocator has an index
  below 32 in its page (see \<open>free_node\<close>).
\<close>

theorem delete_node_correct:
  assumes "avl_rep ps s t" "one_child (target a t) \<or> deep_successor (target a t)"
    "target a t \<noteq> Leaf \<Longrightarrow> can_free ps (lp (freed (target a t)))" "stack_space s"
  shows "\<exists>t' s'. delete_node (root t) a junk s = Some (root t', s') \<and> tree_in (node_at (mem s')) t' \<and>
    ranges t' = filter (\<lambda>e. fst e \<noteq> a) (ranges t) \<and> distinct (ptr_list t') \<and> ptrs t' \<subseteq> ptrs t \<and>
    (one_child (target a t) \<longrightarrow> avl t')"
proof -
  have r: "nh_wf ps s" "tree_in (node_at (mem s)) t" "distinct (ptr_list t)" "ptrs t \<subseteq> own ps (mem s)" "avl t"
    "ordered (ranges t)" using assms(1) by (auto simp: avl_rep_def)
  have h: "height t \<le> 190" using height_bound[OF r(5,3)] by simp
  from delete_node_tree[OF r(1-5) h assms(2-4)] obtain s' where
    "delete_node (root t) a junk s = Some (root (del a t), s')" "tree_in (node_at (mem s')) (del a t)"
    by (auto simp: delete_post_def)
  then show ?thesis using ranges_del[OF r(6), of a] ptrs_del(1)[of a t] ptrs_del(2)[of t a] avl_del[OF r(5) h, of a] r(3) by blast
qed

theorem delete_node_correct_witness:
  "\<exists>t' s'. delete_node demo_node0 0x105000 0xdead demo_heap = Some (root t', s') \<and>
     tree_in (node_at (mem s')) t' \<and> ranges t' = [(0x80000, 9, 0), (0x100000, 5, 0)] \<and> avl t'"
proof -
  have "target 0x105000 demo_tree = Node Leaf demo_x1 Leaf" by (simp add: demo_tree_def demo_x0_def demo_x1_def)
  moreover have "lp demo_x1 = demo_node1" "root demo_tree = demo_node0"
    "filter (\<lambda>e. fst e \<noteq> 0x105000) (ranges demo_tree) = [(0x80000, 9, 0), (0x100000, 5, 0)]"
    by (simp_all add: demo_tree_def demo_x0_def demo_x1_def demo_x2_def entry_of_def)
  moreover have "can_free [0x4000] demo_node1" unfolding can_free_def demo_node1_def by (intro exI[of _ "0x4000"] exI[of _ 1]) simp
  ultimately show ?thesis
    using delete_node_correct[OF demo_heap_rep(1), of "0x105000" "0xdead"] demo_heap_rep(3) by auto
qed





end
