(* ===== verification/Vm_Frame.thy ===== *)
theory Vm_Frame
  imports Node_Alloc
begin

text \<open>
  What the page tables depend on and what the paging operations change: the pages that are tables,
  congruence of the translation in the entries of these pages, and a bound on the pages that
  \<open>set_page\<close> writes and takes from the free stack. The proofs about the whole memory manager combine
  page tables and nodes with it.
\<close>

section \<open>What a change of memory keeps of the page tables\<close>

definition tables :: "memory \<Rightarrow> u64 \<Rightarrow> u64 set" where
  "tables m r = {t. \<exists>is. idx_ok is \<and> length is \<le> 3 \<and> tbl m r is = Some t}"

lemma tablesI: "idx_ok is \<Longrightarrow> length is \<le> 3 \<Longrightarrow> tbl m r is = Some t \<Longrightarrow> t \<in> tables m r"
  by (auto simp: tables_def)

lemma tables_phys: "pt_wf m r F \<Longrightarrow> t \<in> tables m r \<Longrightarrow> phys_ok t \<and> t \<notin> F"
  using pt_wfD(1) by (auto simp: tables_def)

lemma tbl_cong:
  assumes "\<And>t i. t \<in> tables m r \<Longrightarrow> i < 512 \<Longrightarrow> pte m' t i = pte m t i"
  shows "idx_ok js \<Longrightarrow> length js \<le> 3 \<Longrightarrow> tbl m' r js = tbl m r js"
proof (induction js rule: rev_induct)
  case (snoc j js)
  then have IH: "tbl m' r js = tbl m r js" by simp
  show ?case
  proof (cases "tbl m r js")
    case (Some t)
    then have "pte m' t j = pte m t j" using snoc.prems by (intro assms tablesI) auto
    then show ?thesis using Some IH by (simp add: tbl_snoc)
  qed (simp add: IH tbl_snoc)
qed simp

lemma tables_cong:
  assumes "\<And>t i. t \<in> tables m r \<Longrightarrow> i < 512 \<Longrightarrow> pte m' t i = pte m t i"
  shows "tables m' r = tables m r" and "\<And>js j. idx_ok js \<Longrightarrow> length js \<le> 3 \<Longrightarrow> j < 512 \<Longrightarrow> entry m' r js j = entry m r js j"
    and "page_walk m' r v = page_walk m r v" and "no_huge m' r v = no_huge m r v"
proof -
  show "tables m' r = tables m r" using tbl_cong[OF assms] by (auto simp: tables_def)
  show e: "entry m' r js j = entry m r js j" if "idx_ok js" "length js \<le> 3" "j < 512" for js j
    using tbl_cong[OF assms that(1,2)] assms[OF tablesI[OF that(1,2)] that(3)] by (auto simp: entry_def split: option.splits)
  show "page_walk m' r v = page_walk m r v" "no_huge m' r v = no_huge m r v"
    by (simp_all add: page_walk_def no_huge_def e)
qed

lemma pt_wf_cong:
  assumes wf: "pt_wf m r F" and "\<And>t i. t \<in> tables m r \<Longrightarrow> i < 512 \<Longrightarrow> pte m' t i = pte m t i"
    and "\<forall>p\<in>G. phys_ok p \<and> (\<forall>i<512. pte m' p i = 0)" and "G \<inter> tables m r = {}"
  shows "pt_wf m' r G"
  using pt_wfD[OF wf] assms(3,4) tablesI[of _ m r] unfolding pt_wf_def
  by (auto simp: tbl_cong[OF assms(2)])

lemma pte_win_frame:
  assumes "win_frame P m m'" "phys_ok p" "\<forall>q\<in>P. phys_ok q" "p \<notin> P" "i < 512"
  shows "pte m' p i = pte m p i"
proof (rule pte_cong)
  fix x assume "x \<in> region (entry_addr p i) 8"
  then have x: "x \<in> region (p + PHYSICAL_MAP_OFFSET) 4096"
    using entry_region[of i 4096 p] assms(5) by (auto simp: word_less_nat_alt)
  have "x \<notin> region (q + PHYSICAL_MAP_OFFSET) 4096" if "q \<in> P" for q
    using window_disjoint[OF assms(2) _ _ x, of q] that assms(3,4) by blast
  then show "m' x = m x" using assms(1) by (simp add: win_frame_def)
qed

lemma win_frame_low:
  assumes "win_frame P m m'" "\<forall>q\<in>P. phys_ok q" "unat x < 2 ^ 64 - 2 ^ 46"
  shows "m' x = m x"
  using assms window_high unfolding win_frame_def by (meson not_less)

lemma win_frame_st: "p \<in> P \<Longrightarrow> i < 512 \<Longrightarrow> win_frame P m (st64 m (entry_addr p i) e)"
proof -
  assume a: "p \<in> P" "i < 512"
  have "region (entry_addr p i) 8 \<subseteq> region (p + PHYSICAL_MAP_OFFSET) 4096"
    using a(2) by (intro entry_region) (auto simp: word_less_nat_alt)
  then show ?thesis using a(1) m64.st_region[of _ "entry_addr p i"] unfolding win_frame_def by blast
qed

lemma win_frame_refl [simp]: "win_frame P m m" by (simp add: win_frame_def)

section \<open>What the paging operations change\<close>

text \<open>
  At most \<open>k\<close> pages leave the free stack, and new tables are among them; only tables and pages that
  were free are written; of the other variables only the stack index changes.
\<close>

definition vm_frame :: "u64 \<Rightarrow> nat \<Rightarrow> 'z pmm_scheme \<Rightarrow> 'z pmm_scheme \<Rightarrow> bool" where
  "vm_frame r k s s' \<longleftrightarrow> s' = s\<lparr>mem := mem s', g_free_index := g_free_index s'\<rparr> \<and>
     win_frame (tables (mem s) r \<union> set (pmm_stack s)) (mem s) (mem s') \<and>
     (\<exists>F. pmm_stack s = pmm_stack s' @ F \<and> length F \<le> k \<and> tables (mem s') r \<subseteq> tables (mem s) r \<union> set F)"

lemma vm_frame_refl: "vm_frame r k s s" by (simp add: vm_frame_def)

lemma vm_frame_trans:
  assumes "vm_frame r k s s'" "vm_frame r l s' s''"
  shows "vm_frame r (k + l) s s''"
proof -
  obtain F where F: "pmm_stack s = pmm_stack s' @ F" "length F \<le> k" "tables (mem s') r \<subseteq> tables (mem s) r \<union> set F"
    using assms(1) by (auto simp: vm_frame_def)
  obtain G where G: "pmm_stack s' = pmm_stack s'' @ G" "length G \<le> l" "tables (mem s'') r \<subseteq> tables (mem s') r \<union> set G"
    using assms(2) by (auto simp: vm_frame_def)
  have "win_frame (tables (mem s) r \<union> set (pmm_stack s)) (mem s) (mem s'')"
    by (rule win_frame_trans[of "tables (mem s) r \<union> set (pmm_stack s)" _ "mem s'" "tables (mem s') r \<union> set (pmm_stack s')"])
      (use assms F in \<open>auto simp: vm_frame_def\<close>)
  moreover have "s'' = s\<lparr>mem := mem s'', g_free_index := g_free_index s''\<rparr>"
  proof -
    have "s'' = s'\<lparr>mem := mem s'', g_free_index := g_free_index s''\<rparr>" using assms(2) by (simp add: vm_frame_def)
    also have "\<dots> = (s\<lparr>mem := mem s', g_free_index := g_free_index s'\<rparr>)\<lparr>mem := mem s'', g_free_index := g_free_index s''\<rparr>"
      using assms(1) unfolding vm_frame_def by metis
    finally show ?thesis by simp
  qed
  moreover have "pmm_stack s = pmm_stack s'' @ (G @ F)" "length (G @ F) \<le> k + l"
    "tables (mem s'') r \<subseteq> tables (mem s) r \<union> set (G @ F)" using F G by (simp, simp, auto)
  ultimately show ?thesis unfolding vm_frame_def by blast
qed

lemma vm_frame_alloc:
  assumes "pmm_stack s \<noteq> []"
  shows "vm_frame r 1 s (snd (pmm_alloc_page s))"
proof -
  let ?s = "snd (pmm_alloc_page s)"
  note a = pmm_stack_alloc[OF assms]
  have e: "mem ?s = mem s" "?s = s\<lparr>mem := mem ?s, g_free_index := g_free_index ?s\<rparr>" unfolding a(1) by simp_all
  have "pmm_stack s = pmm_stack ?s @ [last (pmm_stack s)]" unfolding a(2) using assms by simp
  then show ?thesis unfolding vm_frame_def e(1) using e by (metis win_frame_refl length_Cons list.size(3) One_nat_def order_refl sup_ge1)
qed

lemma level_frame:
  assumes "level_ok r is i f s t' s'"
  shows "vm_frame r 1 s s'"
proof -
  obtain t where wf: "vm_wf r s" and t: "idx_ok (is @ [i])" "length is < 3" "tbl (mem s) r is = Some t"
    and small: "pte (mem s) t i AND 0x81 \<noteq> 0x81" and f: "flags_ok f"
    and avail: "is_table (pte (mem s) t i) \<or> pmm_stack s \<noteq> []" and l: "pt_level t i f s = (t', s')"
    using assms by (auto simp: level_ok_def)
  let ?a = "entry_addr t i" and ?m = "mem s" and ?F = "set (pmm_stack s)"
  have w: "pt_wf ?m r ?F" "distinct (pmm_stack s)" "stack_low s" using wf by (auto simp: vm_wf_def)
  have ix: "idx_ok is" "i < 512" "length is \<le> 3" using t by auto
  have tt: "t \<in> tables ?m r" by (rule tablesI[OF ix(1,3) t(3)])
  have tok: "phys_ok t" using tables_phys[OF w(1) tt] by simp
  have fr: "win_frame (tables ?m r \<union> ?F) ?m (st64 ?m ?a e)" for e using tt ix(2) by (intro win_frame_st) auto
  show ?thesis
  proof (cases "is_table (pte ?m t i)")
    case True
    let ?e = "pte ?m t i OR f"
    have "pte ?m t i AND 1 \<noteq> 0" using True present_small[OF small] by simp
    then have s': "s' = s\<lparr>mem := st64 ?m ?a ?e\<rparr>" using l by (auto simp: pt_level_def Let_def pte_def PG_PRESENT_def)
    have "tbl (st64 ?m ?a ?e) r js = tbl ?m r js" if "idx_ok js" "length js \<le> 3" for js
      using tbl_st_same[OF w(1) ix(1,3) t(3) ix(2) _ _ that, of ?e] True flags_or[OF f] by simp
    then have "tables (st64 ?m ?a ?e) r = tables ?m r" by (auto simp: tables_def)
    moreover have "pmm_stack s' = pmm_stack s" using stack_st[OF w(3) tok ix(2)] by (simp add: s')
    ultimately show ?thesis using fr by (simp add: vm_frame_def s')
  next
    case False
    then have ne: "pmm_stack s \<noteq> []" using avail by simp
    let ?p = "last (pmm_stack s)" and ?e = "last (pmm_stack s) OR 1 OR f"
    let ?s = "s\<lparr>g_free_index := g_free_index s - 1\<rparr>"
    have p: "?p \<in> ?F" using ne by simp
    have pok: "phys_ok ?p" using pt_wfD(3)[OF w(1) p] by simp
    have np: "pte ?m t i AND 1 = 0" using False present_small[OF small] by simp
    have e: "is_table ?e" "?e AND MASK_REMOVE_12L = ?p"
      using phys_or_present[OF pok] flags_or[OF f, of "?p OR 1"] by (simp_all add: or.assoc)
    have s': "s' = ?s\<lparr>mem := st64 ?m ?a ?e\<rparr>"
      using l np pmm_stack_alloc(1)[OF ne] e(2) by (auto simp: pt_level_def Let_def pte_def PG_PRESENT_def or.assoc)
    note tb = tbl_st_new[OF w(1) ix(1) t(2,3) ix(2) False e(1), unfolded e(2), OF p]
    have "tables (st64 ?m ?a ?e) r \<subseteq> tables ?m r \<union> {?p}"
    proof
      fix u assume "u \<in> tables (st64 ?m ?a ?e) r"
      then obtain js where "idx_ok js" "length js \<le> 3" "tbl (st64 ?m ?a ?e) r js = Some u" by (auto simp: tables_def)
      then show "u \<in> tables ?m r \<union> {?p}" using tb[of js] by (auto simp: tables_def split: if_splits)
    qed
    moreover have sl: "stack_low ?s" using w(3) ne by (simp add: stack_low_def pmm_stack_empty_iff unat_minus_one)
    have "pmm_stack s' = butlast (pmm_stack s)"
      using stack_st[OF sl tok ix(2)] pmm_stack_alloc[OF ne] by (simp add: s')
    then have "pmm_stack s = pmm_stack s' @ [?p]" using ne by simp
    ultimately show ?thesis using fr unfolding vm_frame_def s' by (intro conjI exI[of _ "[?p]"]) simp_all
  qed
qed

lemma get_page_table_entry_frame:
  assumes "vm_wf r s" "no_huge (mem s) r v" "flags_ok f"
    "has_tables (mem s) r v \<or> 3 \<le> length (pmm_stack s)"
    "get_page_table_entry r (v AND MASK_REMOVE_16U) f s = (a, s')"
  shows "vm_frame r 3 s s'"
proof -
  from get_page_table_entry_levels[OF assms(1-3) assms(4)[unfolded has_tables_def] assms(5)] obtain t1 s1 t2 s2 t3 where
    "level_ok r [] (vidx v 3) f s t1 s1" "level_ok r [vidx v 3] (vidx v 2) f s1 t2 s2"
    "level_ok r [vidx v 3, vidx v 2] (vidx v 1) f s2 t3 s'" .
  then have "vm_frame r (1 + 1 + 1) s s'" by (intro vm_frame_trans level_frame)
  then show ?thesis by (simp add: numeral_3_eq_3)
qed

lemma set_page_frame:
  assumes wf: "vm_wf r s" "no_huge (mem s) r v" "has_tables (mem s) r v \<or> 3 \<le> length (pmm_stack s)"
  shows "vm_frame r 3 s (set_page r v p fl s)"
    and "no_huge (mem s) r w \<Longrightarrow> no_huge (mem (set_page r v p fl s)) r w"
proof -
  let ?s' = "set_page r v p fl s" and ?path = "[vidx v 3, vidx v 2, vidx v 1]"
  obtain a s1 where g: "get_page_table_entry r (v AND MASK_REMOVE_16U) (table_flags fl) s = (a, s1)" by fastforce
  from get_page_table_entry_spec[OF assms(1,2) flags_table_flags assms(3)[unfolded has_tables_def] g]
  obtain pt where pt: "vm_wf r s1" "tbl (mem s1) r ?path = Some pt" "a = entry_addr pt (vidx v 0)"
    and ent: "\<And>js j. idx_ok (js @ [j]) \<Longrightarrow> length js \<le> 3 \<Longrightarrow>
       (js, j) \<notin> {([], vidx v 3), ([vidx v 3], vidx v 2), ([vidx v 3, vidx v 2], vidx v 1)} \<Longrightarrow>
       entry (mem s1) r js j = entry (mem s) r js j" by metis
  have w: "pt_wf (mem s1) r (set (pmm_stack s1))" "stack_low s1" using pt(1) by (auto simp: vm_wf_def)
  let ?m = "st64 (mem s1) a (leaf_entry p fl)"
  have res: "?s' = s1\<lparr>mem := ?m\<rparr>" using g by (simp add: set_page_def leaf_entry_def Let_def)
  note lf = leaf_store[OF w(1) pt(2), where e = "leaf_entry p fl", folded pt(3)]
  have "tables ?m r = tables (mem s1) r" using lf(2) by (auto simp: tables_def)
  moreover have pin: "pt \<in> tables (mem s1) r" using pt(2) by (intro tablesI[of ?path]) auto
  moreover have "pmm_stack ?s' = pmm_stack s1"
    using stack_st[OF w(2) _ vidx_less] tables_phys[OF w(1) pin] by (simp add: pt(3) res)
  ultimately have "vm_frame r 0 s1 ?s'" unfolding vm_frame_def res
    using win_frame_st[of pt "tables (mem s1) r \<union> set (pmm_stack s1)" "vidx v 0" "mem s1" "leaf_entry p fl"] by (simp add: pt(3))
  from vm_frame_trans[OF get_page_table_entry_frame[OF assms(1,2) flags_table_flags assms(3) g] this]
  show "vm_frame r 3 s ?s'" by simp
  have on: "is_table (entry ?m r [] (vidx v 3))" "is_table (entry ?m r [vidx v 3] (vidx v 2))" "is_table (entry ?m r [vidx v 3, vidx v 2] (vidx v 1))"
    using lf(2)[of ?path] pt(2) by (auto simp: entry_def Let_def split: if_splits)
  have "entry ?m r js j = entry (mem s) r js j \<or> is_table (entry ?m r js j)"
    if "idx_ok (js @ [j])" "length js \<le> 2" for js j
    using ent[of js j] lf(3)[of js j] that on by (cases "(js, j) \<in> {([], vidx v 3), ([vidx v 3], vidx v 2), ([vidx v 3, vidx v 2], vidx v 1)}") auto
  from this[of "[]" "vidx w 3"] this[of "[vidx w 3]" "vidx w 2"] this[of "[vidx w 3, vidx w 2]" "vidx w 1"]
  show "no_huge (mem s) r w \<Longrightarrow> no_huge (mem ?s') r w"
    unfolding no_huge_def res by (auto simp: is_table_def)
qed

end
