(* ===== verification/Mem_Mgmt.thy ===== *)
theory Mem_Mgmt
  imports Avl_Delete Vm_Frame
begin

text \<open>
  The virtual memory manager (\<^verbatim>\<open>kernel/system/mem_mgmt/vmm/mem_mgmt.c\<close>): its operations, and the
  allocation of address ranges. \<open>alloc_virt\<close> on the tree in memory implements \<open>alloc_range\<close> on the list
  of ranges. A \<open>struct memory_manager\<close> is read and written at its address.
\<close>

section \<open>Data and operations\<close>

record memory_manager =
  mm_tree :: u64
  mm_pml4t :: u64
  mm_lock :: u8

definition mgr_at :: "memory \<Rightarrow> u64 \<Rightarrow> memory_manager" where
  "mgr_at m a = \<lparr>mm_tree = mgr_tree m a, mm_pml4t = mgr_pml4t m a, mm_lock = mgr_lock m a\<rparr>"

definition put_mgr :: "memory \<Rightarrow> u64 \<Rightarrow> memory_manager \<Rightarrow> memory" where
  "put_mgr m a v = st8 (st64 (st64 m a (mm_tree v)) (a + 8) (mm_pml4t v)) (a + 16) (mm_lock v)"

text \<open>\<open>create_mgr\<close> works on a local variable; \<open>loc\<close> is its address.\<close>

definition create_mgr :: "u64 \<Rightarrow> u64 \<Rightarrow> u64 \<Rightarrow> 'z node_heap_scheme \<Rightarrow> (memory_manager \<times> 'z node_heap_scheme) option" where
  "create_mgr loc addr_start page_count s = do {
     let s = s\<lparr>mem := put_mgr (mem s) loc \<lparr>mm_tree = 0, mm_pml4t = 0, mm_lock = 0\<rparr>\<rparr>;
     s \<leftarrow> avl_insert loc addr_start page_count s;
     Some (mgr_at (mem s) loc, s)
   }"

text \<open>The loop around the atomic exchange does not return while the lock is held.\<close>

partial_function (option) lock_mgr :: "u64 \<Rightarrow> 'z machine_scheme \<Rightarrow> 'z machine_scheme option" where
  "lock_mgr mgr s =
     (let tmp = mgr_lock (mem s) mgr;
          s = s\<lparr>mem := st8 (mem s) (mgr + 16) 1\<rparr>
      in if tmp \<noteq> 0 then lock_mgr mgr s else Some s)"

declare lock_mgr.simps [code]

definition unlock_mgr :: "u64 \<Rightarrow> 'z machine_scheme \<Rightarrow> 'z machine_scheme" where
  "unlock_mgr mgr s = s\<lparr>mem := st8 (mem s) (mgr + 16) 0\<rparr>"

definition alloc_virt :: "u64 \<Rightarrow> u64 \<Rightarrow> 'z node_heap_scheme \<Rightarrow> (u64 \<times> 'z node_heap_scheme) option" where
  "alloc_virt mgr page_count s = do {
     n \<leftarrow> avl_min_size (mem s) (mgr_tree (mem s) mgr) page_count;
     if n = 0 then Some (0, s)
     else do {
       let addr = nd_addr (node_at (mem s) n);
       let free_page_count = nd_page_count (node_at (mem s) n);
       let pages_diff = free_page_count - page_count;
       s \<leftarrow> (if pages_diff \<noteq> 0
            then avl_insert mgr (nd_addr (node_at (mem s) n) + page_count * 4096) pages_diff s
            else Some s);
       let m = set_page_count (mem s) n page_count;
       Some (addr, s\<lparr>mem := set_allocated m n 1\<rparr>)
     }
   }"

text \<open>The bodies of the loops of \<open>malloc_pages\<close> and \<open>map_memory\<close>.\<close>

definition malloc_page :: "u64 \<Rightarrow> u64 \<Rightarrow> page_flags \<Rightarrow> nat \<Rightarrow> 'z pmm_scheme \<Rightarrow> 'z pmm_scheme" where
  "malloc_page mgr addr flags i s =
     (let (p, s) = pmm_alloc_page s
      in set_page (mgr_pml4t (mem s) mgr) (addr + of_nat i * 0x1000) p flags s)"

definition map_page :: "u64 \<Rightarrow> u64 \<Rightarrow> u64 \<Rightarrow> page_flags \<Rightarrow> nat \<Rightarrow> 'z pmm_scheme \<Rightarrow> 'z pmm_scheme" where
  "map_page mgr addr map_addr flags i s =
     set_page (mgr_pml4t (mem s) mgr) (addr + of_nat i * 0x1000) (map_addr + of_nat i * 0x1000) flags s"

definition malloc_pages ::
  "u64 \<Rightarrow> u64 \<Rightarrow> u8 \<Rightarrow> u8 \<Rightarrow> u8 \<Rightarrow> 'z node_heap_scheme \<Rightarrow> (u64 \<times> 'z node_heap_scheme) option" where
  "malloc_pages mgr page_count write exec krn s =
     (if mgr = 0 \<or> page_count = 0 then Some (0, s)
      else do {
        s \<leftarrow> lock_mgr mgr s;
        (addr, s) \<leftarrow> alloc_virt mgr page_count s;
        let flags = \<lparr>pf_write = (write \<noteq> 0), pf_exec = (exec \<noteq> 0), pf_kernel = (krn \<noteq> 0),
                     pf_usable = True, pf_present = True\<rparr>;
        let s = fold (malloc_page mgr addr flags) [0..<unat page_count] s;
        Some (addr, unlock_mgr mgr s)
      })"

definition map_memory ::
  "u64 \<Rightarrow> u64 \<Rightarrow> u64 \<Rightarrow> u8 \<Rightarrow> 'z node_heap_scheme \<Rightarrow> (u64 \<times> 'z node_heap_scheme) option" where
  "map_memory mgr map_addr page_count krn s =
     (if mgr = 0 \<or> page_count = 0 \<or> map_addr mod 0x1000 \<noteq> 0 then Some (0, s)
      else do {
        s \<leftarrow> lock_mgr mgr s;
        (addr, s) \<leftarrow> alloc_virt mgr page_count s;
        let flags = \<lparr>pf_write = False, pf_exec = False, pf_kernel = (krn \<noteq> 0), pf_usable = False, pf_present = True\<rparr>;
        let s = fold (map_page mgr addr map_addr flags) [0..<unat page_count] s;
        Some (addr, unlock_mgr mgr s)
      })"

text \<open>The loop that unmaps a range reads the size of the node again in every round.\<close>

partial_function (option) free_range :: "u64 \<Rightarrow> u64 \<Rightarrow> u64 \<Rightarrow> u64 \<Rightarrow> 'z pmm_scheme \<Rightarrow> 'z pmm_scheme option" where
  "free_range mgr addr n i s =
     (if i < nd_page_count (node_at (mem s) n)
      then free_range mgr addr n (i + 1) (free_page (mgr_pml4t (mem s) mgr) (addr + i * 0x1000) s)
      else Some s)"

declare free_range.simps [code]

text \<open>
  The two merges of \<open>free_pages\<close>: with the range that ends at \<open>addr\<close> and with the range after it. The
  arguments \<open>j1\<close> and \<open>j2\<close> are the contents of the uninitialised pointer in the two calls of \<open>_delete_node\<close>.
\<close>

definition merge_below :: "u64 \<Rightarrow> u64 \<Rightarrow> u64 \<Rightarrow> u64 \<Rightarrow> 'z node_heap_scheme \<Rightarrow> (u64 \<times> 'z node_heap_scheme) option" where
  "merge_below mgr addr n j1 s = do {
     prev \<leftarrow> avl_below (mem s) (mgr_tree (mem s) mgr) addr;
     if prev \<noteq> 0 \<and> nd_allocated (node_at (mem s) prev) = 0
     then do {
       let pages_old = nd_page_count (node_at (mem s) n);
       s \<leftarrow> avl_remove mgr addr j1 s;
       Some (prev, s\<lparr>mem := set_page_count (mem s) prev (nd_page_count (node_at (mem s) prev) + pages_old)\<rparr>)
     }
     else Some (n, s)
   }"

definition merge_above :: "u64 \<Rightarrow> u64 \<Rightarrow> u64 \<Rightarrow> 'z node_heap_scheme \<Rightarrow> 'z node_heap_scheme option" where
  "merge_above mgr n j2 s = do {
     after \<leftarrow> avl_find (mem s) (mgr_tree (mem s) mgr)
       (nd_addr (node_at (mem s) n) + nd_page_count (node_at (mem s) n) * 0x1000);
     if after \<noteq> 0 \<and> nd_allocated (node_at (mem s) after) = 0
     then do {
       let m = set_page_count (mem s) n (nd_page_count (node_at (mem s) n) + nd_page_count (node_at (mem s) after));
       avl_remove mgr (nd_addr (node_at m after)) j2 (s\<lparr>mem := m\<rparr>)
     }
     else Some s
   }"

definition free_pages :: "u64 \<Rightarrow> u64 \<Rightarrow> u64 \<Rightarrow> u64 \<Rightarrow> 'z node_heap_scheme \<Rightarrow> 'z node_heap_scheme option" where
  "free_pages mgr addr j1 j2 s =
     (if mgr = 0 then Some s
      else do {
        s \<leftarrow> lock_mgr mgr s;
        n \<leftarrow> avl_find (mem s) (mgr_tree (mem s) mgr) addr;
        if n = 0 \<or> nd_allocated (node_at (mem s) n) = 0 then Some (unlock_mgr mgr s)
        else do {
          let s = s\<lparr>mem := set_allocated (mem s) n 0\<rparr>;
          s \<leftarrow> free_range mgr addr n 0 s;
          (n, s) \<leftarrow> merge_below mgr addr n j1 s;
          s \<leftarrow> merge_above mgr n j2 s;
          Some (unlock_mgr mgr s)
        }
      })"

section \<open>What a change of memory keeps of the tree\<close>

lemma nh_wf_cong:
  assumes wf: "nh_wf ps s" and m: "\<forall>p\<in>set ps. \<forall>x\<in>region (p + PHYSICAL_MAP_OFFSET) 4096. mem s' x = mem s x"
    and h: "g_node_list_head s' = g_node_list_head s" and st: "distinct (ps @ pmm_stack s')"
      "stack_low s'" and z: "\<forall>p\<in>set (pmm_stack s'). phys_ok p \<and> (\<forall>i<512. pte (mem s') p i = 0)"
  shows "nh_wf ps s'" "own ps (mem s') = own ps (mem s)" "\<And>q. q \<in> own ps (mem s) \<Longrightarrow> node_at (mem s') q = node_at (mem s) q"
proof -
  note w = nh_wfD[OF wf]
  have hd: "pte (mem s') p i = pte (mem s) p i" if "p \<in> set ps" "i < 4" for p i
  proof (rule pte_cong)
    fix x assume "x \<in> region (entry_addr p i) 8"
    then show "mem s' x = mem s x" using entry_region[of i 4096 p] that m by (auto simp: word_less_nat_alt)
  qed
  have us: "used (mem s') p k = used (mem s) p k" if "p \<in> set ps" "k < 128" for p k
  proof -
    have "k div 64 < 2" using that by simp
    then have "(2 + of_nat (k div 64) :: u64) < 4" by (auto simp: less_2_cases_iff)
    then show ?thesis using hd[OF that(1)] by (simp add: used_def)
  qed
  show "own ps (mem s') = own ps (mem s)" by (rule own_cong) (use us slot_less in force)
  have "chain (mem s') 0 (g_node_list_head s) ps" using w(1) hd by (subst chain_frame[of _ _ "mem s"]) auto
  moreover have "hdr_ok (mem s') p" if "p \<in> set ps" for p using us[OF that] w(4)[OF that] by (simp add: hdr_ok_def)
  ultimately show "nh_wf ps s'" unfolding nh_wf_def h using w st z by auto
  show "node_at (mem s') q = node_at (mem s) q" if "q \<in> own ps (mem s)" for q
    by (rule node_at_cong) (use nodes_in_window[OF wf that] m in blast)
qed

lemma avl_rep_cong:
  assumes r: "avl_rep ps s t" and m: "\<forall>p\<in>set ps. \<forall>x\<in>region (p + PHYSICAL_MAP_OFFSET) 4096. mem s' x = mem s x"
    and h: "g_node_list_head s' = g_node_list_head s" "distinct (ps @ pmm_stack s')"
      "stack_low s'" "\<forall>p\<in>set (pmm_stack s'). phys_ok p \<and> (\<forall>i<512. pte (mem s') p i = 0)"
  shows "avl_rep ps s' t"
proof -
  have wf: "nh_wf ps s" and o: "ptrs t \<subseteq> own ps (mem s)" using r by (auto simp: avl_rep_def)
  note c = nh_wf_cong[OF wf m h]
  have "tree_in (node_at (mem s')) t = tree_in (node_at (mem s)) t" by (rule tree_in_cong) (use c(3) o in blast)
  then show ?thesis using r c(1,2) by (simp add: avl_rep_def)
qed

section \<open>The structure of the manager in memory\<close>

text \<open>It lies below the window of the direct map and outside the array of the page stack.\<close>

definition mgr_ok :: "u64 \<Rightarrow> 'z pmm_scheme \<Rightarrow> bool" where
  "mgr_ok mgr s \<longleftrightarrow> mgr \<noteq> 0 \<and> unat mgr + 24 \<le> 2 ^ 64 - 2 ^ 46 \<and> sep mgr 24 (g_free_pages s) (8 * unat (g_free_index s))"

lemma mgr_region_low: "mgr_ok mgr s \<Longrightarrow> x \<in> region mgr 24 \<Longrightarrow> unat x < 2 ^ 64 - 2 ^ 46"
  by (auto simp: mgr_ok_def region_def unat_sub_if' split: if_splits)

lemma mgr_fields_cong:
  assumes "\<And>x. x \<in> region mgr 24 \<Longrightarrow> m' x = m x"
  shows "mgr_tree m' mgr = mgr_tree m mgr" "mgr_pml4t m' mgr = mgr_pml4t m mgr" "mgr_lock m' mgr = mgr_lock m mgr"
  using m64.ld_frame[of mgr 24 m' m 0] m64.ld_frame[of mgr 24 m' m 8] m8.ld_frame[of mgr 24 m' m 16] assms
  by (simp_all add: mgr_tree_def mgr_pml4t_def mgr_lock_def)

lemma pmm_stack_cong:
  assumes "\<And>x. x \<in> region (g_free_pages s) (8 * unat (g_free_index s)) \<Longrightarrow> m x = mem s x" "unat (g_free_index s) < 2 ^ 61"
  shows "pmm_stack (s\<lparr>mem := m\<rparr>) = pmm_stack s"
proof -
  have "ld64 m (g_free_pages s + 8 * of_nat j) = ld64 (mem s) (g_free_pages s + 8 * of_nat j)" if "j < unat (g_free_index s)" for j
  proof (rule m64.ld_local)
    fix i assume "i < (8::nat)"
    then have "8 * j + i < 8 * unat (g_free_index s)" using that by simp
    moreover from this have "unat (of_nat (8 * j + i) :: u64) = 8 * j + i"
      using assms(2) by (simp add: unat_of_nat del: of_nat_add of_nat_mult)
    ultimately show "m (g_free_pages s + 8 * of_nat j + of_nat i) = mem s (g_free_pages s + 8 * of_nat j + of_nat i)"
      by (intro assms(1)) (simp add: region_def)
  qed
  then show ?thesis by (simp add: pmm_stack_def)
qed

lemma stack_low_index: "stack_low s \<Longrightarrow> unat (g_free_index s) < 2 ^ 61"
  by (simp add: stack_low_def)

text \<open>A write that spares the window of the direct map and the array of the page stack.\<close>

definition quiet :: "'z pmm_scheme \<Rightarrow> memory \<Rightarrow> bool" where
  "quiet s m \<longleftrightarrow> (\<forall>x. 2 ^ 64 - 2 ^ 46 \<le> unat x \<or> x \<in> region (g_free_pages s) (8 * unat (g_free_index s)) \<longrightarrow> m x = mem s x)"

lemma mgr_quiet:
  assumes "mgr_ok mgr s" "\<forall>x. x \<notin> region mgr 24 \<longrightarrow> m x = mem s x"
  shows "quiet s m"
proof -
  have "sep mgr 24 (g_free_pages s) (8 * unat (g_free_index s))" using assms(1) by (simp add: mgr_ok_def)
  note d = sep_region_disjoint[OF this]
  have "x \<notin> region mgr 24" if "2 ^ 64 - 2 ^ 46 \<le> unat x \<or> x \<in> region (g_free_pages s) (8 * unat (g_free_index s))" for x
    using that mgr_region_low[OF assms(1), of x] d by (meson disjoint_iff not_less)
  then show ?thesis using assms(2) unfolding quiet_def by blast
qed

lemma quiet_write:
  assumes "quiet s m" "stack_low s"
  shows "pmm_stack (s\<lparr>mem := m\<rparr>) = pmm_stack s" "2 ^ 64 - 2 ^ 46 \<le> unat x \<Longrightarrow> m x = mem s x"
    "phys_ok p \<Longrightarrow> i < 512 \<Longrightarrow> pte m p i = pte (mem s) p i"
proof -
  have hi: "m x = mem s x" if "2 ^ 64 - 2 ^ 46 \<le> unat x" for x using assms(1) that by (simp add: quiet_def)
  show "2 ^ 64 - 2 ^ 46 \<le> unat x \<Longrightarrow> m x = mem s x" by (rule hi)
  show "pmm_stack (s\<lparr>mem := m\<rparr>) = pmm_stack s"
    by (rule pmm_stack_cong[OF _ stack_low_index[OF assms(2)]]) (use assms(1) in \<open>simp add: quiet_def\<close>)
  show "pte m p i = pte (mem s) p i" if "phys_ok p" "i < 512"
  proof (rule pte_cong)
    fix x assume "x \<in> region (entry_addr p i) 8"
    then have "x \<in> region (p + PHYSICAL_MAP_OFFSET) 4096"
      using entry_region[of i 4096 p] that(2) by (auto simp: word_less_nat_alt)
    then show "m x = mem s x" using window_high[OF that(1)] by (intro hi)
  qed
qed

lemma quiet_rep:
  assumes "quiet s m" "avl_rep ps s t"
  shows "avl_rep ps (s\<lparr>mem := m\<rparr>) t"
proof -
  have wf: "nh_wf ps s" using assms(2) by (simp add: avl_rep_def)
  note w = nh_wfD[OF wf]
  note c = quiet_write[OF assms(1) w(3)]
  show ?thesis
  proof (rule avl_rep_cong[OF assms(2)])
    show "\<forall>p\<in>set ps. \<forall>x\<in>region (p + PHYSICAL_MAP_OFFSET) 4096. mem (s\<lparr>mem := m\<rparr>) x = mem s x"
      using c(2) window_high w(4) by (auto; blast)
    show "\<forall>p\<in>set (pmm_stack (s\<lparr>mem := m\<rparr>)). phys_ok p \<and> (\<forall>i<512. pte (mem (s\<lparr>mem := m\<rparr>)) p i = 0)"
      using c(3) w(5,6) by (simp add: c(1))
  qed (use w in \<open>simp_all add: c(1) stack_low_def\<close>)
qed

lemma mgr_ok_less: "mgr_ok mgr s \<Longrightarrow> g_free_pages s' = g_free_pages s \<Longrightarrow> g_free_index s' \<le> g_free_index s \<Longrightarrow> mgr_ok mgr s'"
  by (auto simp: mgr_ok_def word_le_nat_alt intro: sep_mono)

section \<open>Changing the data of one node\<close>

definition set_data :: "u64 \<Rightarrow> u64 \<Rightarrow> u8 \<Rightarrow> avl \<Rightarrow> avl" where
  "set_data p n c = map_tree (\<lambda>x. if lp x = p then x\<lparr>lpages := n, lalloc := c\<rparr> else x)"

lemma set_data_simps [simp]:
  "set_data p n c Leaf = Leaf"
  "set_data p n c (Node l x r) = Node (set_data p n c l) (if lp x = p then x\<lparr>lpages := n, lalloc := c\<rparr> else x) (set_data p n c r)"
  by (simp_all add: set_data_def)

lemma root_set_data [simp]: "root (set_data p n c t) = root t" by (cases t) auto

lemma height_set_data [simp]: "height (set_data p n c t) = height t" by (simp add: set_data_def)

lemma ptr_list_set_data [simp]: "ptr_list (set_data p n c t) = ptr_list t" by (induction t) auto

lemma avl_set_data [simp]: "avl (set_data p n c t) = avl t" by (induction t) auto

lemma set_data_id: "p \<notin> ptrs t \<Longrightarrow> set_data p n c t = t" by (induction t) auto

lemma set_data_tree:
  assumes "tree_in H t" "H' p = (H p)\<lparr>nd_page_count := n, nd_allocated := c\<rparr>" "\<And>q. q \<in> ptrs t \<Longrightarrow> q \<noteq> p \<Longrightarrow> H' q = H q"
  shows "tree_in H' (set_data p n c t)"
  using assms(1,3) by (induction t) (auto simp: assms(2))

lemma ranges_set_data:
  assumes "ordered (ranges t)" "x \<in> set_tree t" "lp x = p" "distinct (ptr_list t)"
  shows "ranges (set_data p n c t) = map (\<lambda>e. if fst e = laddr x then (laddr x, n, c) else e) (ranges t)"
proof -
  have i: "inorder (set_data p n c t) = map (\<lambda>x. if lp x = p then x\<lparr>lpages := n, lalloc := c\<rparr> else x) (inorder t)"
    by (induction t) auto
  have "lp y = p \<longleftrightarrow> laddr y = laddr x" if "y \<in> set_tree t" for y
  proof
    assume "lp y = p"
    then have "y = x" using assms(2-4) that by (auto simp: ptr_list_def distinct_map inj_on_def)
    then show "laddr y = laddr x" by simp
  next
    assume "laddr y = laddr x"
    moreover have "distinct (map laddr (inorder t))"
    proof -
      have "distinct (map fst (ranges t))" using assms(1) by (simp add: ordered_def strict_sorted_iff)
      moreover have "map fst (ranges t) = map laddr (inorder t)" by (simp add: ranges_def entry_of_def)
      ultimately show ?thesis by simp
    qed
    ultimately have "y = x" using assms(2) that by (auto simp: distinct_map inj_on_def)
    then show "lp y = p" using assms(3) by simp
  qed
  then show ?thesis by (auto simp: ranges_def i entry_of_def)
qed

text \<open>The nodes with their data; rotations and insertions keep them.\<close>

definition tags :: "avl \<Rightarrow> (u64 \<times> range_entry) list" where "tags t = zip (ptr_list t) (ranges t)"

lemma tags_map: "tags t = map (\<lambda>x. (lp x, entry_of x)) (inorder t)"
  by (simp add: tags_def ptr_list_def ranges_def zip_map_map zip_same_conv_map)

lemma tags_simps: "tags (Node l x r) = tags l @ (lp x, entry_of x) # tags r" by (simp add: tags_map)

lemma tags_reb: "tags (reb t) = tags t" by (simp add: tags_def)

lemma tags_ins: "(p, e) \<in> set (tags t) \<Longrightarrow> fst e \<noteq> a \<Longrightarrow> (p, e) \<in> set (tags (ins q a n t))"
proof (induction t)
  case (Node l x r)
  then show ?case by (auto simp: tags_simps tags_reb entry_of_def)
qed (simp add: tags_def)

section \<open>The abstract allocator of address ranges\<close>

text \<open>
  The ranges of a manager: not empty, without overlap, inside the address space. \<open>alloc_range\<close> takes
  the pages from the start of the highest free range that is large enough.
\<close>

definition range_last :: "range_entry \<Rightarrow> nat" where
  "range_last e = (case e of (a, c, f) \<Rightarrow> unat a + 4096 * unat c)"

definition tiled :: "range_entry list \<Rightarrow> bool" where
  "tiled xs \<longleftrightarrow> sorted_wrt (\<lambda>e e'. range_last e \<le> unat (fst e')) xs \<and>
     (\<forall>e\<in>set xs. 0 < fst (snd e) \<and> range_last e \<le> 2 ^ 64)"

definition fits :: "u64 \<Rightarrow> range_entry \<Rightarrow> bool" where
  "fits n e \<longleftrightarrow> (case e of (a, c, f) \<Rightarrow> n \<le> c \<and> f = 0)"

definition split_range :: "u64 \<Rightarrow> range_entry \<Rightarrow> range_entry list" where
  "split_range n e = (case e of (a, c, f) \<Rightarrow> (a, n, 1) # (if c = n then [] else [(a + n * 4096, c - n, 0)]))"

definition alloc_range :: "u64 \<Rightarrow> range_entry list \<Rightarrow> (u64 \<times> range_entry list) option" where
  "alloc_range n xs = (case find (fits n) (rev xs) of None \<Rightarrow> None
     | Some e \<Rightarrow> Some (fst e, concat (map (\<lambda>e'. if fst e' = fst e then split_range n e else [e']) xs)))"

lemma tiled_append:
  "tiled (xs @ ys) \<longleftrightarrow> tiled xs \<and> tiled ys \<and> (\<forall>e\<in>set xs. \<forall>e'\<in>set ys. range_last e \<le> unat (fst e'))"
  by (auto simp: tiled_def sorted_wrt_append)

lemma tiled_Cons: "tiled (e # xs) \<longleftrightarrow> 0 < fst (snd e) \<and> range_last e \<le> 2 ^ 64 \<and>
    (\<forall>e'\<in>set xs. range_last e \<le> unat (fst e')) \<and> tiled xs"
  by (auto simp: tiled_def)

lemma tiled_Nil [simp]: "tiled []" by (simp add: tiled_def)

lemma range_last_gt: "0 < fst (snd e) \<Longrightarrow> unat (fst e) < range_last e"
  by (cases e) (auto simp: range_last_def word_gt_0 unat_gt_0)

lemma tiled_ordered: "tiled xs \<Longrightarrow> ordered xs"
proof (induction xs)
  case (Cons e xs)
  then have "unat (fst e) < range_last e" "\<forall>e'\<in>set xs. range_last e \<le> unat (fst e')" "ordered xs"
    using range_last_gt by (auto simp: tiled_Cons)
  then show ?case by (auto simp: ordered_def word_less_nat_alt intro: less_le_trans)
qed (simp add: ordered_def)

lemma concat_map_same: "(\<And>x. x \<in> set xs \<Longrightarrow> f x = [x]) \<Longrightarrow> concat (map f xs) = xs"
  by (induction xs) auto

lemma alloc_range_Some:
  assumes "tiled xs" "alloc_range n xs = Some (b, zs)"
  obtains ys c ws where "xs = ys @ (b, c, 0) # ws" "n \<le> c" "\<forall>e\<in>set ws. \<not> fits n e"
    "zs = ys @ split_range n (b, c, 0) @ ws"
proof -
  obtain e where e: "find (fits n) (rev xs) = Some e" "b = fst e"
    "zs = concat (map (\<lambda>e'. if fst e' = fst e then split_range n e else [e']) xs)"
    using assms(2) by (auto simp: alloc_range_def split: option.splits)
  from find_rev[OF e(1)] obtain ys ws where x: "xs = ys @ e # ws" "fits n e" "\<forall>z\<in>set ws. \<not> fits n z" by blast
  obtain c where ec: "e = (b, c, 0)" "n \<le> c" using x(2) e(2) by (cases e) (auto simp: fits_def)
  have "ordered xs" by (rule tiled_ordered[OF assms(1)])
  then have "fst e' \<noteq> b" if "e' \<in> set ys \<union> set ws" for e'
    using that by (auto simp: x(1) ec ordered_def sorted_wrt_append)
  then have "concat (map (\<lambda>e'. if fst e' = b then split_range n e else [e']) ys) = ys"
    "concat (map (\<lambda>e'. if fst e' = b then split_range n e else [e']) ws) = ws" by (simp_all add: concat_map_same)
  then have "zs = ys @ split_range n e @ ws"
    unfolding e(3) x(1) e(2)[symmetric] by (simp add: ec(1))
  then show thesis using that x ec by blast
qed

lemma split_tiled:
  assumes "0 < n" "n \<le> c" "unat b + 4096 * unat c \<le> 2 ^ 64"
  shows "tiled (split_range n (b, c, 0))" "\<And>e. e \<in> set (split_range n (b, c, 0)) \<Longrightarrow> range_last e \<le> unat b + 4096 * unat c \<and> b \<le> fst e"
    "n < c \<Longrightarrow> unat (b + n * 4096) = unat b + 4096 * unat n"
proof -
  have nc: "unat n \<le> unat c" using assms(2) by (simp add: word_le_nat_alt)
  have n: "unat (n * 4096) = 4096 * unat n" if "n < c"
  proof -
    have "4096 * unat n < 2 ^ 64" using assms(3) that by (simp add: word_less_nat_alt)
    then show ?thesis by (simp add: unat_mult_lem[THEN iffD1] mult.commute)
  qed
  show *: "unat (b + n * 4096) = unat b + 4096 * unat n" if "n < c"
    using n[OF that] assms(3) that by (simp add: unat_plus_if' word_less_nat_alt)
  have d: "unat (c - n) = unat c - unat n" using assms(2) by (rule unat_sub)
  have lt: "c \<noteq> n \<Longrightarrow> n < c" using assms(2) by simp
  show "tiled (split_range n (b, c, 0))"
    using assms nc lt * d by (auto simp: split_range_def tiled_Cons range_last_def word_less_nat_alt diff_mult_distrib2)
  show "range_last e \<le> unat b + 4096 * unat c \<and> b \<le> fst e" if "e \<in> set (split_range n (b, c, 0))" for e
    using that nc lt * d by (auto simp: split_range_def range_last_def word_le_nat_alt diff_mult_distrib2 split: if_splits)
qed

lemma alloc_range_tiled:
  assumes "tiled xs" "0 < n" "alloc_range n xs = Some (b, zs)"
  shows "tiled zs"
proof -
  from alloc_range_Some[OF assms(1,3)] obtain ys c ws where x: "xs = ys @ (b, c, 0) # ws" "n \<le> c"
    "zs = ys @ split_range n (b, c, 0) @ ws" by metis
  have t: "tiled ys" "tiled ws" "range_last (b, c, 0) \<le> 2 ^ 64" "\<forall>e\<in>set ws. range_last (b, c, 0) \<le> unat (fst e)"
    "\<forall>e\<in>set ys. range_last e \<le> unat b" "\<forall>e\<in>set ys. \<forall>e'\<in>set ws. range_last e \<le> unat (fst e')"
    using assms(1) by (auto simp: x(1) tiled_append tiled_Cons)
  note sp = split_tiled[OF assms(2) x(2), where b = b]
  have b: "unat b + 4096 * unat c \<le> 2 ^ 64" using t(3) by (simp add: range_last_def)
  have "range_last e \<le> unat (fst e')" if "e \<in> set ys" "e' \<in> set (split_range n (b, c, 0))" for e e'
    using t(5) sp(2)[OF b that(2)] that(1) by (force simp: word_le_nat_alt)
  moreover have "range_last e \<le> unat (fst e')" if "e \<in> set (split_range n (b, c, 0))" "e' \<in> set ws" for e e'
    using t(4) sp(2)[OF b that(1)] that(2) by (force simp: range_last_def)
  ultimately show ?thesis using t sp(1)[OF b] by (auto simp: x(3) tiled_append)
qed

section \<open>The allocator of address ranges in memory\<close>

definition vmm_rep :: "u64 \<Rightarrow> u64 list \<Rightarrow> 'z node_heap_scheme \<Rightarrow> avl \<Rightarrow> bool" where
  "vmm_rep mgr ps s t \<longleftrightarrow> avl_rep ps s t \<and> t \<noteq> Leaf \<and> mgr_tree (mem s) mgr = root t \<and> tiled (ranges t) \<and> mgr_ok mgr s"

text \<open>Only the manager and the node pages are written, and at most one more page becomes a node page.\<close>

definition heap_grow :: "u64 \<Rightarrow> u64 list \<Rightarrow> 'z node_heap_scheme \<Rightarrow> u64 list \<Rightarrow> 'z node_heap_scheme \<Rightarrow> bool" where
  "heap_grow mgr ps s ps' s' \<longleftrightarrow>
     (ps' = ps \<and> pmm_stack s' = pmm_stack s \<or>
      pmm_stack s \<noteq> [] \<and> ps' = ps @ [last (pmm_stack s)] \<and> pmm_stack s' = butlast (pmm_stack s)) \<and>
     g_free_pages s' = g_free_pages s \<and>
     (\<forall>x. x \<notin> region mgr 8 \<and> (\<forall>p\<in>set ps'. x \<notin> region (p + PHYSICAL_MAP_OFFSET) 4096) \<longrightarrow> mem s' x = mem s x)"

lemma heap_grow_refl: "heap_grow mgr ps s ps s" by (simp add: heap_grow_def)

lemma heap_grow_index: "heap_grow mgr ps s ps' s' \<Longrightarrow> g_free_index s' \<le> g_free_index s"
proof -
  assume "heap_grow mgr ps s ps' s'"
  then have "pmm_stack s' \<in> {pmm_stack s, butlast (pmm_stack s)}" by (auto simp: heap_grow_def)
  then have "length (pmm_stack s') \<le> length (pmm_stack s)" by (auto simp del: length_pmm_stack)
  then show ?thesis by (simp add: word_le_nat_alt)
qed

lemma heap_grow_mgr_ok: "heap_grow mgr ps s ps' s' \<Longrightarrow> mgr_ok mgr s \<Longrightarrow> mgr_ok mgr s'"
  using heap_grow_index[of mgr ps s ps' s'] mgr_ok_less[of mgr s s'] by (simp add: heap_grow_def)

lemma heap_grow_write:
  assumes g: "heap_grow mgr ps s ps' s'" and wf: "nh_wf ps' s'" and f: "node_frame P (mem s') m" "P \<subseteq> own ps' (mem s')"
  shows "heap_grow mgr ps s ps' (s'\<lparr>mem := m\<rparr>)"
proof -
  have m: "\<And>x. (\<And>q. q \<in> own ps' (mem s') \<Longrightarrow> x \<notin> region q 48) \<Longrightarrow> m x = mem s' x"
    using f unfolding node_frame_def by blast
  have w: "pmm_stack (s'\<lparr>mem := m\<rparr>) = pmm_stack s'" "win_frame (set ps') (mem s') m"
    using nh_wf_write(3,4)[OF wf m] by blast+
  have "m x = mem s x" if "x \<notin> region mgr 8" "\<forall>p\<in>set ps'. x \<notin> region (p + PHYSICAL_MAP_OFFSET) 4096" for x
  proof -
    have "m x = mem s' x" using w(2) that(2) by (simp add: win_frame_def)
    then show ?thesis using g that by (simp add: heap_grow_def)
  qed
  then show ?thesis using g unfolding heap_grow_def w(1) by simp
qed

lemma node_frame_low:
  assumes "nh_wf ps s" "node_frame P (mem s) m" "P \<subseteq> own ps (mem s)" "unat x < 2 ^ 64 - 2 ^ 46"
  shows "m x = mem s x"
proof (rule win_frame_low[OF nh_wf_write(4)[OF assms(1)] _ assms(4)])
  show "m y = mem s y" if "\<And>q. q \<in> own ps (mem s) \<Longrightarrow> y \<notin> region q 48" for y using assms(2,3) that by (auto simp: node_frame_def)
qed (use nh_wfD(4)[OF assms(1)] in blast)

lemma avl_insert_spec:
  assumes r: "avl_rep ps s t" and t: "mgr_tree (mem s) mgr = root t" and ok: "mgr_ok mgr s" and room: "node_room ps s"
  obtains ps' q s' where "avl_insert mgr a n s = Some s'" "avl_rep ps' s' (ins q a n t)"
    "mgr_tree (mem s') mgr = root (ins q a n t)" "heap_grow mgr ps s ps' s'"
proof -
  from insert_node_rep[OF r room] obtain ps' q s1 where i: "insert_node (root t) a n s = Some (root (ins q a n t), s1)"
    "avl_rep ps' s1 (ins q a n t)" "insert_post ps s t a n ps' q s1" .
  let ?m = "st64 (mem s1) mgr (root (ins q a n t))"
  have g: "pages_grow ps s ps' s1" using i(3) by (simp add: insert_post_def)
  then have hg: "heap_grow mgr ps s ps' s1" by (auto simp: pages_grow_def heap_grow_def win_frame_def)
  have ok1: "mgr_ok mgr s1" by (rule heap_grow_mgr_ok[OF hg ok])
  have out: "\<forall>x. x \<notin> region mgr 8 \<longrightarrow> ?m x = mem s1 x" using m64.st_region by blast
  have sub: "x \<notin> region mgr 24 \<Longrightarrow> x \<notin> region mgr 8" for x by (simp add: region_def)
  have out24: "\<forall>x. x \<notin> region mgr 24 \<longrightarrow> ?m x = mem s1 x" using out sub by blast
  have low: "stack_low s1" using i(2) nh_wfD(3) by (auto simp: avl_rep_def)
  have "avl_insert mgr a n s = Some (s1\<lparr>mem := ?m\<rparr>)" using i(1) t by (simp add: avl_insert_def)
  moreover have "avl_rep ps' (s1\<lparr>mem := ?m\<rparr>) (ins q a n t)" by (rule quiet_rep[OF mgr_quiet[OF ok1 out24] i(2)])
  moreover have "mgr_tree (mem (s1\<lparr>mem := ?m\<rparr>)) mgr = root (ins q a n t)" by (simp add: mgr_tree_def)
  moreover have "heap_grow mgr ps s ps' (s1\<lparr>mem := ?m\<rparr>)"
    using hg out unfolding heap_grow_def quiet_write(1)[OF mgr_quiet[OF ok1 out24] low] by simp
  ultimately show thesis using that by blast
qed

lemma find_map_entry: "find P (map f xs) = map_option f (find (\<lambda>x. P (f x)) xs)"
  by (induction xs) auto

lemma tags_label: "(p, e) \<in> set (tags t) \<Longrightarrow> \<exists>x\<in>set_tree t. lp x = p \<and> entry_of x = e"
  by (auto simp: tags_map)

text \<open>Writing the size and the flag of a node of the tree.\<close>

lemma set_data_rep:
  assumes r: "avl_rep ps s t" and x: "x \<in> set_tree t" "lp x = p"
  fixes n :: u64 and c :: u8
  defines "s' \<equiv> s\<lparr>mem := set_allocated (set_page_count (mem s) p n) p c\<rparr>"
  shows "avl_rep ps s' (set_data p n c t)"
    "ranges (set_data p n c t) = map (\<lambda>e. if fst e = laddr x then (laddr x, n, c) else e) (ranges t)"
    "node_frame {p} (mem s) (mem s')" "p \<in> own ps (mem s)"
proof -
  have w: "nh_wf ps s" "tree_in (node_at (mem s)) t" "distinct (ptr_list t)" "ptrs t \<subseteq> own ps (mem s)" "ordered (ranges t)"
    using r by (auto simp: avl_rep_def)
  show p: "p \<in> own ps (mem s)" using tree_in_lp[OF w(2) x(1)] x(2) w(4) by blast
  show fr: "node_frame {p} (mem s) (mem s')" unfolding s'_def by (auto intro!: node_frame_store)
  show rg: "ranges (set_data p n c t) = map (\<lambda>e. if fst e = laddr x then (laddr x, n, c) else e) (ranges t)"
    by (rule ranges_set_data[OF w(5) x w(3)])
  note wn = nodes.write_nodes[OF w(1) fr] 
  have wf: "nh_wf ps s'" "own ps (mem s') = own ps (mem s)" using wn p by (auto simp: s'_def)
  note ap = nodes.apart_owned[OF w(1)]
  have "node_at (mem s') q = node_at (mem s) q" if "q \<in> ptrs t" "q \<noteq> p" for q
    using node_frame_at[OF fr apart_mono[OF ap], of q] that p w(4) by auto
  moreover have "node_at (mem s') p = (node_at (mem s) p)\<lparr>nd_page_count := n, nd_allocated := c\<rparr>"
    by (simp add: s'_def node_at_store_same)
  ultimately have "tree_in (node_at (mem s')) (set_data p n c t)" by (intro set_data_tree[OF w(2)]) auto
  moreover have "ordered (ranges (set_data p n c t))"
  proof -
    have "map fst (ranges (set_data p n c t)) = map fst (ranges t)" unfolding rg by auto
    then show ?thesis using w(5) by (simp add: ordered_def)
  qed
  ultimately show "avl_rep ps s' (set_data p n c t)" using r wf by (simp add: avl_rep_def)
qed

text \<open>The same for a manager that names the tree.\<close>

lemma set_data_vmm:
  assumes "avl_rep ps s t" "mgr_tree (mem s) mgr = root t" "mgr_ok mgr s" and x: "x \<in> set_tree t" "lp x = p"
    and t: "tiled (ranges (set_data p n c t))" and g: "heap_grow mgr ps0 s0 ps s"
  defines "s' \<equiv> s\<lparr>mem := set_allocated (set_page_count (mem s) p n) p c\<rparr>"
  shows "vmm_rep mgr ps s' (set_data p n c t)" "heap_grow mgr ps0 s0 ps s'"
proof -
  note d = set_data_rep(1,3)[OF assms(1) x, where n = n and c = c] set_data_rep(4)[OF assms(1) x]
  have wf: "nh_wf ps s" using assms(1) by (simp add: avl_rep_def)
  show "heap_grow mgr ps0 s0 ps s'" unfolding s'_def using heap_grow_write[OF g wf d(2)] d(3) by simp
  have "heap_grow mgr ps s ps s'" unfolding s'_def using heap_grow_write[OF heap_grow_refl wf d(2)] d(3) by simp
  then have ok: "mgr_ok mgr s'" by (rule heap_grow_mgr_ok[OF _ assms(3)])
  have "mgr_tree (mem s') mgr = mgr_tree (mem s) mgr"
    by (rule mgr_fields_cong(1)) (use node_frame_low[OF wf d(2)] d(3) mgr_region_low[OF assms(3)] in \<open>simp add: s'_def\<close>)
  moreover have "set_data p n c t \<noteq> Leaf" using x(1) by (cases t) simp_all
  ultimately show "vmm_rep mgr ps s' (set_data p n c t)"
    using d(1) assms(2) t ok unfolding vmm_rep_def s'_def by (simp only: root_set_data) blast
qed

lemma map_key:
  assumes "ordered (ys @ (b, e) # ws)"
  shows "map (\<lambda>e'. if fst e' = b then v else e') ys = ys" "map (\<lambda>e'. if fst e' = b then v else e') ws = ws"
proof -
  have "\<forall>e'\<in>set ys \<union> set ws. fst e' \<noteq> b" using assms by (auto simp: ordered_def sorted_wrt_append)
  then show "map (\<lambda>e'. if fst e' = b then v else e') ys = ys" "map (\<lambda>e'. if fst e' = b then v else e') ws = ws"
    by (intro map_idI; simp)+
qed

lemma upd_split:
  assumes "tiled (ys @ (b, c, 0) # ws)" "0 < n" "n < c"
  shows "map (\<lambda>e. if fst e = b then (b, n, 1) else e) (upd (b + n * 4096) (c - n) (ys @ (b, c, 0) # ws)) =
    ys @ split_range n (b, c, 0) @ ws"
proof -
  let ?b = "b + n * 4096"
  have o: "ordered (ys @ (b, c, 0) # ws)" by (rule tiled_ordered[OF assms(1)])
  have t: "range_last (b, c, 0) \<le> 2 ^ 64" "\<forall>e\<in>set ws. range_last (b, c, 0) \<le> unat (fst e)"
    using assms(1) by (auto simp: tiled_append tiled_Cons)
  have nc: "unat n < unat c" "0 < unat n" using assms(2,3) by (auto simp: word_less_nat_alt)
  have ub: "unat ?b = unat b + 4096 * unat n"
    using split_tiled(3)[of n c b] assms(2,3) t(1) by (simp add: range_last_def)
  have gt: "b < ?b" using ub nc by (simp add: word_less_nat_alt)
  have lt: "?b < fst e" if "e \<in> set ws" for e
    using t(2) that ub nc by (force simp: range_last_def word_less_nat_alt)
  have "upd ?b (c - n) ws = (?b, c - n, 0) # ws" using lt by (cases ws) auto
  then have "upd ?b (c - n) (ys @ (b, c, 0) # ws) = ys @ (b, c, 0) # (?b, c - n, 0) # ws"
    using gt less_not_sym[OF gt] less_imp_neq[OF gt] by (simp add: upd_append[OF o])
  then show ?thesis using assms(3) less_imp_neq[OF gt] by (simp add: split_range_def map_key[OF o])
qed

lemma alloc_virt_found:
  assumes v: "vmm_rep mgr ps s t" and room: "node_room ps s" and n: "0 < n"
    and f: "find (\<lambda>x. n \<le> lpages x \<and> lalloc x = 0) (rev (inorder t)) = Some x"
    and a: "alloc_range n (ranges t) = Some (laddr x, zs)"
  shows "\<exists>ps' s' t'. alloc_virt mgr n s = Some (laddr x, s') \<and> vmm_rep mgr ps' s' t' \<and> ranges t' = zs \<and> heap_grow mgr ps s ps' s'"
proof -
  let ?p = "lp x" and ?a = "laddr x" and ?c = "lpages x"
  have r: "avl_rep ps s t" "t \<noteq> Leaf" "mgr_tree (mem s) mgr = root t" "tiled (ranges t)" "mgr_ok mgr s"
    and tr: "tree_in (node_at (mem s)) t" using v by (auto simp: vmm_rep_def avl_rep_def)
  have x: "x \<in> set_tree t" "n \<le> ?c" "lalloc x = 0" using find_SomeD[OF f] by auto
  note nd = tree_in_lp[OF tr x(1)]
  have ms: "avl_min_size (mem s) (root t) n = Some ?p" using avl_min_size_tree[OF tr r(2), of n] f by simp
  have ex: "entry_of x \<in> set (ranges t)" "entry_of x = (?a, ?c, 0)" using x by (auto simp: ranges_def entry_of_def)
  from alloc_range_Some[OF r(4) a] obtain ys c ws where z: "ranges t = ys @ (?a, c, 0) # ws" "zs = ys @ split_range n (?a, c, 0) @ ws" by metis
  have "distinct (map fst (ranges t))" using tiled_ordered[OF r(4)] by (simp add: ordered_def strict_sorted_iff)
  then have c: "c = ?c" using eq_key_imp_eq_value[of "ranges t" ?a "(?c, 0)" "(c, 0)"] ex z(1) by simp
  have tz: "tiled zs" by (rule alloc_range_tiled[OF r(4) n a])
  have fin: "\<exists>ps' s' t'. alloc_virt mgr n s = Some (?a, s') \<and> vmm_rep mgr ps' s' t' \<and> ranges t' = zs \<and> heap_grow mgr ps s ps' s'"
    if h: "alloc_virt mgr n s = Some (?a, s1\<lparr>mem := set_allocated (set_page_count (mem s1) ?p n) ?p 1\<rparr>)"
      "avl_rep ps1 s1 t1" "mgr_tree (mem s1) mgr = root t1" "heap_grow mgr ps s ps1 s1" "y \<in> set_tree t1" "lp y = ?p"
      "map (\<lambda>e. if fst e = laddr y then (laddr y, n, 1) else e) (ranges t1) = zs" for ps1 s1 t1 y
  proof -
    have rg: "ranges (set_data ?p n 1 t1) = zs" using set_data_rep(2)[OF h(2,5,6), of n 1] h(7) by simp
    have "tiled (ranges (set_data ?p n 1 t1))" unfolding rg by (rule tz)
    from set_data_vmm[OF h(2,3) heap_grow_mgr_ok[OF h(4) r(5)] h(5,6) this h(4)] show ?thesis using h(1) rg by blast
  qed
  show ?thesis
  proof (cases "?c = n")
    case True
    note map_key[OF tiled_ordered[OF r(4), unfolded z(1)]]
    then show ?thesis using True nd ms r z c x by (intro fin[of s ps t x] heap_grow_refl) (auto simp: alloc_virt_def split_range_def)
  next
    case False
    then have lt: "n < ?c" using x(2) by simp
    let ?b = "?a + n * 4096"
    from avl_insert_spec[OF r(1,3,5) room, of ?b "?c - n"] obtain ps1 q s1 where
      i: "avl_insert mgr ?b (?c - n) s = Some s1" "avl_rep ps1 s1 (ins q ?b (?c - n) t)"
        "mgr_tree (mem s1) mgr = root (ins q ?b (?c - n) t)" "heap_grow mgr ps s ps1 s1" by metis
    have "?a \<noteq> ?b"
    proof
      assume "?a = ?b"
      moreover have "unat ?b = unat ?a + 4096 * unat n"
        using split_tiled(3)[OF n x(2), of ?a] lt r(4) by (auto simp: z(1) c tiled_append tiled_Cons range_last_def)
      ultimately show False using n by (simp add: word_less_nat_alt)
    qed
    moreover have "(?p, entry_of x) \<in> set (tags t)" using x(1) by (auto simp: tags_map)
    ultimately have "(?p, entry_of x) \<in> set (tags (ins q ?b (?c - n) t))" by (intro tags_ins) (auto simp: entry_of_def)
    from tags_label[OF this] obtain y where y: "y \<in> set_tree (ins q ?b (?c - n) t)" "lp y = ?p" "laddr y = ?a"
      by (auto simp: entry_of_def)
    have "alloc_virt mgr n s = Some (?a, s1\<lparr>mem := set_allocated (set_page_count (mem s1) ?p n) ?p 1\<rparr>)"
      using ms nd r(3) i(1) False by (simp add: alloc_virt_def Let_def)
    moreover have "map (\<lambda>e. if fst e = laddr y then (laddr y, n, 1) else e) (ranges (ins q ?b (?c - n) t)) = zs"
      unfolding y(3) ranges_ins[OF tiled_ordered[OF r(4)]] using upd_split[of ys ?a ?c ws n] n lt r(4) z c by simp
    ultimately show ?thesis by (rule fin[OF _ i(2-4) y(1,2)])
  qed
qed

text \<open>What \<open>alloc_virt\<close> does, for every state of a manager.\<close>

lemma alloc_virt_spec:
  assumes "vmm_rep mgr ps s t" "node_room ps s" "0 < n"
  shows "case alloc_range n (ranges t) of
      None \<Rightarrow> alloc_virt mgr n s = Some (0, s)
    | Some (a, xs) \<Rightarrow> \<exists>ps' s' t'. alloc_virt mgr n s = Some (a, s') \<and> vmm_rep mgr ps' s' t' \<and> ranges t' = xs \<and>
        heap_grow mgr ps s ps' s'"
proof -
  let ?P = "\<lambda>x. n \<le> lpages x \<and> lalloc x = 0"
  have f: "find (fits n) (rev (ranges t)) = map_option entry_of (find ?P (rev (inorder t)))"
  proof -
    have "fits n (entry_of x) = ?P x" for x by (simp add: fits_def entry_of_def)
    then show ?thesis by (simp add: ranges_def find_map_entry rev_map)
  qed
  show ?thesis
  proof (cases "find ?P (rev (inorder t))")
    case None
    have "avl_min_size (mem s) (mgr_tree (mem s) mgr) n = Some 0"
      using avl_min_size_tree[of "mem s" t n] assms(1) None by (simp add: vmm_rep_def avl_rep_def)
    then show ?thesis using None by (simp add: alloc_virt_def alloc_range_def f)
  next
    case (Some x)
    then obtain zs where "alloc_range n (ranges t) = Some (laddr x, zs)" by (simp add: alloc_range_def f entry_of_def)
    then show ?thesis using alloc_virt_found[OF assms Some] by simp
  qed
qed

end
