(* ===== verification/Mem_Space.thy ===== *)
theory Mem_Space
  imports Mem_Mgmt
begin

text \<open>
  An address space with its manager: the loops of \<open>malloc_pages\<close> and \<open>map_memory\<close>, the lock in a single
  thread, and the invariant that ties the page tables, the free pages, the tree and the manager
  together; the two functions keep it and do what they promise.
\<close>

section \<open>Mapping the pages of a range\<close>

lemma mod_add_cancel: "(c + i) mod m = (c + j) mod m \<longleftrightarrow> i mod m = (j mod m :: nat)"
proof -
  have "int ((c + i) mod m) = int ((c + j) mod m) \<longleftrightarrow> int (i mod m) = int (j mod m)"
    by (simp only: zmod_int of_nat_add mod_eq_dvd_iff) simp
  then show ?thesis by (simp only: of_nat_eq_iff)
qed

lemma same_page_step: "same_page (a + of_nat i * 0x1000) (a + of_nat j * 0x1000) \<longleftrightarrow> i mod 2 ^ 36 = j mod 2 ^ 36"
proof -
  have p: "unat ((v AND MASK_REMOVE_16U) div 0x1000) = unat v div 4096 mod 2 ^ 36" for v :: u64
  proof -
    have "unat (v AND MASK_REMOVE_16U) = unat v mod 2 ^ 48" by (simp add: mask16_take unsigned_take_bit_eq take_bit_nat_def)
    then have "unat ((v AND MASK_REMOVE_16U) div 0x1000) = unat v mod (4096 * 2 ^ 36) div 4096" by (simp add: unat_div)
    then show ?thesis by (simp only: mod_mult2_eq)
  qed
  have u: "unat (a + of_nat k * 0x1000) div 4096 mod 2 ^ 36 = (unat a div 4096 + k) mod 2 ^ 36" for k
  proof -
    have e: "a + of_nat k * 0x1000 = of_nat (unat a + 4096 * k)" by simp
    have "unat (a + of_nat k * 0x1000) = (unat a + 4096 * k) mod (4096 * 2 ^ 52)"
      unfolding e by (simp only: unat_of_nat) simp
    then have "unat (a + of_nat k * 0x1000) div 4096 = (unat a div 4096 + k) mod 2 ^ 52"
      by (simp only: mod_mult2_eq) (simp add: add.commute)
    moreover have "x mod 2 ^ 52 mod 2 ^ 36 = x mod 2 ^ 36" for x :: nat by (rule mod_mod_cancel) (simp add: le_imp_power_dvd)
    ultimately show ?thesis by simp
  qed
  have "same_page (a + of_nat i * 0x1000) (a + of_nat j * 0x1000) \<longleftrightarrow> (unat a div 4096 + i) mod 2 ^ 36 = (unat a div 4096 + j) mod 2 ^ 36"
    unfolding same_page_def word_unat_eq_iff p u ..
  also have "\<dots> \<longleftrightarrow> i mod 2 ^ 36 = j mod 2 ^ 36"
    by (rule mod_add_cancel)
  finally show ?thesis .
qed

text \<open>The pages \<open>L\<close> are mapped at the pages from \<open>addr\<close> on, and all other translations are as before.\<close>

definition mapped :: "u64 \<Rightarrow> u64 \<Rightarrow> u64 list \<Rightarrow> memory \<Rightarrow> memory \<Rightarrow> bool" where
  "mapped r addr L m m' \<longleftrightarrow>
     (\<forall>i<length L. \<forall>w. same_page (addr + of_nat i * 0x1000) w \<longrightarrow>
        page_walk m' r w = Some ((L ! i AND MASK_REMOVE_12L) + w mod 4096)) \<and>
     (\<forall>w. (\<forall>i<length L. \<not> same_page (addr + of_nat i * 0x1000) w) \<longrightarrow> page_walk m' r w = page_walk m r w)"

lemma same_page_trans: "same_page u v \<Longrightarrow> same_page u w \<Longrightarrow> same_page v w"
  by (simp add: same_page_def)

lemma mapped_snoc:
  assumes "mapped r addr L m m1" "length L < 2 ^ 36"
    "\<And>w. page_walk m2 r w = (if same_page (addr + of_nat (length L) * 0x1000) w
       then Some ((p AND MASK_REMOVE_12L) + w mod 4096) else page_walk m1 r w)"
  shows "mapped r addr (L @ [p]) m m2"
proof -
  let ?v = "\<lambda>i. addr + of_nat i * 0x1000"
  have "\<not> same_page (?v (length L)) w" if "i < length L" "same_page (?v i) w" for i w
    using that assms(2) same_page_step[of addr "length L" i] by (auto simp: same_page_def)
  then show ?thesis using assms(1,3) unfolding mapped_def by (auto simp: nth_append less_Suc_eq)
qed

lemma vm_frame_low:
  assumes "vm_frame r k s s'" "vm_wf r s" "unat x < 2 ^ 64 - 2 ^ 46"
  shows "mem s' x = mem s x"
proof (rule win_frame_low[OF _ _ assms(3)])
  show "win_frame (tables (mem s) r \<union> set (pmm_stack s)) (mem s) (mem s')" using assms(1) by (simp add: vm_frame_def)
  show "\<forall>q\<in>tables (mem s) r \<union> set (pmm_stack s). phys_ok q"
    using assms(2) tables_phys pt_wfD(3) by (auto simp: vm_wf_def)
qed

lemma vm_frame_mgr:
  assumes "vm_frame r k s s'" "vm_wf r s" "mgr_ok mgr s"
  shows "mgr_tree (mem s') mgr = mgr_tree (mem s) mgr" "mgr_pml4t (mem s') mgr = mgr_pml4t (mem s) mgr"
    "mgr_lock (mem s') mgr = mgr_lock (mem s) mgr"
  by (rule mgr_fields_cong; use vm_frame_low[OF assms(1,2)] mgr_region_low[OF assms(3)] in blast)+

lemma vm_frame_stack:
  "vm_frame r k s s' \<Longrightarrow> length (pmm_stack s) \<le> length (pmm_stack s') + k"
  "vm_frame r k s s' \<Longrightarrow> length (pmm_stack s') \<le> length (pmm_stack s)"
  by (auto simp: vm_frame_def simp del: length_pmm_stack)

lemma vm_frame_mgr_ok:
  assumes "vm_frame r k s s'" "mgr_ok mgr s"
  shows "mgr_ok mgr s'"
proof (rule mgr_ok_less[OF assms(2)])
  show "g_free_index s' \<le> g_free_index s" using vm_frame_stack(2)[OF assms(1)] by (simp add: word_le_nat_alt)
  have "s' = s\<lparr>mem := mem s', g_free_index := g_free_index s'\<rparr>" using assms(1) by (simp add: vm_frame_def)
  then show "g_free_pages s' = g_free_pages s" by (metis pmm.select_convs(1) pmm.surjective pmm.update_convs(2) machine.update_convs(1) pmm.simps)
qed

lemma alloc_wf:
  assumes "vm_wf r s" "pmm_stack s \<noteq> []"
  shows "vm_wf r (snd (pmm_alloc_page s))"
proof -
  note a = pmm_stack_alloc[OF assms(2)]
  have s: "mem (snd (pmm_alloc_page s)) = mem s" "g_free_pages (snd (pmm_alloc_page s)) = g_free_pages s"
    "g_free_index (snd (pmm_alloc_page s)) = g_free_index s - 1" unfolding a(1) by simp_all
  have w: "pt_wf (mem s) r (set (pmm_stack s))" "distinct (pmm_stack s)" "stack_low s" using assms(1) by (auto simp: vm_wf_def)
  have "stack_low (snd (pmm_alloc_page s))"
    using w(3) assms(2) by (simp add: stack_low_def s pmm_stack_empty_iff unat_minus_one)
  moreover have "pt_wf (mem s) r (set (butlast (pmm_stack s)))"
    by (rule pt_wf_cong[OF w(1)]) (use pt_wfD(3,4)[OF w(1)] tables_phys[OF w(1)] in \<open>auto dest: in_set_butlastD\<close>)
  ultimately show ?thesis unfolding vm_wf_def a(2) s(1) using w(2) by (simp add: distinct_butlast)
qed

text \<open>The state after a loop that maps pages.\<close>

definition mapped_state :: "u64 \<Rightarrow> u64 \<Rightarrow> u64 list \<Rightarrow> nat \<Rightarrow> 'z pmm_scheme \<Rightarrow> 'z pmm_scheme \<Rightarrow> bool" where
  "mapped_state r addr L k s s' \<longleftrightarrow> mapped r addr L (mem s) (mem s') \<and> vm_wf r s' \<and> vm_frame r k s s' \<and>
     (\<forall>v. no_huge (mem s) r v \<longrightarrow> no_huge (mem s') r v)"

lemma mapped_state_Nil: "vm_wf r s \<Longrightarrow> mapped_state r addr [] 0 s s"
  by (simp add: mapped_state_def mapped_def vm_frame_refl)

text \<open>One more page, after a step to \<open>s2\<close> that leaves the memory alone.\<close>

lemma mapped_state_snoc:
  assumes "mapped_state r addr L k s s1" "vm_frame r l s1 s2" "mem s2 = mem s1" "vm_wf r s2"
    "no_huge (mem s) r (addr + of_nat (length L) * 0x1000)" "3 \<le> length (pmm_stack s2)" "pf_present fl" "length L < 2 ^ 36"
  shows "mapped_state r addr (L @ [p]) (k + l + 3) s (set_page r (addr + of_nat (length L) * 0x1000) p fl s2)"
proof -
  let ?v = "addr + of_nat (length L) * 0x1000"
  have a: "mapped r addr L (mem s) (mem s1)" "vm_frame r k s s1" "\<forall>v. no_huge (mem s) r v \<longrightarrow> no_huge (mem s1) r v"
    using assms(1) by (auto simp: mapped_state_def)
  have nh: "no_huge (mem s2) r ?v" using a(3) assms(3,5) by simp
  note sp = set_page_spec[OF assms(4) nh disjI2[OF assms(6)], where p = p and fl = fl]
    and fr = set_page_frame[OF assms(4) nh disjI2[OF assms(6)], where p = p and fl = fl]
  have "mapped r addr (L @ [p]) (mem s) (mem (set_page r ?v p fl s2))"
    by (rule mapped_snoc[OF a(1) assms(8)]) (use sp(5) assms(3,7) in simp)
  moreover have "vm_frame r (k + l + 3) s (set_page r ?v p fl s2)"
    by (rule vm_frame_trans[OF vm_frame_trans[OF a(2) assms(2)] fr(1)])
  ultimately show ?thesis using sp(1) fr(2) a(3) assms(3) by (simp add: mapped_state_def)
qed

text \<open>The pages \<open>L\<close> were taken from the free stack and are neither free nor tables.\<close>

definition taken :: "u64 \<Rightarrow> u64 list \<Rightarrow> 'z pmm_scheme \<Rightarrow> 'z pmm_scheme \<Rightarrow> bool" where
  "taken r L s s' \<longleftrightarrow> distinct L \<and> set L \<subseteq> set (pmm_stack s) \<and> set L \<inter> (set (pmm_stack s') \<union> tables (mem s') r) = {}"

lemma taken_snoc:
  assumes t: "taken r L s s1" and s1: "pmm_stack s1 = F1 @ F2 @ [p]" "distinct (pmm_stack s1)" "set (pmm_stack s1) \<subseteq> set (pmm_stack s)"
    "set (pmm_stack s1) \<inter> tables (mem s1) r = {}" and s3: "pmm_stack s3 = F1" "tables (mem s3) r \<subseteq> tables (mem s1) r \<union> set F2"
  shows "taken r (L @ [p]) s s3"
  using assms unfolding taken_def by auto

lemma malloc_loop:
  assumes wf: "vm_wf r s" and mgr: "mgr_ok mgr s" "mgr_pml4t (mem s) mgr = r" and fl: "pf_present fl"
  shows "\<forall>i<k. no_huge (mem s) r (addr + of_nat i * 0x1000) \<Longrightarrow> 4 * k \<le> length (pmm_stack s) \<Longrightarrow> k \<le> 2 ^ 36 \<Longrightarrow>
    \<exists>L. length L = k \<and> mapped_state r addr L (4 * k) s (fold (malloc_page mgr addr fl) [0..<k] s) \<and>
      taken r L s (fold (malloc_page mgr addr fl) [0..<k] s)"
proof (induction k)
  case 0
  show ?case using mapped_state_Nil[OF wf] by (intro exI[of _ "[]"]) (simp add: taken_def)
next
  case (Suc k)
  let ?s1 = "fold (malloc_page mgr addr fl) [0..<k] s"
  obtain L where L: "length L = k" "mapped_state r addr L (4 * k) s ?s1" "taken r L s ?s1"
    using Suc by (auto simp del: length_pmm_stack)
  have f1: "vm_frame r (4 * k) s ?s1" "vm_wf r ?s1" using L(2) by (auto simp: mapped_state_def)
  have len: "4 \<le> length (pmm_stack ?s1)" using vm_frame_stack(1)[OF f1(1)] Suc.prems(2) by (simp del: length_pmm_stack)
  then have ne: "pmm_stack ?s1 \<noteq> []" by (auto simp del: length_pmm_stack)
  let ?p = "last (pmm_stack ?s1)" and ?s2 = "snd (pmm_alloc_page ?s1)"
  note al = pmm_stack_alloc[OF ne]
  have m2: "mem ?s2 = mem ?s1" unfolding al(1) by simp
  have len2: "3 \<le> length (pmm_stack ?s2)" unfolding al(2) using len by (simp del: length_pmm_stack)
  note w2 = alloc_wf[OF f1(2) ne] and f2 = vm_frame_alloc[OF ne, of r]
  let ?s3 = "set_page r (addr + of_nat k * 0x1000) ?p fl ?s2"
  have "mgr_pml4t (mem ?s2) mgr = r" unfolding m2 using vm_frame_mgr(2)[OF f1(1) wf mgr(1)] mgr(2) by simp
  then have s3: "fold (malloc_page mgr addr fl) [0..<Suc k] s = ?s3"
    unfolding upt_Suc_append[OF le0] fold_append by (simp add: malloc_page_def split_beta al(1))
  have st: "mapped_state r addr (L @ [?p]) (4 * Suc k) s ?s3"
    using mapped_state_snoc[OF L(2) f2 m2 w2 _ len2 fl, of ?p] L(1) Suc.prems(1,3) by (simp add: ac_simps)
  have nh2: "no_huge (mem ?s2) r (addr + of_nat k * 0x1000)" using L(2) Suc.prems(1) by (simp add: m2 mapped_state_def)
  from set_page_frame(1)[OF w2 nh2 disjI2[OF len2], of ?p fl] obtain F where
    F: "pmm_stack ?s2 = pmm_stack ?s3 @ F" "tables (mem ?s3) r \<subseteq> tables (mem ?s2) r \<union> set F" by (auto simp: vm_frame_def)
  have d1: "distinct (pmm_stack ?s1)" "pt_wf (mem ?s1) r (set (pmm_stack ?s1))" using f1(2) by (auto simp: vm_wf_def)
  have "pmm_stack ?s1 = pmm_stack ?s3 @ F @ [?p]" using F(1) al(2) append_butlast_last_id[OF ne] by simp
  moreover have "set (pmm_stack ?s1) \<subseteq> set (pmm_stack s)" using f1(1) by (auto simp: vm_frame_def)
  moreover have "set (pmm_stack ?s1) \<inter> tables (mem ?s1) r = {}" using tables_phys[OF d1(2)] by blast
  ultimately have "taken r (L @ [?p]) s ?s3" by (intro taken_snoc[OF L(3) _ d1(1) _ _ refl F(2)[unfolded m2]])
  then show ?case using st L(1) unfolding s3 by (intro exI[of _ "L @ [?p]"]) simp
qed

lemma map_loop:
  assumes wf: "vm_wf r s" and mgr: "mgr_ok mgr s" "mgr_pml4t (mem s) mgr = r" and fl: "pf_present fl"
  shows "\<forall>i<k. no_huge (mem s) r (addr + of_nat i * 0x1000) \<Longrightarrow> 3 * k \<le> length (pmm_stack s) \<Longrightarrow> k \<le> 2 ^ 36 \<Longrightarrow>
    mapped_state r addr (map (\<lambda>i. paddr + of_nat i * 0x1000) [0..<k]) (3 * k) s (fold (map_page mgr addr paddr fl) [0..<k] s)"
proof (induction k)
  case 0
  show ?case using mapped_state_Nil[OF wf] by simp
next
  case (Suc k)
  let ?s1 = "fold (map_page mgr addr paddr fl) [0..<k] s" and ?L = "map (\<lambda>i. paddr + of_nat i * 0x1000) [0..<k]"
  have L: "mapped_state r addr ?L (3 * k) s ?s1" using Suc by (simp del: length_pmm_stack)
  then have f1: "vm_frame r (3 * k) s ?s1" "vm_wf r ?s1" by (auto simp: mapped_state_def)
  have len: "3 \<le> length (pmm_stack ?s1)" using vm_frame_stack(1)[OF f1(1)] Suc.prems(2) by (simp del: length_pmm_stack)
  have "mgr_pml4t (mem ?s1) mgr = r" using vm_frame_mgr(2)[OF f1(1) wf mgr(1)] mgr(2) by simp
  then have "fold (map_page mgr addr paddr fl) [0..<Suc k] s = set_page r (addr + of_nat k * 0x1000) (paddr + of_nat k * 0x1000) fl ?s1"
    unfolding upt_Suc_append[OF le0] fold_append by (simp add: map_page_def)
  then show ?case
    using mapped_state_snoc[OF L vm_frame_refl[of r 0] refl f1(2) _ len fl, of "paddr + of_nat k * 0x1000"] Suc.prems(1,3)
    by (simp add: ac_simps)
qed

section \<open>The lock\<close>

lemma lock_free:
  assumes "mgr_lock (mem s) mgr = 0"
  shows "lock_mgr mgr s = Some (s\<lparr>mem := st8 (mem s) (mgr + 16) 1\<rparr>)"
  using assms by (subst lock_mgr.simps) simp

lemma mgr_lock_st [simp]: "mgr_lock (st8 m (mgr + 16) v) mgr = v" by (simp add: mgr_lock_def)

lemma lock_returns: "lock_mgr mgr s = Some s' \<Longrightarrow> mgr_lock (mem s) mgr = 0"
proof (rule lock_mgr.raw_induct[where P = "\<lambda>mgr s _. mgr_lock (mem s) mgr = 0"])
  fix f and mgr and s s' :: "'a machine_scheme"
  assume IH: "\<And>mgr s s'. f mgr s = Some s' \<Longrightarrow> mgr_lock (mem s) mgr = 0"
    and b: "(let tmp = mgr_lock (mem s) mgr; s = s\<lparr>mem := st8 (mem s) (mgr + 16) 1\<rparr>
       in if tmp \<noteq> 0 then f mgr s else Some s) = Some s'"
  have "f mgr (s\<lparr>mem := st8 (mem s) (mgr + 16) 1\<rparr>) = Some s'" if "mgr_lock (mem s) mgr \<noteq> 0"
    using b that by (simp add: Let_def)
  from IH[OF this] show "mgr_lock (mem s) mgr = 0" by auto
qed

lemma lock_held: "mgr_lock (mem s) mgr \<noteq> 0 \<Longrightarrow> lock_mgr mgr s = None"
  using lock_returns[of mgr s] by (cases "lock_mgr mgr s") auto

section \<open>An address space with its manager\<close>

text \<open>The tables, the free pages and the node pages are different pages, and the manager names the tables.\<close>

definition space_rep :: "u64 \<Rightarrow> u64 \<Rightarrow> u64 list \<Rightarrow> 'z node_heap_scheme \<Rightarrow> avl \<Rightarrow> bool" where
  "space_rep r mgr ps s t \<longleftrightarrow> vmm_rep mgr ps s t \<and> vm_wf r s \<and> mgr_pml4t (mem s) mgr = r \<and> tables (mem s) r \<inter> set ps = {}"

lemma phys_count:
  assumes "distinct xs" "\<And>p. p \<in> set xs \<Longrightarrow> phys_ok p"
  shows "length xs \<le> 2 ^ 34"
proof -
  have "inj_on (\<lambda>p. unat p div 4096) (set xs)"
  proof (rule inj_onI)
    fix p q assume "p \<in> set xs" "q \<in> set xs" and e: "unat p div 4096 = unat q div 4096"
    then have "unat p mod 4096 = 0" "unat q mod 4096 = 0" using assms(2) by (auto simp: phys_ok_def aligned_unat)
    then have "unat p = unat q" using e by (metis div_mult_mod_eq)
    then show "p = q" by (simp add: word_unat_eq_iff)
  qed
  moreover have "(\<lambda>p. unat p div 4096) ` set xs \<subseteq> {..<2 ^ 34}"
    using assms(2) by (auto simp: phys_ok_def word_less_nat_alt less_mult_imp_div_less)
  ultimately have "card (set xs) \<le> card {..<2 ^ 34 :: nat}" by (rule card_inj_on_le) simp
  then show ?thesis using assms(1) by (simp add: distinct_card)
qed

lemma quiet_vm:
  assumes "quiet s m" "vm_wf r s"
  shows "vm_wf r (s\<lparr>mem := m\<rparr>)" "page_walk m r v = page_walk (mem s) r v" "no_huge m r v = no_huge (mem s) r v"
    "tables m r = tables (mem s) r" "pmm_stack (s\<lparr>mem := m\<rparr>) = pmm_stack s"
proof -
  have w: "pt_wf (mem s) r (set (pmm_stack s))" "distinct (pmm_stack s)" "stack_low s" using assms(2) by (auto simp: vm_wf_def)
  note c = quiet_write[OF assms(1) w(3)]
  have t: "pte m u i = pte (mem s) u i" if "u \<in> tables (mem s) r" "i < 512" for u i
    using c(3)[of u i] tables_phys[OF w(1)] that by blast
  have "pt_wf m r (set (pmm_stack s))" by (rule pt_wf_cong[OF w(1) t]) (use c(3) pt_wfD(3,4)[OF w(1)] tables_phys[OF w(1)] in auto)
  then show "vm_wf r (s\<lparr>mem := m\<rparr>)" using w by (simp add: vm_wf_def c(1) stack_low_def)
  show "page_walk m r v = page_walk (mem s) r v" "no_huge m r v = no_huge (mem s) r v" "tables m r = tables (mem s) r"
    using tables_cong(1,3,4)[OF t] by simp_all
  show "pmm_stack (s\<lparr>mem := m\<rparr>) = pmm_stack s" by (rule c(1))
qed

lemma quiet_space:
  assumes "mgr_ok mgr s" "quiet s m" "avl_rep ps s t" "vm_wf r s" "tables (mem s) r \<inter> set ps = {}"
    "t \<noteq> Leaf" "tiled (ranges t)" "mgr_tree m mgr = root t" "mgr_pml4t m mgr = r"
  shows "space_rep r mgr ps (s\<lparr>mem := m\<rparr>) t"
  using assms quiet_rep[OF assms(2,3)] quiet_vm[OF assms(2,4)]
  by (simp add: space_rep_def vmm_rep_def mgr_ok_def)

lemma quiet_space_rep:
  assumes s: "space_rep r mgr ps s t" and q: "quiet s m" and o: "\<And>x. x \<in> region mgr 24 \<Longrightarrow> m x = mem s x"
  shows "space_rep r mgr ps (s\<lparr>mem := m\<rparr>) t" "mgr_lock m mgr = mgr_lock (mem s) mgr"
    "pmm_stack (s\<lparr>mem := m\<rparr>) = pmm_stack s" "no_huge m r v = no_huge (mem s) r v" "page_walk m r v = page_walk (mem s) r v"
proof -
  have d: "mgr_ok mgr s" "avl_rep ps s t" "vm_wf r s" "tables (mem s) r \<inter> set ps = {}" "t \<noteq> Leaf" "tiled (ranges t)"
    "mgr_tree (mem s) mgr = root t" "mgr_pml4t (mem s) mgr = r" using s by (auto simp: space_rep_def vmm_rep_def)
  note f = mgr_fields_cong[of mgr m "mem s", OF o]
  show "space_rep r mgr ps (s\<lparr>mem := m\<rparr>) t" by (rule quiet_space[OF d(1) q d(2-6)]) (use f d(7,8) in simp_all)
  show "mgr_lock m mgr = mgr_lock (mem s) mgr" by (rule f(3))
  show "pmm_stack (s\<lparr>mem := m\<rparr>) = pmm_stack s" "no_huge m r v = no_huge (mem s) r v" "page_walk m r v = page_walk (mem s) r v"
    using quiet_vm[OF q d(3)] by simp_all
qed

lemma lock_space:
  assumes "space_rep r mgr ps s t"
  shows "space_rep r mgr ps (s\<lparr>mem := st8 (mem s) (mgr + 16) v\<rparr>) t"
    "page_walk (st8 (mem s) (mgr + 16) v) r w = page_walk (mem s) r w" "no_huge (st8 (mem s) (mgr + 16) v) r w = no_huge (mem s) r w"
    "pmm_stack (s\<lparr>mem := st8 (mem s) (mgr + 16) v\<rparr>) = pmm_stack s"
    "tables (st8 (mem s) (mgr + 16) v) r = tables (mem s) r"
proof -
  let ?m = "st8 (mem s) (mgr + 16) v"
  have s: "mgr_ok mgr s" "avl_rep ps s t" "vm_wf r s" "tables (mem s) r \<inter> set ps = {}" "t \<noteq> Leaf" "tiled (ranges t)"
    "mgr_tree (mem s) mgr = root t" "mgr_pml4t (mem s) mgr = r" using assms by (auto simp: space_rep_def vmm_rep_def)
  have "region (mgr + of_nat 16) 1 \<subseteq> region mgr 24" by (rule region_sub) simp_all
  then have out: "\<forall>x. x \<notin> region mgr 24 \<longrightarrow> ?m x = mem s x" using m8.st_region[of _ "mgr + 16"] by auto
  have f: "mgr_tree ?m mgr = root t" "mgr_pml4t ?m mgr = r" using s(7,8) by (simp_all add: mgr_tree_def mgr_pml4t_def ld_sep sep_def)
  show "space_rep r mgr ps (s\<lparr>mem := ?m\<rparr>) t" by (rule quiet_space[OF s(1) mgr_quiet[OF s(1) out] s(2-6) f])
  show "page_walk ?m r w = page_walk (mem s) r w" "no_huge ?m r w = no_huge (mem s) r w"
    "pmm_stack (s\<lparr>mem := ?m\<rparr>) = pmm_stack s" "tables ?m r = tables (mem s) r" by (rule quiet_vm[OF mgr_quiet[OF s(1) out] s(3)])+
qed

lemma heap_grow_vm:
  assumes s: "space_rep r mgr ps s t" and g: "heap_grow mgr ps s ps' s'" and v: "vmm_rep mgr ps' s' t'"
    and f: "mgr_pml4t (mem s') mgr = mgr_pml4t (mem s) mgr"
  shows "space_rep r mgr ps' s' t'" "page_walk (mem s') r w = page_walk (mem s) r w" "no_huge (mem s') r w = no_huge (mem s) r w"
proof -
  have ok: "mgr_ok mgr s" and wf: "nh_wf ps s" and tp: "tables (mem s) r \<inter> set ps = {}"
    and w: "pt_wf (mem s) r (set (pmm_stack s))" "distinct (pmm_stack s)" "stack_low s"
    using s by (auto simp: space_rep_def vmm_rep_def avl_rep_def vm_wf_def)
  have wf': "nh_wf ps' s'" using v by (simp add: vmm_rep_def avl_rep_def)
  note n' = nh_wfD[OF wf']
  have "pmm_stack s \<noteq> [] \<Longrightarrow> last (pmm_stack s) \<notin> tables (mem s) r" using tables_phys[OF w(1)] last_in_set by blast
  then have tp': "tables (mem s) r \<inter> set ps' = {}" and st: "set (pmm_stack s') \<subseteq> set (pmm_stack s)"
    using g tp unfolding heap_grow_def by (auto dest: in_set_butlastD)
  have t: "pte (mem s') u i = pte (mem s) u i" if u: "u \<in> tables (mem s) r" "i < 512" for u i
  proof (rule pte_cong)
    fix x assume "x \<in> region (entry_addr u i) 8"
    then have x: "x \<in> region (u + PHYSICAL_MAP_OFFSET) 4096"
      using entry_region[of i 4096 u] u(2) by (auto simp: word_less_nat_alt)
    have uok: "phys_ok u" using tables_phys[OF w(1) u(1)] by simp
    have "x \<notin> region mgr 24" using window_high[OF uok x] mgr_region_low[OF ok] by fastforce
    then have "x \<notin> region mgr 8" by (simp add: region_def)
    moreover have "x \<notin> region (p + PHYSICAL_MAP_OFFSET) 4096" if "p \<in> set ps'" for p
      using window_disjoint[OF uok _ _ x, of p] n'(4)[OF that] tp' u(1) that by blast
    ultimately show "mem s' x = mem s x" using g by (simp add: heap_grow_def)
  qed
  have "pt_wf (mem s') r (set (pmm_stack s'))"
    by (rule pt_wf_cong[OF w(1) t]) (use n'(5,6) st tables_phys[OF w(1)] in auto)
  then have "vm_wf r s'" using n'(2,3) by (simp add: vm_wf_def)
  then show "space_rep r mgr ps' s' t'" using v f s tp' tables_cong(1)[OF t] by (simp add: space_rep_def)
  show "page_walk (mem s') r w = page_walk (mem s) r w" "no_huge (mem s') r w = no_huge (mem s) r w" using tables_cong(3,4)[OF t] by simp_all
qed

lemma space_frame:
  assumes s: "space_rep r mgr ps s t" and f: "vm_frame r k s s'" and w': "vm_wf r s'"
  shows "space_rep r mgr ps s' t"
proof -
  have ok: "mgr_ok mgr s" and rep: "avl_rep ps s t" and wf: "nh_wf ps s" and vm: "vm_wf r s" and tp: "tables (mem s) r \<inter> set ps = {}"
    using s by (auto simp: space_rep_def vmm_rep_def avl_rep_def)
  note n = nh_wfD[OF wf]
  obtain F where F: "pmm_stack s = pmm_stack s' @ F" "tables (mem s') r \<subseteq> tables (mem s) r \<union> set F"
    and fr: "win_frame (tables (mem s) r \<union> set (pmm_stack s)) (mem s) (mem s')"
    and e: "s' = s\<lparr>mem := mem s', g_free_index := g_free_index s'\<rparr>" using f by (auto simp: vm_frame_def)
  have q: "phys_ok q \<and> q \<notin> set ps" if "q \<in> tables (mem s) r \<union> set (pmm_stack s)" for q
    using that tp tables_phys[of "mem s" r _ q] vm n(2,5) by (auto simp: vm_wf_def)
  have "mem s' x = mem s x" if "p \<in> set ps" "x \<in> region (p + PHYSICAL_MAP_OFFSET) 4096" for p x
  proof -
    have "x \<notin> region (q + PHYSICAL_MAP_OFFSET) 4096" if "q \<in> tables (mem s) r \<union> set (pmm_stack s)" for q
      using window_disjoint[OF _ _ _ \<open>x \<in> region (p + PHYSICAL_MAP_OFFSET) 4096\<close>, of q] q[OF that] n(4)[OF \<open>p \<in> set ps\<close>] \<open>p \<in> set ps\<close> by blast
    then show ?thesis using fr by (simp add: win_frame_def)
  qed
  then have "avl_rep ps s' t"
  proof (intro avl_rep_cong[OF rep])
    show "g_node_list_head s' = g_node_list_head s" by (subst e) simp
    show "\<forall>p\<in>set (pmm_stack s'). phys_ok p \<and> (\<forall>i<512. pte (mem s') p i = 0)" using w' pt_wfD(3,4) by (auto simp: vm_wf_def)
    show "distinct (ps @ pmm_stack s')" using n(2) by (auto simp: F(1))
  qed (use w' in \<open>auto simp: vm_wf_def\<close>)
  moreover have "tables (mem s') r \<inter> set ps = {}" using F q by auto
  ultimately show ?thesis
    using s w' vm_frame_mgr[OF f vm ok] vm_frame_mgr_ok[OF f ok] by (simp add: space_rep_def vmm_rep_def)
qed

section \<open>Allocating and mapping a range\<close>

lemma heap_grow_low:
  assumes "heap_grow mgr ps s ps' s'" "nh_wf ps' s'" "mgr_ok mgr s"
  shows "mgr_pml4t (mem s') mgr = mgr_pml4t (mem s) mgr" "mgr_lock (mem s') mgr = mgr_lock (mem s) mgr"
proof -
  have same: "mem s' x = mem s x" if x: "x \<in> region mgr 24" "x \<notin> region mgr 8" for x
  proof -
    have "x \<notin> region (p + PHYSICAL_MAP_OFFSET) 4096" if "p \<in> set ps'" for p
      using window_high[of p x] nh_wfD(4)[OF assms(2) that] mgr_region_low[OF assms(3) x(1)] by fastforce
    then show ?thesis using assms(1) x(2) by (simp add: heap_grow_def)
  qed
  have off: "mgr + of_nat k \<in> region mgr 24 \<and> mgr + of_nat k \<notin> region mgr 8" if "8 \<le> k" "k < 24" for k
    using that by (simp add: region_def unat_of_nat)
  show "mgr_pml4t (mem s') mgr = mgr_pml4t (mem s) mgr" unfolding mgr_pml4t_def
  proof (rule m64.ld_local)
    fix i assume "i < (8::nat)"
    then show "mem s' (mgr + 8 + of_nat i) = mem s (mgr + 8 + of_nat i)"
      using same off[of "8 + i"] by (simp add: add.assoc)
  qed
  show "mgr_lock (mem s') mgr = mgr_lock (mem s) mgr" unfolding mgr_lock_def
  proof (rule m8.ld_local)
    fix i assume "i < (1::nat)"
    then show "mem s' (mgr + 16 + of_nat i) = mem s (mgr + 16 + of_nat i)" using same off[of 16] by simp
  qed
qed

text \<open>Below the window of the direct map only the manager itself is written; the page stack stays in place.\<close>

definition low_frame :: "u64 \<Rightarrow> 'z pmm_scheme \<Rightarrow> 'z pmm_scheme \<Rightarrow> bool" where
  "low_frame mgr s s' \<longleftrightarrow> g_free_pages s' = g_free_pages s \<and> g_free_index s' \<le> g_free_index s \<and>
     (\<forall>x. unat x < 2 ^ 64 - 2 ^ 46 \<and> x \<notin> region mgr 24 \<longrightarrow> mem s' x = mem s x)"

lemma low_frame_trans: "low_frame mgr s s' \<Longrightarrow> low_frame mgr s' s'' \<Longrightarrow> low_frame mgr s s''" by (auto simp: low_frame_def)

lemma low_frame_lock: "low_frame mgr s (s\<lparr>mem := st8 (mem s) (mgr + 16) v\<rparr>)"
  using region_sub[of 16 1 24 mgr] by (auto simp: low_frame_def intro!: m8.st_region)

lemma low_frame_vm:
  assumes "vm_frame r k s s'" "vm_wf r s"
  shows "low_frame mgr s s'"
proof -
  obtain F where "pmm_stack s = pmm_stack s' @ F" using assms(1) by (auto simp: vm_frame_def)
  from arg_cong[OF this, of length] have "g_free_index s' \<le> g_free_index s" by (simp add: word_le_nat_alt)
  moreover have "s' = s\<lparr>mem := mem s', g_free_index := g_free_index s'\<rparr>" using assms(1) by (simp add: vm_frame_def)
  from arg_cong[OF this, of g_free_pages] have "g_free_pages s' = g_free_pages s" by simp
  ultimately show ?thesis using vm_frame_low[OF assms] by (simp add: low_frame_def)
qed

lemma low_frame_grow:
  assumes "heap_grow mgr ps s ps' s'" "nh_wf ps' s'"
  shows "low_frame mgr s s'"
proof -
  have "mem s' x = mem s x" if x: "unat x < 2 ^ 64 - 2 ^ 46" "x \<notin> region mgr 24" for x
  proof -
    have "x \<notin> region (p + PHYSICAL_MAP_OFFSET) 4096" if "p \<in> set ps'" for p
      using window_high[of p x] nh_wfD(4)[OF assms(2) that] x by fastforce
    moreover have "x \<notin> region mgr 8" using x region_mono[of 8 24 mgr] by auto
    ultimately show ?thesis using assms(1) by (simp add: heap_grow_def)
  qed
  then show ?thesis using assms(1) heap_grow_index[OF assms(1)] by (simp add: low_frame_def heap_grow_def)
qed

text \<open>What both functions do from their loops on: the pages are mapped and the lock is released.\<close>

lemma space_count: "space_rep r mgr ps s t \<Longrightarrow> length (pmm_stack s) \<le> 2 ^ 34"
  using nh_wfD(2,5)[of ps s] by (intro phys_count) (auto simp: space_rep_def vmm_rep_def avl_rep_def)

lemma unlock_space:
  assumes "space_rep r mgr ps s t" "mapped r addr L m (mem s)" "taken r L s0 s"
  shows "space_rep r mgr ps (unlock_mgr mgr s) t" "mapped r addr L m (mem (unlock_mgr mgr s))"
    "taken r L s0 (unlock_mgr mgr s)" "mgr_lock (mem (unlock_mgr mgr s)) mgr = 0"
  using lock_space[OF assms(1), of 0] assms(2,3) by (simp_all add: unlock_mgr_def mapped_def taken_def)

lemma malloc_tail:
  assumes s: "space_rep r mgr ps s t" and n: "4 * n \<le> length (pmm_stack s)" "\<forall>i<n. no_huge (mem s) r (addr + of_nat i * 0x1000)"
    and fl: "pf_present fl"
  defines "s' \<equiv> unlock_mgr mgr (fold (malloc_page mgr addr fl) [0..<n] s)"
  shows "\<exists>L. space_rep r mgr ps s' t \<and> mgr_lock (mem s') mgr = 0 \<and> length L = n \<and> mapped r addr L (mem s) (mem s') \<and> taken r L s s' \<and>
    low_frame mgr s s'"
proof -
  have v: "vm_wf r s" "mgr_ok mgr s" "mgr_pml4t (mem s) mgr = r" using s by (auto simp: space_rep_def vmm_rep_def)
  have n36: "n \<le> 2 ^ 36" using space_count[OF s] n(1) by (simp del: length_pmm_stack)
  let ?s3 = "fold (malloc_page mgr addr fl) [0..<n] s"
  obtain L where L: "length L = n" "mapped_state r addr L (4 * n) s ?s3" "taken r L s ?s3"
    using malloc_loop[OF v fl, of n addr] n n36 by auto
  then have "space_rep r mgr ps ?s3 t" "mapped r addr L (mem s) (mem ?s3)"
    using space_frame[OF s, of "4 * n" ?s3] by (auto simp: mapped_state_def)
  moreover have "low_frame mgr s (unlock_mgr mgr ?s3)"
    using L(2) low_frame_trans[OF low_frame_vm[OF _ v(1)] low_frame_lock] by (auto simp: mapped_state_def unlock_mgr_def)
  ultimately show ?thesis using unlock_space[of r mgr ps ?s3 t addr L "mem s" s] L(1,3) unfolding s'_def by blast
qed

lemma map_tail:
  assumes s: "space_rep r mgr ps s t" and n: "3 * n \<le> length (pmm_stack s)" "\<forall>i<n. no_huge (mem s) r (addr + of_nat i * 0x1000)"
    and fl: "pf_present fl"
  fixes paddr :: u64
  defines "s' \<equiv> unlock_mgr mgr (fold (map_page mgr addr paddr fl) [0..<n] s)"
  shows "space_rep r mgr ps s' t \<and> mgr_lock (mem s') mgr = 0 \<and>
    mapped r addr (map (\<lambda>i. paddr + of_nat i * 0x1000) [0..<n]) (mem s) (mem s') \<and> low_frame mgr s s'"
proof -
  have v: "vm_wf r s" "mgr_ok mgr s" "mgr_pml4t (mem s) mgr = r" using s by (auto simp: space_rep_def vmm_rep_def)
  have n36: "n \<le> 2 ^ 36" using space_count[OF s] n(1) by (simp del: length_pmm_stack)
  let ?s3 = "fold (map_page mgr addr paddr fl) [0..<n] s"
  have ms: "mapped_state r addr (map (\<lambda>i. paddr + of_nat i * 0x1000) [0..<n]) (3 * n) s ?s3"
    by (rule map_loop[OF v fl n(2,1) n36])
  then have lf: "low_frame mgr s (unlock_mgr mgr ?s3)"
    using low_frame_trans[OF low_frame_vm[OF _ v(1)] low_frame_lock] by (auto simp: mapped_state_def unlock_mgr_def)
  from ms have "space_rep r mgr ps ?s3 t" "mapped r addr (map (\<lambda>i. paddr + of_nat i * 0x1000) [0..<n]) (mem s) (mem ?s3)"
    using space_frame[OF s, of "3 * n" ?s3] by (auto simp: mapped_state_def)
  from unlock_space(1,2,4)[OF this, of ?s3] lock_space[OF this(1), of 0] this(2) lf show ?thesis
    unfolding s'_def by (simp add: unlock_mgr_def mapped_def)
qed

text \<open>What both functions do up to their loops: the lock is taken and the range is allocated.\<close>

lemma lock_alloc:
  assumes s: "space_rep r mgr ps s t" and l: "mgr_lock (mem s) mgr = 0" and n: "0 < n"
    and a: "alloc_range n (ranges t) = Some (addr, xs)" and free: "2 \<le> length (pmm_stack s)"
  obtains ps' s1 s2 t' where "lock_mgr mgr s = Some s1" "alloc_virt mgr n s1 = Some (addr, s2)" "space_rep r mgr ps' s2 t'"
    "ranges t' = xs" "mgr_lock (mem s2) mgr = 1" "pmm_stack s2 \<in> {pmm_stack s, butlast (pmm_stack s)}"
    "\<forall>w. page_walk (mem s2) r w = page_walk (mem s) r w" "\<forall>w. no_huge (mem s2) r w = no_huge (mem s) r w"
    "low_frame mgr s s2"
proof -
  let ?s = "s\<lparr>mem := st8 (mem s) (mgr + 16) 1\<rparr>"
  note ls = lock_space[OF s, of 1]
  have v: "vmm_rep mgr ps ?s t" and ok: "mgr_ok mgr ?s" using ls(1) by (auto simp: space_rep_def vmm_rep_def)
  have room: "node_room ps ?s" using free unfolding node_room_def ls(4) by (auto simp del: length_pmm_stack)
  from alloc_virt_spec[OF v room n] a obtain ps' s2 t' where
    al: "alloc_virt mgr n ?s = Some (addr, s2)" "vmm_rep mgr ps' s2 t'" "ranges t' = xs" "heap_grow mgr ps ?s ps' s2" by auto
  have wf: "nh_wf ps' s2" using al(2) by (simp add: vmm_rep_def avl_rep_def)
  note lo = heap_grow_low[OF al(4) wf ok]
  note g = heap_grow_vm[OF ls(1) al(4,2) lo(1)]
  have "pmm_stack s2 \<in> {pmm_stack s, butlast (pmm_stack s)}" using al(4) unfolding heap_grow_def ls(4) by auto
  moreover have "low_frame mgr s s2"
    using low_frame_trans[OF low_frame_lock[of mgr s 1]] low_frame_grow[OF al(4) wf] by simp
  ultimately show thesis using that[OF lock_free[OF l] al(1) g(1) al(3)] lo(2) g(2,3) ls(2,3) by simp
qed


section \<open>An example address space\<close>

text \<open>Freeing a page of zeros that is neither a table nor a node page keeps the invariants.\<close>

lemma pmm_free_stack:
  assumes "stack_space s"
  shows "pmm_stack (pmm_free_page p s) = pmm_stack s @ [p]" "stack_low (pmm_free_page p s)"
    "2 ^ 64 - 2 ^ 46 \<le> unat x \<Longrightarrow> mem (pmm_free_page p s) x = mem s x"
    "phys_ok q \<Longrightarrow> i < 512 \<Longrightarrow> pte (mem (pmm_free_page p s)) q i = pte (mem s) q i"
proof -
  have b: "unat (g_free_pages s) + 8 * (unat (g_free_index s) + 1) \<le> 2 ^ 64 - 2 ^ 46" using assms by (simp add: stack_space_def)
  then have i: "unat (g_free_index s) < 2 ^ 61 - 1" by simp
  then show "pmm_stack (pmm_free_page p s) = pmm_stack s @ [p]" by (intro pmm_stack_free) (simp add: pmm_room_def)
  have "unat (g_free_index s + 1) = unat (g_free_index s) + 1" using i by (simp add: unat_plus_if')
  then show "stack_low (pmm_free_page p s)" using b by (simp add: stack_low_def pmm_free_page_def)
  have "unat (8 * g_free_index s) = 8 * unat (g_free_index s)" using i unat_of_nat[of "8 * unat (g_free_index s)", where 'a = 64] by simp
  then have a: "unat (g_free_pages s + 8 * g_free_index s) + 8 \<le> 2 ^ 64 - 2 ^ 46" using b by (simp add: unat_plus_if')
  then show "2 ^ 64 - 2 ^ 46 \<le> unat x \<Longrightarrow> mem (pmm_free_page p s) x = mem s x"
    using free_frame_low[OF a, of "{}" "mem s" p] by (simp add: free_frame_def pmm_free_page_def)
  show "phys_ok q \<Longrightarrow> i < 512 \<Longrightarrow> pte (mem (pmm_free_page p s)) q i = pte (mem s) q i"
    using pte_low_store[OF a] by (simp add: pmm_free_page_def)
qed

lemma free_zero_page:
  assumes r: "avl_rep ps s t" and v: "vm_wf r s" and sp: "stack_space s" and tp: "tables (mem s) r \<inter> set ps = {}"
    and p: "phys_ok p" "p \<notin> set ps \<union> set (pmm_stack s) \<union> tables (mem s) r" "\<forall>i<512. pte (mem s) p i = 0"
  defines "s' \<equiv> pmm_free_page p s"
  shows "avl_rep ps s' t" "vm_wf r s'" "tables (mem s') r = tables (mem s) r" "no_huge (mem s') r w = no_huge (mem s) r w"
proof -
  note f = pmm_free_stack[OF sp, where p = p, folded s'_def]
  have wf: "nh_wf ps s" using r by (simp add: avl_rep_def)
  note n = nh_wfD[OF wf]
  have w: "pt_wf (mem s) r (set (pmm_stack s))" "distinct (pmm_stack s)" using v by (auto simp: vm_wf_def)
  have z: "\<forall>q\<in>set (pmm_stack s'). phys_ok q \<and> (\<forall>i<512. pte (mem s') q i = 0)"
    using f(4) p(1,3) n(5,6) by (auto simp: f(1))
  have t: "pte (mem s') u i = pte (mem s) u i" if "u \<in> tables (mem s) r" "i < 512" for u i
    using f(4) tables_phys[OF w(1) that(1)] that(2) by blast
  have "set (pmm_stack s') \<inter> tables (mem s) r = {}" using tables_phys[OF w(1)] p(2) by (auto simp: f(1))
  then have "pt_wf (mem s') r (set (pmm_stack s'))" by (intro pt_wf_cong[OF w(1) _ z]) (use t in auto)
  then show "vm_wf r s'" using w(2) p(2) f(2) by (simp add: vm_wf_def f(1))
  show "tables (mem s') r = tables (mem s) r" "no_huge (mem s') r w = no_huge (mem s) r w" using tables_cong(1,4)[OF t] by simp_all
  show "avl_rep ps s' t"
  proof (rule avl_rep_cong[OF r])
    show "\<forall>q\<in>set ps. \<forall>x\<in>region (q + PHYSICAL_MAP_OFFSET) 4096. mem s' x = mem s x"
      using f(3) window_high n(4) by blast
    show "distinct (ps @ pmm_stack s')" using n(2) p(2) by (auto simp: f(1))
  qed (use z f(2) in \<open>simp_all add: s'_def pmm_free_page_def\<close>)
qed


lemma put_mgr_out: "x \<notin> region mgr 24 \<Longrightarrow> put_mgr m mgr v x = m x"
proof -
  assume x: "x \<notin> region mgr 24"
  have "x \<notin> region mgr 8" "x \<notin> region (mgr + 8) 8" "x \<notin> region (mgr + 16) 1"
    using x region_sub[of 0 8 24 mgr] region_sub[of 8 8 24 mgr] region_sub[of 16 1 24 mgr] by auto
  then show ?thesis by (simp add: put_mgr_def m8.st_region[simplified] m64.st_region)
qed

lemma put_mgr_fields:
  "mgr_tree (put_mgr m mgr v) mgr = mm_tree v" "mgr_pml4t (put_mgr m mgr v) mgr = mm_pml4t v" "mgr_lock (put_mgr m mgr v) mgr = mm_lock v"
  by (simp_all add: put_mgr_def mgr_tree_def mgr_pml4t_def mgr_lock_def ld_sep sep_def)

text \<open>The heap of the earlier examples with a root table at \<open>0x1000\<close> and seven more free pages.\<close>

definition demo_inv :: "u64 list \<Rightarrow> node_heap \<Rightarrow> bool" where
  "demo_inv F s \<longleftrightarrow> avl_rep [0x4000] s demo_tree \<and> vm_wf 0x1000 s \<and> tables (mem s) 0x1000 = {0x1000} \<and>
     pmm_stack s = F \<and> g_free_pages s = 0x400000 \<and> (\<forall>q i. phys_ok q \<and> q \<noteq> 0x4000 \<and> i < 512 \<longrightarrow> pte (mem s) q i = 0)"

lemma demo_inv_free:
  assumes "demo_inv F s" "phys_ok p" "p \<notin> set F \<union> {0x1000, 0x4000}" "length F < 100"
  shows "demo_inv (F @ [p]) (pmm_free_page p s)"
proof -
  have d: "avl_rep [0x4000] s demo_tree" "vm_wf 0x1000 s" "tables (mem s) 0x1000 = {0x1000}" "pmm_stack s = F"
    "g_free_pages s = 0x400000" "\<forall>q i. phys_ok q \<and> q \<noteq> 0x4000 \<and> i < 512 \<longrightarrow> pte (mem s) q i = 0" using assms(1) by (auto simp: demo_inv_def)
  have "unat (g_free_index s) < 100" using assms(4) d(4) length_pmm_stack[of s] by simp
  then have sp: "stack_space s" by (simp add: stack_space_def d(5))
  note f = pmm_free_stack[OF sp, where p = p]
  note z = free_zero_page[OF d(1,2) sp _ assms(2)]
  have "tables (mem s) 0x1000 \<inter> set [0x4000] = {}" by (simp add: d(3))
  then show ?thesis unfolding demo_inv_def using z(1-3) assms(2,3) d f(1,4)
    by (auto simp: pmm_free_page_def)
qed

lemma demo_heap_inv: "demo_inv [0x2000, 0x3000] demo_heap"
proof -
  have p: "phys_ok 0x1000" "phys_ok 0x2000" "phys_ok 0x3000" "phys_ok 0x4000" by (simp_all add: phys_ok_def)
  have z0: "pte (mem demo_vm) q i = 0" if "phys_ok q" "i < 512" for q i
  proof -
    have "pte (\<lambda>_. 0) q i = 0" by (simp add: pte_def ld64_def ldn_zero)
    then show ?thesis using that by (simp add: demo_vm_def pte_low_store)
  qed
  have z1: "pte (mem demo_base) q i = 0" if "phys_ok q" "q \<noteq> 0x4000" "i < 512" for q i
    using z0[of q i] that p by (simp add: demo_base_def pte_st_ok)
  have fr: "win_frame (set [0x4000]) (mem demo_base) (mem demo_heap)"
  proof (rule nh_wf_write(4)[OF demo_base_wf(1)])
    fix x assume x: "\<And>q. q \<in> own [0x4000] (mem demo_base) \<Longrightarrow> x \<notin> region q 48"
    have "node_frame {lp y} m (demo_store m y l r)" for m y l r
      unfolding demo_store_def by (intro node_frame_store node_frame_refl) simp_all
    then have st: "demo_store m y l r x = m x" if "x \<notin> region (lp y) 48" for m y l r
      using that by (simp add: node_frame_def)
    show "mem demo_heap x = mem demo_base x"
      using x unfolding demo_heap_def by (simp add: st demo_base_wf(2) demo_x0_def demo_x1_def demo_x2_def)
  qed
  have z: "pte (mem demo_heap) q i = 0" if "phys_ok q" "q \<noteq> 0x4000" "i < 512" for q i
    using pte_win_frame[OF fr that(1) _ _ that(3)] z1[OF that] that(2) p(4) by simp
  have wf: "nh_wf [0x4000] demo_heap" using demo_heap_rep(1) by (simp add: avl_rep_def)
  have stk: "pmm_stack demo_heap = [0x2000, 0x3000]"
  proof -
    have "pmm_stack demo_heap = pmm_stack demo_base"
      using stack_frame[OF nh_wfD(3)[OF demo_base_wf(1)], of "mem demo_heap"] win_frame_low[OF fr] p(4)
      by (simp add: demo_heap_def)
    then show ?thesis using demo_base_wf(3) by simp
  qed
  have "vm_wf 0x1000 demo_heap"
    by (rule vm_wf_fresh) (use p z nh_wfD(2,3,5)[OF wf] stk in auto)
  moreover have "tables (mem demo_heap) 0x1000 = {0x1000}"
  proof -
    have "tbl (mem demo_heap) 0x1000 js = None" if "idx_ok js" "js \<noteq> []" for js
      using that z[of "0x1000"] p(1) by (cases js) (auto simp: is_table_def)
    then have "js = [] \<and> t = 0x1000" if "idx_ok js" "tbl (mem demo_heap) 0x1000 js = Some t" for js t
      using that by (cases "js = []") auto
    then show ?thesis by (auto simp: tables_def intro: exI[of _ "[]"])
  qed
  ultimately show ?thesis using demo_heap_rep(1) z stk by (simp add: demo_inv_def demo_heap_def demo_base_def demo_nodes_def)
qed

definition demo_space :: node_heap where
  "demo_space = (let s = fold pmm_free_page [0x5000, 0x6000, 0x7000, 0x8000, 0x9000, 0xa000, 0xb000] demo_heap
     in s\<lparr>mem := put_mgr (mem s) 0x200000 \<lparr>mm_tree = demo_node0, mm_pml4t = 0x1000, mm_lock = 0\<rparr>\<rparr>)"

lemma demo_space_rep:
  "space_rep 0x1000 0x200000 [0x4000] demo_space demo_tree" "mgr_lock (mem demo_space) 0x200000 = 0"
  "pmm_stack demo_space = [0x2000, 0x3000, 0x5000, 0x6000, 0x7000, 0x8000, 0x9000, 0xa000, 0xb000]" "no_huge (mem demo_space) 0x1000 v"
proof -
  let ?s = "fold pmm_free_page [0x5000, 0x6000, 0x7000, 0x8000, 0x9000, 0xa000, 0xb000] demo_heap" and ?mgr = "0x200000 :: u64"
  let ?m = "put_mgr (mem ?s) ?mgr \<lparr>mm_tree = demo_node0, mm_pml4t = 0x1000, mm_lock = 0\<rparr>"
  have "demo_inv [0x2000, 0x3000, 0x5000, 0x6000, 0x7000, 0x8000, 0x9000, 0xa000, 0xb000] ?s"
    using demo_inv_free[OF demo_inv_free[OF demo_inv_free[OF demo_inv_free[OF demo_inv_free[OF demo_inv_free[OF demo_inv_free[OF demo_heap_inv]]]]]],
        of "0x5000" "0x6000" "0x7000" "0x8000" "0x9000" "0xa000" "0xb000"]
    by (simp add: phys_ok_def)
  then have d: "avl_rep [0x4000] ?s demo_tree" "vm_wf 0x1000 ?s" "tables (mem ?s) 0x1000 = {0x1000}"
    "pmm_stack ?s = [0x2000, 0x3000, 0x5000, 0x6000, 0x7000, 0x8000, 0x9000, 0xa000, 0xb000]" "g_free_pages ?s = 0x400000"
    "\<forall>q i. phys_ok q \<and> q \<noteq> 0x4000 \<and> i < 512 \<longrightarrow> pte (mem ?s) q i = 0" by (auto simp: demo_inv_def)
  have n: "unat (g_free_index ?s) = 9" using d(4) length_pmm_stack[of ?s] by simp
  have ok: "mgr_ok ?mgr ?s" unfolding mgr_ok_def d(5) n by (simp add: sep_def)
  have out: "\<forall>x. x \<notin> region ?mgr 24 \<longrightarrow> ?m x = mem ?s x" using put_mgr_out by blast
  have f: "mgr_tree ?m ?mgr = root demo_tree" "mgr_pml4t ?m ?mgr = 0x1000" "mgr_lock ?m ?mgr = 0"
    by (simp_all only: put_mgr_fields memory_manager.simps) (simp add: demo_tree_def demo_x0_def)
  have t: "demo_tree \<noteq> Leaf" "tiled (ranges demo_tree)"
    by (simp_all add: demo_tree_def demo_x0_def demo_x1_def demo_x2_def entry_of_def tiled_def range_last_def)
  have e: "demo_space = ?s\<lparr>mem := ?m\<rparr>" by (simp add: demo_space_def Let_def del: fold.simps)
  note v = quiet_vm[OF mgr_quiet[OF ok out] d(2)]
  have "tables (mem ?s) 0x1000 \<inter> set [0x4000] = {}" unfolding d(3) by simp
  then show "space_rep 0x1000 ?mgr [0x4000] demo_space demo_tree" unfolding e by (rule quiet_space[OF ok mgr_quiet[OF ok out] d(1,2) _ t f(1,2)])
  show "mgr_lock (mem demo_space) ?mgr = 0" unfolding e using f(3) by (simp del: fold.simps)
  show "pmm_stack demo_space = [0x2000, 0x3000, 0x5000, 0x6000, 0x7000, 0x8000, 0x9000, 0xa000, 0xb000]" unfolding e v(5) by (rule d(4))
  show "no_huge (mem demo_space) 0x1000 v" unfolding e
    using v(3) d(6) by (simp del: fold.simps add: no_huge_def entry_def is_table_def phys_ok_def)
qed


lemma demo_alloc: "alloc_range 1 (ranges demo_tree) = Some (0x100000, [(0x80000, 9, 0), (0x100000, 1, 1), (0x101000, 4, 0), (0x105000, 7, 1)])"
  "alloc_range 10 (ranges demo_tree) = None"
  by (simp_all add: alloc_range_def demo_tree_def demo_x0_def demo_x1_def demo_x2_def entry_of_def fits_def split_range_def)

lemma set_data_space:
  assumes s: "space_rep r mgr ps s t" and x: "x \<in> set_tree t" "lp x = p" and t: "tiled (ranges (set_data p n c t))"
  defines "s' \<equiv> s\<lparr>mem := set_allocated (set_page_count (mem s) p n) p c\<rparr>"
  shows "space_rep r mgr ps s' (set_data p n c t)" "no_huge (mem s') r w = no_huge (mem s) r w"
    "pmm_stack s' = pmm_stack s" "mgr_lock (mem s') mgr = mgr_lock (mem s) mgr"
proof -
  have v: "avl_rep ps s t" "t \<noteq> Leaf" "mgr_tree (mem s) mgr = root t" "mgr_ok mgr s" using s by (auto simp: space_rep_def vmm_rep_def)
  note d = set_data_vmm[OF v(1,3,4) x t heap_grow_refl, folded s'_def]
  have wf: "nh_wf ps s" "nh_wf ps s'" using v(1) d(1) by (auto simp: avl_rep_def vmm_rep_def)
  note lo = heap_grow_low[OF d(2) wf(2) v(4)]
  show "space_rep r mgr ps s' (set_data p n c t)" "no_huge (mem s') r w = no_huge (mem s) r w"
    using heap_grow_vm[OF s d(2,1) lo(1)] by blast+
  show "pmm_stack s' = pmm_stack s" "mgr_lock (mem s') mgr = mgr_lock (mem s) mgr"
    using d(2) lo(2) nh_wfD(2)[OF wf(1)] nh_wfD(2)[OF wf(2)] by (auto simp: heap_grow_def)
qed

text \<open>The same address space with every range allocated.\<close>

definition demo_full :: node_heap where
  "demo_full = (let m = set_allocated (set_page_count (mem demo_space) demo_node0 5) demo_node0 1
     in demo_space\<lparr>mem := set_allocated (set_page_count m demo_node2 9) demo_node2 1\<rparr>)"

lemma demo_full_rep:
  "space_rep 0x1000 0x200000 [0x4000] demo_full (set_data demo_node2 9 1 (set_data demo_node0 5 1 demo_tree))"
  "mgr_lock (mem demo_full) 0x200000 = 0" "length (pmm_stack demo_full) = 9" "no_huge (mem demo_full) 0x1000 v"
  "alloc_range 1 (ranges (set_data demo_node2 9 1 (set_data demo_node0 5 1 demo_tree))) = None"
proof -
  let ?t = "set_data demo_node0 5 1 demo_tree" and ?x2 = "demo_x2"
  let ?s = "demo_space\<lparr>mem := set_allocated (set_page_count (mem demo_space) demo_node0 5) demo_node0 1\<rparr>"
  have n: "distinct [demo_node0, demo_node1, demo_node2]" "demo_node2 \<noteq> demo_node0" "demo_node1 \<noteq> demo_node0" using demo_nodes_apart(2) by auto
  have x: "demo_x0 \<in> set_tree demo_tree" "lp demo_x0 = demo_node0" "demo_x2 \<in> set_tree ?t" "lp demo_x2 = demo_node2"
    using n by (simp_all add: demo_tree_def demo_x0_def demo_x1_def demo_x2_def)
  have r: "ranges ?t = [(0x80000, 9, 0), (0x100000, 5, 1), (0x105000, 7, 1)]"
    "ranges (set_data demo_node2 9 1 ?t) = [(0x80000, 9, 1), (0x100000, 5, 1), (0x105000, 7, 1)]"
    using n by (simp_all add: demo_tree_def demo_x0_def demo_x1_def demo_x2_def entry_of_def)
  have t: "tiled (ranges ?t)" "tiled (ranges (set_data demo_node2 9 1 ?t))"
    unfolding r by (simp_all add: tiled_def range_last_def)
  note a = set_data_space[OF demo_space_rep(1) x(1,2) t(1)]
  note b = set_data_space[OF a(1) x(3,4) t(2)]
  have e: "demo_full = ?s\<lparr>mem := set_allocated (set_page_count (mem ?s) demo_node2 9) demo_node2 1\<rparr>" by (simp add: demo_full_def Let_def)
  show "space_rep 0x1000 0x200000 [0x4000] demo_full (set_data demo_node2 9 1 ?t)" unfolding e by (rule b(1))
  show "mgr_lock (mem demo_full) 0x200000 = 0" unfolding e b(4) a(4) by (rule demo_space_rep(2))
  show "length (pmm_stack demo_full) = 9" unfolding e b(3) a(3) demo_space_rep(3) by simp
  show "no_huge (mem demo_full) 0x1000 v" unfolding e b(2) a(2) by (rule demo_space_rep(4))
  show "alloc_range 1 (ranges (set_data demo_node2 9 1 ?t)) = None" unfolding r by (simp add: alloc_range_def fits_def)
qed


section \<open>Properties\<close>

lemma malloc_pages_spec:
  assumes "space_rep r mgr ps s t" "mgr_lock (mem s) mgr = 0" "0 < n" "alloc_range n (ranges t) = Some (addr, xs)"
    "4 * unat n + 1 \<le> length (pmm_stack s)" "\<forall>i<unat n. no_huge (mem s) r (addr + of_nat i * 0x1000)"
  shows "\<exists>ps' s' t' L. malloc_pages mgr n w x k s = Some (addr, s') \<and> space_rep r mgr ps' s' t' \<and> ranges t' = xs \<and>
    mgr_lock (mem s') mgr = 0 \<and> length L = unat n \<and> mapped r addr L (mem s) (mem s') \<and>
    distinct L \<and> set L \<subseteq> set (pmm_stack s) \<and> set L \<inter> (set (pmm_stack s') \<union> tables (mem s') r \<union> set ps') = {} \<and>
    low_frame mgr s s'"
proof -
  have "0 < unat n" using assms(3) by (simp add: word_less_nat_alt)
  then have two: "2 \<le> length (pmm_stack s)" using assms(5) by (simp del: length_pmm_stack)
  obtain ps' s1 s2 t' where
    a: "lock_mgr mgr s = Some s1" "alloc_virt mgr n s1 = Some (addr, s2)" "space_rep r mgr ps' s2 t'" "ranges t' = xs"
    "mgr_lock (mem s2) mgr = 1" "pmm_stack s2 \<in> {pmm_stack s, butlast (pmm_stack s)}"
    "\<forall>w. page_walk (mem s2) r w = page_walk (mem s) r w" "\<forall>w. no_huge (mem s2) r w = no_huge (mem s) r w"
    "low_frame mgr s s2"
    by (rule lock_alloc[OF assms(1-4) two]) (rule that)
  let ?fl = "\<lparr>pf_write = (w \<noteq> 0), pf_exec = (x \<noteq> 0), pf_kernel = (k \<noteq> 0), pf_usable = True, pf_present = True\<rparr>"
  let ?s = "unlock_mgr mgr (fold (malloc_page mgr addr ?fl) [0..<unat n] s2)"
  have "4 * unat n \<le> length (pmm_stack s2)" using a(6) assms(5) by (auto simp del: length_pmm_stack)
  with malloc_tail[OF a(3) this, of addr ?fl] assms(6) a(8) obtain L where
    L: "space_rep r mgr ps' ?s t'" "mgr_lock (mem ?s) mgr = 0" "length L = unat n" "mapped r addr L (mem s2) (mem ?s)" "taken r L s2 ?s"
    "low_frame mgr s2 ?s" by auto
  have "malloc_pages mgr n w x k s = Some (addr, ?s)"
    using assms(1,3) a(1,2) by (simp add: malloc_pages_def space_rep_def vmm_rep_def mgr_ok_def word_gt_0)
  moreover have "mapped r addr L (mem s) (mem ?s)" using L(4) a(7) by (simp add: mapped_def)
  moreover have "set (pmm_stack s2) \<subseteq> set (pmm_stack s)" using a(6) by (auto dest: in_set_butlastD)
  moreover have "set ps' \<inter> set (pmm_stack s2) = {}"
    using a(3) nh_wfD(2)[of ps' s2] by (auto simp: space_rep_def vmm_rep_def avl_rep_def)
  ultimately show ?thesis using L(1-3,5) a(4) low_frame_trans[OF a(9) L(6)] unfolding taken_def
    by (intro exI[of _ ps'] exI[of _ ?s] exI[of _ t'] exI[of _ L]) auto
qed

text \<open>
  C6. \<open>malloc_pages\<close> composes the two halves of the memory manager: with the lock free, a free range
  that is large enough and enough free pages, it returns the range the abstract allocator chooses;
  every page of the range is mapped to a page of its own, taken from the free pages and used neither
  as page table nor for nodes; every other translation is as before; and the invariant of the
  address space holds again, with the lock free. (The worst case is one page for a node and, for
  each page, three tables and the page itself.)
\<close>

theorem malloc_pages_correct:
  assumes "space_rep r mgr ps s t" "mgr_lock (mem s) mgr = 0" "0 < n" "alloc_range n (ranges t) = Some (addr, xs)"
    "4 * unat n + 1 \<le> length (pmm_stack s)" "\<forall>i<unat n. no_huge (mem s) r (addr + of_nat i * 0x1000)"
  shows "\<exists>ps' s' t' L. malloc_pages mgr n w x k s = Some (addr, s') \<and> space_rep r mgr ps' s' t' \<and> ranges t' = xs \<and>
    mgr_lock (mem s') mgr = 0 \<and> length L = unat n \<and> mapped r addr L (mem s) (mem s') \<and>
    distinct L \<and> set L \<subseteq> set (pmm_stack s) \<and> set L \<inter> (set (pmm_stack s') \<union> tables (mem s') r \<union> set ps') = {}"
  using malloc_pages_spec[OF assms] by blast

theorem malloc_pages_correct_witness:
  "\<exists>s' p. malloc_pages 0x200000 1 1 0 1 demo_space = Some (0x100000, s') \<and> p \<in> set (pmm_stack demo_space) \<and>
     page_walk (mem s') 0x1000 0x100234 = Some ((p AND MASK_REMOVE_12L) + 0x234)"
proof -
  have "\<forall>i<unat (1::u64). no_huge (mem demo_space) 0x1000 (0x100000 + of_nat i * 0x1000)" using demo_space_rep(4) by simp
  then obtain s' L where L: "malloc_pages 0x200000 1 1 0 1 demo_space = Some (0x100000, s')" "length L = 1"
    "mapped 0x1000 0x100000 L (mem demo_space) (mem s')" "set L \<subseteq> set (pmm_stack demo_space)"
    using malloc_pages_correct[OF demo_space_rep(1,2) _ demo_alloc(1), of 1 0 1] demo_space_rep(3) by (auto simp del: length_pmm_stack)
  have "same_page 0x100000 0x100234" by (simp add: same_page_def MASK_REMOVE_16U_def)
  then have "page_walk (mem s') 0x1000 0x100234 = Some ((L ! 0 AND MASK_REMOVE_12L) + 0x234)"
    using L(2,3) by (simp add: mapped_def)
  moreover have "L ! 0 \<in> set (pmm_stack demo_space)" using L(2,4) by (auto dest: nth_mem)
  ultimately show ?thesis using L(1) by blast
qed

text \<open>
  C7. \<open>map_memory\<close> maps the physical pages from \<open>map_addr\<close> on, in order, at the range the abstract
  allocator chooses, and changes no other translation; the invariant holds again, with the lock free.
\<close>

theorem map_memory_correct:
  assumes "space_rep r mgr ps s t" "mgr_lock (mem s) mgr = 0" "0 < n" "alloc_range n (ranges t) = Some (addr, xs)"
    "3 * unat n + 1 \<le> length (pmm_stack s)" "\<forall>i<unat n. no_huge (mem s) r (addr + of_nat i * 0x1000)" "map_addr mod 0x1000 = 0"
  shows "\<exists>ps' s' t'. map_memory mgr map_addr n k s = Some (addr, s') \<and> space_rep r mgr ps' s' t' \<and> ranges t' = xs \<and>
    mgr_lock (mem s') mgr = 0 \<and> mapped r addr (map (\<lambda>i. map_addr + of_nat i * 0x1000) [0..<unat n]) (mem s) (mem s')"
proof -
  have "0 < unat n" using assms(3) by (simp add: word_less_nat_alt)
  then have two: "2 \<le> length (pmm_stack s)" using assms(5) by (simp del: length_pmm_stack)
  obtain ps' s1 s2 t' where
    a: "lock_mgr mgr s = Some s1" "alloc_virt mgr n s1 = Some (addr, s2)" "space_rep r mgr ps' s2 t'" "ranges t' = xs"
    "mgr_lock (mem s2) mgr = 1" "pmm_stack s2 \<in> {pmm_stack s, butlast (pmm_stack s)}"
    "\<forall>w. page_walk (mem s2) r w = page_walk (mem s) r w" "\<forall>w. no_huge (mem s2) r w = no_huge (mem s) r w"
    "low_frame mgr s s2"
    by (rule lock_alloc[OF assms(1-4) two]) (rule that)
  let ?fl = "\<lparr>pf_write = False, pf_exec = False, pf_kernel = (k \<noteq> 0), pf_usable = False, pf_present = True\<rparr>"
  let ?s = "unlock_mgr mgr (fold (map_page mgr addr map_addr ?fl) [0..<unat n] s2)"
  have "3 * unat n \<le> length (pmm_stack s2)" using a(6) assms(5) by (auto simp del: length_pmm_stack)
  from map_tail[OF a(3) this, of addr ?fl map_addr] assms(6) a(8) have
    L: "space_rep r mgr ps' ?s t'" "mgr_lock (mem ?s) mgr = 0"
      "mapped r addr (map (\<lambda>i. map_addr + of_nat i * 0x1000) [0..<unat n]) (mem s2) (mem ?s)" by auto
  have "map_memory mgr map_addr n k s = Some (addr, ?s)"
    using assms(1,3,7) a(1,2) by (simp add: map_memory_def space_rep_def vmm_rep_def mgr_ok_def word_gt_0)
  then show ?thesis using L a(4,7) by (intro exI[of _ ps'] exI[of _ ?s] exI[of _ t']) (simp add: mapped_def)
qed

theorem map_memory_correct_witness:
  "\<exists>s'. map_memory 0x200000 0xfee00000 1 1 demo_space = Some (0x100000, s') \<and>
     page_walk (mem s') 0x1000 0x100020 = Some 0xfee00020"
proof -
  have "\<forall>i<unat (1::u64). no_huge (mem demo_space) 0x1000 (0x100000 + of_nat i * 0x1000)" using demo_space_rep(4) by simp
  then obtain s' where L: "map_memory 0x200000 0xfee00000 1 1 demo_space = Some (0x100000, s')"
    "mapped 0x1000 0x100000 [0xfee00000] (mem demo_space) (mem s')"
    using map_memory_correct[OF demo_space_rep(1,2) _ demo_alloc(1), of "0xfee00000" 1] demo_space_rep(3) by (auto simp del: length_pmm_stack)
  have "same_page 0x100000 0x100020" by (simp add: same_page_def MASK_REMOVE_16U_def)
  then have "page_walk (mem s') 0x1000 0x100020 = Some 0xfee00020"
    using L(2) by (simp add: mapped_def MASK_REMOVE_12L_def)
  then show ?thesis using L(1) by blast
qed

text \<open>
  C26. \<open>malloc_pages\<close> does not look at the result of \<open>alloc_virt\<close>: when no free range is large enough it
  returns a null pointer, but only after it has taken \<open>n\<close> free pages and mapped them at address 0.
\<close>

theorem malloc_pages_exhausted:
  assumes "space_rep r mgr ps s t" "mgr_lock (mem s) mgr = 0" "0 < n" "alloc_range n (ranges t) = None"
    "4 * unat n \<le> length (pmm_stack s)" "\<forall>i<unat n. no_huge (mem s) r (of_nat i * 0x1000)"
  shows "\<exists>s' L. malloc_pages mgr n w x k s = Some (0, s') \<and> space_rep r mgr ps s' t \<and> length L = unat n \<and>
    mapped r 0 L (mem s) (mem s') \<and> distinct L \<and> set L \<subseteq> set (pmm_stack s) \<and> set L \<inter> set (pmm_stack s') = {}"
proof -
  let ?s1 = "s\<lparr>mem := st8 (mem s) (mgr + 16) 1\<rparr>"
  let ?fl = "\<lparr>pf_write = (w \<noteq> 0), pf_exec = (x \<noteq> 0), pf_kernel = (k \<noteq> 0), pf_usable = True, pf_present = True\<rparr>"
  let ?s = "unlock_mgr mgr (fold (malloc_page mgr 0 ?fl) [0..<unat n] ?s1)"
  note ls = lock_space[OF assms(1), of 1]
  have v: "vmm_rep mgr ps ?s1 t" using ls(1) by (simp add: space_rep_def)
  have "0 < unat n" using assms(3) by (simp add: word_less_nat_alt)
  then have "pmm_stack s \<noteq> []" using assms(5) by (auto simp del: length_pmm_stack)
  then have room: "node_room ps ?s1" by (simp add: node_room_def ls(4))
  have al: "alloc_virt mgr n ?s1 = Some (0, ?s1)" using alloc_virt_spec[OF v room assms(3)] assms(4) by simp
  have "malloc_pages mgr n w x k s = Some (0, ?s)"
    using assms(1,3) lock_free[OF assms(2)] al by (simp add: malloc_pages_def space_rep_def vmm_rep_def mgr_ok_def word_gt_0)
  moreover have "4 * unat n \<le> length (pmm_stack ?s1)" using assms(5) unfolding ls(4) .
  with malloc_tail[OF ls(1) this, of 0 ?fl] assms(6) ls(3) obtain L where
    L: "space_rep r mgr ps ?s t" "length L = unat n" "mapped r 0 L (mem ?s1) (mem ?s)" "taken r L ?s1 ?s" by auto
  moreover have "mapped r 0 L (mem s) (mem ?s)" using L(3) ls(2) by (simp add: mapped_def)
  ultimately show ?thesis unfolding taken_def ls(4) by (intro exI[of _ ?s] exI[of _ L]) auto
qed

theorem malloc_pages_exhausted_witness:
  "\<exists>s'. malloc_pages 0x200000 1 1 0 1 demo_full = Some (0, s') \<and> page_walk (mem s') 0x1000 0x234 \<noteq> None"
proof -
  have nh: "\<forall>i<unat (1::u64). no_huge (mem demo_full) 0x1000 (of_nat i * 0x1000)" using demo_full_rep(4) by simp
  obtain s' L where L: "malloc_pages 0x200000 1 1 0 1 demo_full = Some (0, s')" "length L = 1"
    "mapped 0x1000 0 L (mem demo_full) (mem s')"
    using malloc_pages_exhausted[OF demo_full_rep(1,2) _ demo_full_rep(5) _ nh, of 1 0 1] demo_full_rep(3) by (auto simp del: length_pmm_stack)
  have "same_page 0 0x234" by (simp add: same_page_def MASK_REMOVE_16U_def)
  then show ?thesis using L by (auto simp: mapped_def)
qed

end
