(* ===== verification/Mem_Lock.thy ===== *)
theory Mem_Lock
  imports Mem_Space
begin

text \<open>
  The lock of a memory manager among several processors (\<open>lock_mgr\<close> and \<open>unlock_mgr\<close> of
  \<^verbatim>\<open>kernel/system/mem_mgmt/vmm/mem_mgmt.c\<close>): the processors interleave in steps of one atomic
  exchange, one store of the lock byte, or some work under the lock that leaves the lock byte alone.
\<close>

section \<open>The interleaving\<close>

datatype phase = Outside | Spinning | Holding

type_synonym cpus = "memory \<times> (nat \<Rightarrow> phase)"

inductive cpu_step :: "u64 \<Rightarrow> cpus \<Rightarrow> cpus \<Rightarrow> bool" for mgr where
  call: "pc i = Outside \<Longrightarrow> cpu_step mgr (m, pc) (m, pc(i := Spinning))"
| retry: "pc i = Spinning \<Longrightarrow> mgr_lock m mgr \<noteq> 0 \<Longrightarrow> cpu_step mgr (m, pc) (st8 m (mgr + 16) 1, pc)"
| acquire: "pc i = Spinning \<Longrightarrow> mgr_lock m mgr = 0 \<Longrightarrow> cpu_step mgr (m, pc) (st8 m (mgr + 16) 1, pc(i := Holding))"
| work: "pc i = Holding \<Longrightarrow> mgr_lock m' mgr = mgr_lock m mgr \<Longrightarrow> cpu_step mgr (m, pc) (m', pc)"
| release: "pc i = Holding \<Longrightarrow> cpu_step mgr (m, pc) (st8 m (mgr + 16) 0, pc(i := Outside))"

inductive_cases cpu_stepE: "cpu_step mgr (m, pc) (m', pc')"

text \<open>A call of \<open>lock_mgr\<close> that returns ends with the step \<open>acquire\<close>, and \<open>unlock_mgr\<close> is the step \<open>release\<close>.\<close>

lemma lock_mgr_step:
  assumes "lock_mgr mgr s = Some s'" "pc i = Spinning"
  shows "cpu_step mgr (mem s, pc) (mem s', pc(i := Holding))"
  using acquire[of pc i "mem s" mgr] assms lock_returns[OF assms(1)] lock_free[OF lock_returns[OF assms(1)]] by auto

lemma unlock_mgr_step: "pc i = Holding \<Longrightarrow> cpu_step mgr (mem s, pc) (mem (unlock_mgr mgr s), pc(i := Outside))"
  using release[of pc i mgr "mem s"] by (simp add: unlock_mgr_def)

definition locked_by :: "u64 \<Rightarrow> cpus \<Rightarrow> bool" where
  "locked_by mgr c = (case c of (m, pc) \<Rightarrow>
     (\<forall>i j. pc i = Holding \<longrightarrow> pc j = Holding \<longrightarrow> i = j) \<and> (mgr_lock m mgr \<noteq> 0 \<longleftrightarrow> (\<exists>i. pc i = Holding)))"

lemma cpu_step_locked: "cpu_step mgr c c' \<Longrightarrow> locked_by mgr c \<Longrightarrow> locked_by mgr c'"
proof (induction rule: cpu_step.induct)
  case (call pc i m)
  then have "(pc(i := Spinning)) j = Holding \<longleftrightarrow> pc j = Holding" for j by simp
  then show ?case using call.prems by (simp add: locked_by_def)
next
  case (acquire pc i m)
  then have "(pc(i := Holding)) j = Holding \<longleftrightarrow> j = i" for j by (auto simp: locked_by_def)
  then show ?case by (simp add: locked_by_def)
next
  case (release pc i m)
  then have "(pc(i := Outside)) j \<noteq> Holding" for j by (auto simp: locked_by_def)
  then show ?case by (simp add: locked_by_def)
qed (simp_all add: locked_by_def)

lemma cpu_steps_locked: "(cpu_step mgr)\<^sup>*\<^sup>* c c' \<Longrightarrow> locked_by mgr c \<Longrightarrow> locked_by mgr c'"
  by (induction rule: rtranclp_induct) (auto intro: cpu_step_locked)

section \<open>Properties\<close>

text \<open>
  C8. Mutual exclusion: however the processors interleave, at most one of them is between \<open>lock_mgr\<close>
  and \<open>unlock_mgr\<close>, and the lock byte is set exactly while one is.
\<close>

theorem lock_mutual_exclusion:
  assumes "(cpu_step mgr)\<^sup>*\<^sup>* (m, \<lambda>_. Outside) (m', pc)" "mgr_lock m mgr = 0"
  shows "(\<forall>i j. pc i = Holding \<longrightarrow> pc j = Holding \<longrightarrow> i = j) \<and> (mgr_lock m' mgr \<noteq> 0 \<longleftrightarrow> (\<exists>i. pc i = Holding))"
  using cpu_steps_locked[OF assms(1)] assms(2) by (simp add: locked_by_def)

theorem lock_mutual_exclusion_witness:
  "\<exists>m' pc. (cpu_step 0x200000)\<^sup>*\<^sup>* (\<lambda>_. 0, \<lambda>_. Outside) (m', pc) \<and> pc 3 = Holding \<and> (\<forall>j. pc j = Holding \<longrightarrow> 3 = j)"
proof -
  let ?z = "\<lambda>_::u64. 0 :: u8"
  define pc1 where "pc1 = (\<lambda>_::nat. Outside)(3 := Spinning)"
  define pc2 where "pc2 = pc1(3 := Holding)"
  have l: "mgr_lock ?z 0x200000 = 0" by (simp add: mgr_lock_def ld8_def)
  have a: "cpu_step 0x200000 (?z, \<lambda>_. Outside) (?z, pc1)" unfolding pc1_def by (rule call) simp
  have b: "cpu_step 0x200000 (?z, pc1) (st8 ?z (0x200000 + 16) 1, pc2)" unfolding pc2_def by (rule acquire) (simp_all add: l pc1_def)
  have r: "(cpu_step 0x200000)\<^sup>*\<^sup>* (?z, \<lambda>_. Outside) (st8 ?z (0x200000 + 16) 1, pc2)"
    by (rule converse_rtranclp_into_rtranclp[of "cpu_step 0x200000", OF a r_into_rtranclp[of "cpu_step 0x200000", OF b]])
  have "pc2 3 = Holding" by (simp add: pc2_def)
  then show ?thesis using r lock_mutual_exclusion[OF r l] by blast
qed

text \<open>
  C27. No deadlock: in every state the processors can reach, each processor that waits for the lock can
  still get it, once the holder has released it.
\<close>

theorem lock_progress:
  assumes "(cpu_step mgr)\<^sup>*\<^sup>* (m, \<lambda>_. Outside) (m', pc)" "mgr_lock m mgr = 0" "pc i = Spinning"
  shows "\<exists>m'' pc'. (cpu_step mgr)\<^sup>*\<^sup>* (m', pc) (m'', pc') \<and> pc' i = Holding"
proof -
  have inv: "locked_by mgr (m', pc)" by (rule cpu_steps_locked[OF assms(1)]) (simp add: locked_by_def assms(2))
  show ?thesis
  proof (cases "mgr_lock m' mgr = 0")
    case True
    have "cpu_step mgr (m', pc) (st8 m' (mgr + 16) 1, pc(i := Holding))" by (rule acquire) (use assms(3) True in simp_all)
    then show ?thesis by (meson fun_upd_same r_into_rtranclp)
  next
    case False
    then obtain j where j: "pc j = Holding" using inv by (auto simp: locked_by_def)
    have ij: "(pc(j := Outside)) i = Spinning" using assms(3) j by auto
    have "cpu_step mgr (m', pc) (st8 m' (mgr + 16) 0, pc(j := Outside))" by (rule release) (rule j)
    moreover have "cpu_step mgr (st8 m' (mgr + 16) 0, pc(j := Outside)) (st8 (st8 m' (mgr + 16) 0) (mgr + 16) 1, (pc(j := Outside))(i := Holding))"
      by (rule acquire) (use ij in simp_all)
    ultimately have "(cpu_step mgr)\<^sup>*\<^sup>* (m', pc) (st8 (st8 m' (mgr + 16) 0) (mgr + 16) 1, (pc(j := Outside))(i := Holding))"
      by (rule converse_rtranclp_into_rtranclp[OF _ r_into_rtranclp])
    then show ?thesis by (meson fun_upd_same)
  qed
qed

theorem lock_progress_witness:
  "\<exists>m'' pc'. (cpu_step 0x200000)\<^sup>*\<^sup>* (\<lambda>_. 0, (\<lambda>_. Outside)(7 := Spinning)) (m'', pc') \<and> pc' 7 = Holding"
proof -
  have a: "cpu_step 0x200000 (\<lambda>_. 0, \<lambda>_. Outside) (\<lambda>_. 0, (\<lambda>_. Outside)(7 := Spinning))" by (rule call) simp
  show ?thesis by (rule lock_progress[OF r_into_rtranclp[of "cpu_step 0x200000", OF a]]) (simp_all add: mgr_lock_def ld8_def)
qed

end
