(* ===== verification/Display.thy ===== *)
theory Display
  imports Prelude
begin

text \<open>
  The text display (\<^verbatim>\<open>kernel/display.c\<close>). The anonymous structure \<open>text_info\<close> is a record; the text
  buffer it points to is in the flat memory, one 16-bit cell for each character. A C \<open>char\<close> is signed,
  so a character above 127 is sign-extended before the colour is added.
\<close>

section \<open>Data and operations\<close>

datatype kdisp_colour = BLACK | BLUE | GREEN | CYAN | RED | PURPLE | BROWN | GRAY
  | DARK_GRAY | LIGHT_BLUE | LIGHT_GREEN | LIGHT_CYAN | LIGHT_RED | LIGHT_PURPLE | YELLOW | WHITE

fun colour_code :: "kdisp_colour \<Rightarrow> u8" where
  "colour_code BLACK = 0" | "colour_code BLUE = 1" | "colour_code GREEN = 2" | "colour_code CYAN = 3"
| "colour_code RED = 4" | "colour_code PURPLE = 5" | "colour_code BROWN = 6" | "colour_code GRAY = 7"
| "colour_code DARK_GRAY = 8" | "colour_code LIGHT_BLUE = 9" | "colour_code LIGHT_GREEN = 10" | "colour_code LIGHT_CYAN = 11"
| "colour_code LIGHT_RED = 12" | "colour_code LIGHT_PURPLE = 13" | "colour_code YELLOW = 14" | "colour_code WHITE = 15"

record text_info =
  ti_text :: u64
  ti_width :: u32
  ti_height :: u32
  ti_row :: u32
  ti_col :: u32
  ti_color :: u8

definition init_display :: "u64 \<Rightarrow> u32 \<Rightarrow> u32 \<Rightarrow> text_info \<Rightarrow> text_info" where
  "init_display p_text p_width p_height ti = ti\<lparr>ti_text := p_text, ti_width := p_width, ti_height := p_height\<rparr>"

definition kdisp_color :: "kdisp_colour \<Rightarrow> kdisp_colour \<Rightarrow> text_info \<Rightarrow> text_info" where
  "kdisp_color fg bg ti = ti\<lparr>ti_color := colour_code bg OR push_bit 4 (colour_code fg)\<rparr>"

text \<open>The value of a cell: the sign-extended character plus the colour in the upper byte, cut to 16 bits.\<close>

definition cell_value :: "u8 \<Rightarrow> u8 \<Rightarrow> u16" where
  "cell_value color c = ucast ((scast c :: u32) + push_bit 8 (ucast color :: u32))"

definition kdisp_putc :: "u8 \<Rightarrow> text_info \<times> memory \<Rightarrow> text_info \<times> memory" where
  "kdisp_putc c d = (case d of (ti, m) \<Rightarrow>
     let idx = (ucast (ti_row ti * ti_width ti + ti_col ti) :: u64);
         ti = ti\<lparr>ti_col := ti_col ti + 1\<rparr>;
         m = st16 m (ti_text ti + 2 * idx) (cell_value (ti_color ti) c);
         ti = (if ti_row ti \<ge> ti_width ti
               then ti\<lparr>ti_col := ti_col ti + 1, ti_row := ti_row ti - ti_width ti\<rparr> else ti)
     in (ti, m))"

definition kdisp_setxy :: "u32 \<Rightarrow> u32 \<Rightarrow> text_info \<Rightarrow> text_info" where
  "kdisp_setxy x y ti = ti\<lparr>ti_col := x, ti_row := y\<rparr>"

text \<open>The results are stored through the two pointers unless they are null.\<close>

definition kdisp_getxy :: "u64 \<Rightarrow> u64 \<Rightarrow> text_info \<Rightarrow> memory \<Rightarrow> memory" where
  "kdisp_getxy x y ti m =
     (let m = (if x \<noteq> 0 then st32 m x (ti_col ti) else m)
      in if y \<noteq> 0 then st32 m y (ti_row ti) else m)"

definition kdisp_getwh :: "u64 \<Rightarrow> u64 \<Rightarrow> text_info \<Rightarrow> memory \<Rightarrow> memory" where
  "kdisp_getwh w h ti m =
     (let m = (if w \<noteq> 0 then st32 m w (ti_width ti) else m)
      in if h \<noteq> 0 then st32 m h (ti_height ti) else m)"

text \<open>One character of \<open>print\<close>; its call of \<open>kdisp_getxy\<close> fetches the row into a local variable.\<close>

definition print_char :: "u8 \<Rightarrow> text_info \<times> memory \<Rightarrow> text_info \<times> memory" where
  "print_char c d = (if c = 10 then (case d of (ti, m) \<Rightarrow> (kdisp_setxy 0 (ti_row ti + 1) ti, m)) else kdisp_putc c d)"

partial_function (option) print :: "u64 \<Rightarrow> text_info \<times> memory \<Rightarrow> (text_info \<times> memory) option" where
  "print x d = (let c = ld8 (snd d) x in if c \<noteq> 0 then print (x + 1) (print_char c d) else Some d)"

declare print.simps [code]

section \<open>Strings and what \<open>print\<close> writes\<close>

definition str_at :: "memory \<Rightarrow> u64 \<Rightarrow> u8 list \<Rightarrow> bool" where
  "str_at m x cs \<longleftrightarrow> 0 \<notin> set cs \<and> ld8 m (x + of_nat (length cs)) = 0 \<and> (\<forall>i<length cs. ld8 m (x + of_nat i) = cs ! i)"

lemma str_at_Cons: "str_at m x (c # cs) \<longleftrightarrow> c \<noteq> 0 \<and> ld8 m x = c \<and> str_at m (x + 1) cs"
  by (auto simp: str_at_def All_less_Suc2 add.assoc)

text \<open>Nothing but cells of the buffer changes.\<close>

definition text_frame :: "u64 \<Rightarrow> memory \<Rightarrow> memory \<Rightarrow> bool" where
  "text_frame t m m' \<longleftrightarrow> (\<forall>x. x \<notin> region t (2 ^ 33) \<longrightarrow> m' x = m x)"

lemma text_frame_refl [simp]: "text_frame t m m" by (simp add: text_frame_def)

lemma text_frame_trans: "text_frame t m m' \<Longrightarrow> text_frame t m' m'' \<Longrightarrow> text_frame t m m''" by (simp add: text_frame_def)

lemma cell_region: "region (t + 2 * ucast (i :: u32)) 2 \<subseteq> region t (2 ^ 33)"
proof -
  have "unat i < 2 ^ 32" using unsigned_less[of i] by simp
  moreover have "(2 * ucast i :: u64) = of_nat (2 * unat i)" by simp
  ultimately show ?thesis using region_sub[of "2 * unat i" 2 "2 ^ 33" t] by simp
qed

lemma print_char_frame:
  "ti_text (fst (print_char c d)) = ti_text (fst d)" "text_frame (ti_text (fst d)) (snd d) (snd (print_char c d))"
proof -
  obtain ti m where d: "d = (ti, m)" by fastforce
  show "ti_text (fst (print_char c d)) = ti_text (fst d)"
    by (simp add: d print_char_def kdisp_putc_def kdisp_setxy_def Let_def)
  have "text_frame (ti_text ti) m (st16 m (ti_text ti + 2 * ucast i) v)" for i :: u32 and v
    using cell_region m16.st_region unfolding text_frame_def by blast
  then show "text_frame (ti_text (fst d)) (snd d) (snd (print_char c d))"
    by (simp add: d print_char_def kdisp_putc_def kdisp_setxy_def Let_def)
qed

lemma fold_print_frame: "text_frame (ti_text (fst d)) (snd d) (snd (fold print_char cs d))"
proof (induction cs arbitrary: d)
  case (Cons c cs)
  show ?case using text_frame_trans[OF print_char_frame(2)] Cons.IH[of "print_char c d"] by (simp add: print_char_frame(1))
qed simp

text \<open>The string is printed character by character when it does not overlap the buffer.\<close>

definition string_apart :: "u64 \<Rightarrow> nat \<Rightarrow> u64 \<Rightarrow> bool" where
  "string_apart x n t \<longleftrightarrow> (\<forall>i\<le>n. x + of_nat i \<notin> region t (2 ^ 33))"

lemma str_at_frame:
  assumes "text_frame t m m'" "string_apart x (length cs) t" "str_at m x cs"
  shows "str_at m' x cs"
proof -
  have "ld8 m' (x + of_nat i) = ld8 m (x + of_nat i)" if "i \<le> length cs" for i
    using assms(1,2) that by (intro m8.ld_local) (simp add: text_frame_def string_apart_def)
  then show ?thesis using assms(3) by (simp add: str_at_def)
qed

lemma print_fold:
  "str_at (snd d) x cs \<Longrightarrow> string_apart x (length cs) (ti_text (fst d)) \<Longrightarrow> print x d = Some (fold print_char cs d)"
proof (induction cs arbitrary: x d)
  case Nil
  then show ?case by (subst print.simps) (simp add: str_at_def)
next
  case (Cons c cs)
  have ap: "string_apart (x + 1) (length cs) (ti_text (fst d))"
    unfolding string_apart_def
  proof (intro allI impI)
    fix i assume "i \<le> length cs"
    then show "x + 1 + of_nat i \<notin> region (ti_text (fst d)) (2 ^ 33)"
      using Cons.prems(2) unfolding string_apart_def by (auto dest!: spec[of _ "Suc i"] simp: add.assoc)
  qed
  have s: "str_at (snd d) (x + 1) cs" "c \<noteq> 0" "ld8 (snd d) x = c" using Cons.prems(1) by (auto simp: str_at_Cons)
  have "print (x + 1) (print_char c d) = Some (fold print_char cs (print_char c d))"
    by (rule Cons.IH) (use str_at_frame[OF print_char_frame(2) ap s(1)] ap in \<open>simp_all add: print_char_frame(1)\<close>)
  then show ?case using s by (subst print.simps) simp
qed

section \<open>A line of text\<close>

lemma putc_line:
  assumes "ti_row ti < ti_width ti" "c \<noteq> 10"
  shows "print_char c (ti, m) = (ti\<lparr>ti_col := ti_col ti + 1\<rparr>,
    st16 m (ti_text ti + 2 * ucast (ti_row ti * ti_width ti + ti_col ti)) (cell_value (ti_color ti) c))"
  using assms by (simp add: print_char_def kdisp_putc_def Let_def)

text \<open>The cells of the screen as an array, and the line that starts at the cursor.\<close>

definition cell_at :: "text_info \<Rightarrow> memory \<Rightarrow> nat \<Rightarrow> u16" where
  "cell_at ti m i = ld16 m (ti_text ti + 2 * of_nat i)"

definition cursor :: "text_info \<Rightarrow> nat" where
  "cursor ti = unat (ti_row ti) * unat (ti_width ti) + unat (ti_col ti)"

lemma cursor_index:
  assumes "cursor ti < 2 ^ 32"
  shows "ucast (ti_row ti * ti_width ti + ti_col ti) = (of_nat (cursor ti) :: u64)"
proof -
  have "ti_row ti * ti_width ti + ti_col ti = of_nat (cursor ti)" by (simp add: cursor_def)
  then show ?thesis using assms by (simp add: unsigned_of_nat take_bit_nat_eq_self)
qed

lemma cell_store:
  assumes "i < 2 ^ 32" "j < 2 ^ 32"
  shows "cell_at ti (st16 m (ti_text ti + 2 * of_nat i) v) j = (if j = i then v else cell_at ti m j)"
proof (cases "j = i")
  case False
  have "sep (ti_text ti + of_nat (2 * i)) 2 (ti_text ti + of_nat (2 * j)) 2"
    using False assms sep_offsets[of "2 * i" 2 "2 * j" 2 "ti_text ti"] sep_offsets[of "2 * j" 2 "2 * i" 2 "ti_text ti"]
    by (cases "i < j") (auto simp: sep_sym)
  then show ?thesis using False by (simp add: cell_at_def ld_sep)
qed (simp add: cell_at_def)

text \<open>
  The display as a client sees it: the cursor and the screen as an array of cells. A character goes to
  the cell under the cursor and moves it one column on; a newline moves it to the start of the next row.
\<close>

type_synonym screen = "(nat \<times> nat) \<times> (nat \<Rightarrow> u16)"

fun screen_char :: "nat \<Rightarrow> u8 \<Rightarrow> u8 \<Rightarrow> screen \<Rightarrow> screen" where
  "screen_char w color c ((r, k), f) =
     (if c = 10 then ((r + 1, 0), f) else ((r, k + 1), f(r * w + k := cell_value color c)))"

definition screen_rep :: "text_info \<times> memory \<Rightarrow> screen \<Rightarrow> bool" where
  "screen_rep d z \<longleftrightarrow> (case d of (ti, m) \<Rightarrow>
     fst z = (unat (ti_row ti), unat (ti_col ti)) \<and> (\<forall>j<2 ^ 32. cell_at ti m j = snd z j))"

text \<open>There are rows left for the newlines and cells left for the characters.\<close>

definition screen_room :: "text_info \<Rightarrow> u8 list \<Rightarrow> bool" where
  "screen_room ti cs \<longleftrightarrow>
     (let r = unat (ti_row ti) + count_list cs 10; w = unat (ti_width ti)
      in r < w \<and> r * w + unat (ti_col ti) + length cs < 2 ^ 32)"

lemma screen_step:
  assumes room: "screen_room ti (c # cs)" and rep: "screen_rep (ti, m) z"
  shows "screen_rep (print_char c (ti, m)) (screen_char (unat (ti_width ti)) (ti_color ti) c z)"
    and "screen_room (fst (print_char c (ti, m))) cs"
    and "ti_width (fst (print_char c (ti, m))) = ti_width ti" "ti_color (fst (print_char c (ti, m))) = ti_color ti"
proof -
  obtain f where z: "z = ((unat (ti_row ti), unat (ti_col ti)), f)" and f: "\<forall>j<2 ^ 32. cell_at ti m j = f j"
    using rep by (cases z) (auto simp: screen_rep_def)
  have le: "unat (ti_row ti) * unat (ti_width ti) \<le> (unat (ti_row ti) + count_list (c # cs) 10) * unat (ti_width ti)"
    by (rule mult_le_mono1) simp
  have b: "ti_row ti < ti_width ti" "cursor ti + 1 < 2 ^ 32" "unat (ti_col ti) + 1 < 2 ^ 32"
    using room le unfolding screen_room_def Let_def cursor_def word_less_nat_alt by (simp_all only: list.size)  linarith+
  have "unat (ti_width ti) < 2 ^ 32" using unsigned_less[of "ti_width ti"] by simp
  then have r1: "unat (ti_row ti + 1) = unat (ti_row ti) + 1" if "c = 10"
    using room that unfolding screen_room_def Let_def by (simp add: unat_plus_if')
  have c1: "unat (ti_col ti + 1) = unat (ti_col ti) + 1" using b(3) by (simp add: unat_plus_if')
  have pc: "print_char c (ti, m) = (if c = 10 then (ti\<lparr>ti_col := 0, ti_row := ti_row ti + 1\<rparr>, m)
     else (ti\<lparr>ti_col := ti_col ti + 1\<rparr>, st16 m (ti_text ti + 2 * of_nat (cursor ti)) (cell_value (ti_color ti) c)))"
    using putc_line[OF b(1), of c m] cursor_index[of ti] b(2) by (simp add: print_char_def kdisp_setxy_def)
  have e: "cell_at (ti\<lparr>ti_col := k\<rparr>) = cell_at ti" "cell_at (ti\<lparr>ti_col := k, ti_row := r\<rparr>) = cell_at ti" for k r
    by (simp_all add: cell_at_def fun_eq_iff)
  show "screen_rep (print_char c (ti, m)) (screen_char (unat (ti_width ti)) (ti_color ti) c z)"
    using f b(2) c1 r1 cell_store[of "cursor ti" _ ti m] unfolding z pc screen_rep_def
    by (simp add: e cursor_def)
  show "screen_room (fst (print_char c (ti, m))) cs"
    using room c1 r1 unfolding screen_room_def Let_def pc by (auto simp: algebra_simps)
  show "ti_width (fst (print_char c (ti, m))) = ti_width ti" "ti_color (fst (print_char c (ti, m))) = ti_color ti"
    by (simp_all add: pc)
qed

lemma screen_fold:
  "screen_room (fst d) cs \<Longrightarrow> screen_rep d z \<Longrightarrow>
   screen_rep (fold print_char cs d) (fold (screen_char (unat (ti_width (fst d))) (ti_color (fst d))) cs z)"
proof (induction cs arbitrary: d z)
  case (Cons c cs)
  obtain ti m where d: "d = (ti, m)" by fastforce
  show ?case using Cons.IH[OF screen_step(2,1)] screen_step(3,4) Cons.prems unfolding d by simp
qed simp

text \<open>
  C25. Printing a string returns. The cells and the cursor become what the client expects: each character
  in the current colour at the cursor, row by row, every other cell of the screen as it was, and nothing
  outside the buffer changed. The hypotheses say that the string ends, lies outside the buffer and that
  the rows stay below the width, the quantity the code compares them with. In particular a line longer
  than the width is not wrapped: its column runs past the width.
\<close>

theorem print_correct:
  assumes "str_at m x cs" and "string_apart x (length cs) (ti_text ti)" and "screen_room ti cs"
    and "screen_rep (ti, m) z"
  shows "\<exists>ti' m'. print x (ti, m) = Some (ti', m') \<and>
    screen_rep (ti', m') (fold (screen_char (unat (ti_width ti)) (ti_color ti)) cs z) \<and> text_frame (ti_text ti) m m'"
  using print_fold[of "(ti, m)" x cs] screen_fold[of "(ti, m)" cs z] fold_print_frame[of "(ti, m)" cs] assms
  by (cases "fold print_char cs (ti, m)") simp

definition demo_text :: memory where
  "demo_text = (\<lambda>_. 0)(0x1000 := 72, 0x1001 := 10, 0x1002 := 105)"

theorem print_correct_witness:
  "\<exists>ti' m'. print 0x1000 (\<lparr>ti_text = 0xB8000, ti_width = 80, ti_height = 25, ti_row = 3, ti_col = 5, ti_color = 0x0F\<rparr>, demo_text)
     = Some (ti', m') \<and> screen_rep (ti', m') ((4, 1), (\<lambda>_. 0)(245 := 0x0F48, 320 := 0x0F69))"
proof -
  let ?ti = "\<lparr>ti_text = 0xB8000, ti_width = 80, ti_height = 25, ti_row = 3, ti_col = 5, ti_color = 0x0F\<rparr>"
  have 1: "str_at demo_text 0x1000 [72, 10, 105]"
    by code_simp
  have 2: "string_apart 0x1000 (length [72, 10, 105 :: u8]) (ti_text ?ti)"
    by (simp add: string_apart_def region_def le_Suc_eq all_conj_distrib)
  have 3: "screen_room ?ti [72, 10, 105]" by (simp add: screen_room_def)
  have 4: "screen_rep (?ti, demo_text) ((3, 5), \<lambda>_. 0)"
  proof -
    have z: "demo_text y = 0" if "y \<in> region 0xB8000 (2 ^ 33)" for y
      using that by (auto simp: demo_text_def region_def)
    have "ld16 demo_text (0xB8000 + of_nat (2 * j)) = ld16 (\<lambda>_. 0) (0xB8000 + of_nat (2 * j))" if "j < 2 ^ 32" for j
      by (rule m16.ld_frame[of "0xB8000" "2 ^ 33"]) (use z that in simp_all)
    then have "ld16 demo_text (0xB8000 + 2 * of_nat j) = 0" if "j < 2 ^ 32" for j
      using that by (simp add: ld16_def ldn_zero)
    then show ?thesis by (simp add: screen_rep_def cell_at_def)
  qed
  have c: "cell_value 0x0F 72 = 0x0F48" "cell_value 0x0F 105 = 0x0F69" by code_simp+
  show ?thesis using print_correct[OF 1 2 3 4] by (auto simp: c)
qed

end
