(* ===== verification/Common_Boot.thy ===== *)
theory Common_Boot
  imports Pmm
begin

text \<open>
  The memory survey at boot (\<^verbatim>\<open>kernel/boot/common_boot.c\<close>): the area the page tables of the loader occupy,
  the search for a range of memory that no unsafe range touches, and the size of the stack of free pages.
  The code runs on the identity map, so addresses are physical.
\<close>

section \<open>Operations\<close>

text \<open>An entry is read as an address by clearing the lower 12 bits and the top bit, which is set again under a condition.\<close>

definition boot_table :: "u64 \<Rightarrow> u64" where
  "boot_table e = (let p = e AND 0x7FFFFFFFFFFFF000
                   in if p AND 0xf00000000000000 \<noteq> 0 then p OR 0x8000000000000000 else p)"

definition widen :: "u64 \<Rightarrow> u64 \<times> u64 \<Rightarrow> u64 \<times> u64" where
  "widen p se = (let se = (if p < fst se then (p, snd se) else se) in if p > snd se then (fst se, p) else se)"

definition area_pt :: "memory \<Rightarrow> u64 \<Rightarrow> nat \<Rightarrow> u64 \<times> u64 \<Rightarrow> u64 \<times> u64" where
  "area_pt m pdt k se =
     (let e = ld64 m (pdt + 8 * of_nat k); pt = boot_table e
      in if pt = 0 then se else if e AND push_bit 7 1 \<noteq> 0 then se else widen pt se)"

definition area_pdt :: "memory \<Rightarrow> u64 \<Rightarrow> nat \<Rightarrow> u64 \<times> u64 \<Rightarrow> u64 \<times> u64" where
  "area_pdt m pdpt j se =
     (let e = ld64 m (pdpt + 8 * of_nat j); pdt = boot_table e
      in if pdt = 0 then se else if e AND push_bit 7 1 \<noteq> 0 then se
         else fold (area_pt m pdt) [0..<512] (widen pdt se))"

definition area_pdpt :: "memory \<Rightarrow> u64 \<Rightarrow> nat \<Rightarrow> u64 \<times> u64 \<Rightarrow> u64 \<times> u64" where
  "area_pdpt m pml4t i se =
     (let e = ld64 m (pml4t + 8 * of_nat i); pdpt = boot_table e
      in if pdpt = 0 then se else if e AND push_bit 7 1 \<noteq> 0 then se
         else fold (area_pdt m pdpt) [0..<512] (widen pdpt se))"

definition get_page_table_area :: "'z machine_scheme \<Rightarrow> u64 \<times> u64" where
  "get_page_table_area s =
     (let pml4t = cr3 s;
          se = fold (area_pdpt (mem s) pml4t) [0..<512] (pml4t, pml4t)
      in (fst se, snd se + 0x1000))"

text \<open>The first unsafe range that has the address strictly inside.\<close>

fun unsafe_hit :: "u64 \<Rightarrow> memory_range list \<Rightarrow> u64 option" where
  "unsafe_hit ptr [] = None"
| "unsafe_hit ptr (r # rs) = (if ptr > mr_start r \<and> ptr < mr_end r then Some (mr_end r) else unsafe_hit ptr rs)"

partial_function (option) bounds_loop :: "u64 \<Rightarrow> u64 \<Rightarrow> memory_range list \<Rightarrow> u64 \<Rightarrow> u64 \<Rightarrow> u64 option" where
  "bounds_loop check_end req_size unsafe ptr count =
     (if ptr < check_end
      then if count \<ge> req_size then Some (ptr - count)
           else case unsafe_hit ptr unsafe of
                  Some e \<Rightarrow> bounds_loop check_end req_size unsafe (e + 1) 1
                | None \<Rightarrow> bounds_loop check_end req_size unsafe (ptr + 1) (count + 1)
      else Some 0)"

declare bounds_loop.simps [code]

definition check_memory_bounds :: "u64 \<Rightarrow> u64 \<Rightarrow> u64 \<Rightarrow> memory_range list \<Rightarrow> u64 option" where
  "check_memory_bounds base len req_size unsafe = bounds_loop (base + len) req_size unsafe base 0"

definition get_stack_size :: "memory \<Rightarrow> u64 \<Rightarrow> u32 \<Rightarrow> u64" where
  "get_stack_size m mmap entries =
     fold (\<lambda>i size. if mmap_type m mmap i = 1 then size + mmap_length m mmap i div 4096 * 8 else size)
       [0..<unat entries] 0"

section \<open>The area of the page tables\<close>

text \<open>The tables an array of 512 entries refers to, and all tables in the order of the three loops.\<close>

definition sub_tables :: "memory \<Rightarrow> u64 \<Rightarrow> u64 list" where
  "sub_tables m p = map boot_table (filter (\<lambda>e. boot_table e \<noteq> 0 \<and> e AND push_bit 7 1 = 0)
     (map (\<lambda>i. ld64 m (p + 8 * of_nat i)) [0..<512]))"

definition boot_tables :: "memory \<Rightarrow> u64 \<Rightarrow> u64 list" where
  "boot_tables m r = r # concat (map (\<lambda>pdpt. pdpt # concat (map (\<lambda>pdt. pdt # sub_tables m pdt) (sub_tables m pdpt)))
     (sub_tables m r))"

lemma widen_min_max: "a \<le> b \<Longrightarrow> widen p (a, b) = (min p a, max p b)"
  by (auto simp: widen_def min_def max_def Let_def not_le)

lemma table_loop:
  "fold (\<lambda>i se. let e = ld64 m (p + 8 * of_nat i); q = boot_table e
                 in if q = 0 then se else if e AND push_bit 7 1 \<noteq> 0 then se else h q se) [0..<512] se =
   fold h (sub_tables m p) se"
proof -
  have "fold (\<lambda>i se. let e = f i; q = boot_table e in if q = 0 then se else if e AND b \<noteq> 0 then se else h q se) xs se =
     fold h (map boot_table (filter (\<lambda>e. boot_table e \<noteq> 0 \<and> e AND b = 0) (map f xs))) se" for f b xs
    by (induction xs arbitrary: se) (simp_all add: Let_def)
  then show ?thesis unfolding sub_tables_def .
qed

lemma fold_concat_map: "fold f (concat (map g xs)) s = fold (\<lambda>x. fold f (g x)) xs s"
  by (induction xs arbitrary: s) simp_all

lemma area_loops:
  "fold (area_pt m p) [0..<512] se = fold widen (sub_tables m p) se"
  "fold (area_pdt m p) [0..<512] se = fold widen (concat (map (\<lambda>pdt. pdt # sub_tables m pdt) (sub_tables m p))) se"
  "fold (area_pdpt m p) [0..<512] se = fold widen
     (concat (map (\<lambda>pdpt. pdpt # concat (map (\<lambda>pdt. pdt # sub_tables m pdt) (sub_tables m pdpt))) (sub_tables m p))) se"
proof -
  show 1: "fold (area_pt m p) [0..<512] se = fold widen (sub_tables m p) se" for p se
    unfolding area_pt_def by (rule table_loop)
  show 2: "fold (area_pdt m p) [0..<512] se = fold widen (concat (map (\<lambda>pdt. pdt # sub_tables m pdt) (sub_tables m p))) se"
    for p se unfolding area_pdt_def 1 table_loop by (simp add: fold_concat_map comp_def)
  show "fold (area_pdpt m p) [0..<512] se = fold widen
     (concat (map (\<lambda>pdpt. pdpt # concat (map (\<lambda>pdt. pdt # sub_tables m pdt) (sub_tables m pdpt))) (sub_tables m p))) se"
    unfolding area_pdpt_def 2 table_loop by (simp add: fold_concat_map comp_def)
qed

lemma fold_widen: "fold widen ps (a, b) = (fold min ps a, fold max ps b)" if "a \<le> b"
  using that by (induction ps arbitrary: a b) (auto simp: widen_min_max min_def max_def)

text \<open>
  C28. The area is the interval from the lowest table to the end of the highest one: the result is computed
  by three nested loops and equals the minimum and the maximum over all tables that the root refers to
  through at most three levels.
\<close>

theorem get_page_table_area_correct:
  "get_page_table_area s = (Min (set (boot_tables (mem s) (cr3 s))), Max (set (boot_tables (mem s) (cr3 s))) + 0x1000)"
proof -
  let ?ps = "tl (boot_tables (mem s) (cr3 s))"
  have "boot_tables (mem s) (cr3 s) = cr3 s # ?ps" by (simp add: boot_tables_def)
  moreover have "get_page_table_area s = (fold min ?ps (cr3 s), fold max ?ps (cr3 s) + 0x1000)"
    unfolding get_page_table_area_def Let_def area_loops by (simp add: boot_tables_def fold_widen)
  ultimately show ?thesis using Min.set_eq_fold[of "cr3 s" ?ps] Max.set_eq_fold[of "cr3 s" ?ps] by simp
qed

section \<open>The search for safe memory\<close>

lemma unsafe_hit_None: "unsafe_hit p rs = None \<longleftrightarrow> (\<forall>r\<in>set rs. \<not> (mr_start r < p \<and> p < mr_end r))"
  by (induction rs) auto

lemma unsafe_hit_Some: "unsafe_hit p rs = Some e \<Longrightarrow> \<exists>r\<in>set rs. mr_start r < p \<and> p < mr_end r \<and> e = mr_end r"
  by (induction rs) (auto split: if_splits)

text \<open>A window of the required size inside the range that no unsafe range meets.\<close>

definition free_window :: "u64 \<Rightarrow> u64 \<Rightarrow> u64 \<Rightarrow> memory_range list \<Rightarrow> u64 \<Rightarrow> bool" where
  "free_window base len req unsafe p \<longleftrightarrow>
     unat base \<le> unat p \<and> unat p + unat req < unat base + unat len \<and>
     (\<forall>x. unat p \<le> unat x \<and> unat x < unat p + unat req \<longrightarrow> \<not> list_ex (is_in_range x) unsafe)"

text \<open>What the loop has established of the bytes it counted: none after the first is inside an unsafe range.\<close>

definition inner_free :: "memory_range list \<Rightarrow> nat \<Rightarrow> nat \<Rightarrow> bool" where
  "inner_free unsafe p n \<longleftrightarrow>
     (\<forall>x. p < unat x \<and> unat x < p + n \<longrightarrow> (\<forall>r\<in>set unsafe. \<not> (mr_start r < x \<and> x < mr_end r)))"

definition bounds_inv :: "u64 \<Rightarrow> u64 \<Rightarrow> u64 \<Rightarrow> memory_range list \<Rightarrow> u64 \<Rightarrow> u64 \<Rightarrow> bool" where
  "bounds_inv base len req unsafe ptr count \<longleftrightarrow>
     unat base + unat count \<le> unat ptr \<and> count \<le> req \<and> inner_free unsafe (unat ptr - unat count) (unat count) \<and>
     (\<forall>q. free_window base len req unsafe q \<longrightarrow> unat ptr - unat count \<le> unat q) \<and>
     ptr - count \<in> insert base (mr_end ` set unsafe)"

lemma unat_inc: "unat (x + 1) = unat x + 1" if "x < y" for x y :: u64
  using that unat_u64_less[of y] by (simp add: word_less_nat_alt unat_plus_if')

lemma free_window_out:
  assumes "free_window base len req unsafe q" "r \<in> set unsafe" "mr_start r \<le> x" "x < mr_end r"
  shows "unat x < unat q \<or> unat q + unat req \<le> unat x"
  using assms unfolding free_window_def list_ex_iff is_in_range_def by (meson not_le)

lemma bounds_inv_next:
  assumes inv: "bounds_inv base len req unsafe ptr count" and "ptr < base + len" "count < req" "unsafe_hit ptr unsafe = None"
  shows "bounds_inv base len req unsafe (ptr + 1) (count + 1)"
proof -
  have u: "unat (ptr + 1) = unat ptr + 1" "unat (count + 1) = unat count + 1"
    using unat_inc assms(2,3) by blast+
  have "inner_free unsafe (unat ptr - unat count) (unat count + 1)"
    unfolding inner_free_def
  proof (intro allI impI)
    fix x :: u64 assume x: "unat ptr - unat count < unat x \<and> unat x < unat ptr - unat count + (unat count + 1)"
    show "\<forall>r\<in>set unsafe. \<not> (mr_start r < x \<and> x < mr_end r)"
    proof (cases "x = ptr")
      case True
      then show ?thesis using assms(4) by (simp add: unsafe_hit_None)
    next
      case False
      then have "unat x \<noteq> unat ptr" using word_unat_eq_iff by blast
      then show ?thesis using inv x unfolding bounds_inv_def inner_free_def by auto
    qed
  qed
  moreover have "count + 1 \<le> req" using assms(3) u(2) by (simp add: word_le_nat_alt word_less_nat_alt)
  ultimately show ?thesis using inv by (simp add: bounds_inv_def u)
qed

lemma bounds_inv_hit:
  assumes inv: "bounds_inv base len req unsafe ptr count" and "count < req" and r: "r \<in> set unsafe"
    "mr_start r < ptr" "ptr < mr_end r" and e: "unat (mr_end r + 1) = unat (mr_end r) + 1"
  shows "bounds_inv base len req unsafe (mr_end r + 1) 1"
proof -
  have "unat (mr_end r) \<le> unat q" if q: "free_window base len req unsafe q" for q
  proof (rule ccontr)
    assume "\<not> unat (mr_end r) \<le> unat q"
    then have q2: "q < mr_end r" by (simp add: word_less_nat_alt)
    have "unat ptr - unat count \<le> unat q" "unat count \<le> unat ptr" "unat count < unat req"
      using inv q assms(2) by (auto simp: bounds_inv_def word_less_nat_alt)
    then have "unat ptr < unat q" using free_window_out[OF q r(1) _ r(3)] less_imp_le[OF r(2)] by linarith
    then have "mr_start r < q" using r(2) by (auto simp: word_less_nat_alt)
    then show False using free_window_out[OF q r(1) less_imp_le q2] assms(2) by (auto simp: word_less_nat_alt)
  qed
  moreover have "unat base \<le> unat (mr_end r)" using inv r(3) by (auto simp: bounds_inv_def word_less_nat_alt)
  moreover have "1 \<le> req" using assms(2) by (simp add: word_le_nat_alt word_less_nat_alt)
  ultimately show ?thesis using r(1) by (auto simp: bounds_inv_def e inner_free_def)
qed

text \<open>What the result promises, and that the search returns it.\<close>

definition bounds_post :: "u64 \<Rightarrow> u64 \<Rightarrow> u64 \<Rightarrow> memory_range list \<Rightarrow> u64 \<Rightarrow> bool" where
  "bounds_post base len req unsafe p \<longleftrightarrow>
     (if p = 0 then unat base = 0 \<or> (\<forall>q. \<not> free_window base len req unsafe q)
      else unat base \<le> unat p \<and> unat p + unat req < unat base + unat len \<and> inner_free unsafe (unat p) (unat req) \<and>
        (\<forall>q. free_window base len req unsafe q \<longrightarrow> p \<le> q) \<and> p \<in> insert base (mr_end ` set unsafe))"

lemma bounds_loop_spec:
  assumes "unat base + unat len < 2 ^ 64" "\<forall>r\<in>set unsafe. mr_end r \<noteq> - 1"
  shows "bounds_inv base len req unsafe ptr count \<Longrightarrow>
    \<exists>p. bounds_loop (base + len) req unsafe ptr count = Some p \<and> bounds_post base len req unsafe p"
proof (induction "unat (base + len) - unat ptr" arbitrary: ptr count rule: less_induct)
  case less
  have bl: "unat (base + len) = unat base + unat len" using assms(1) by (simp add: unat_plus_if')
  show ?case
  proof (cases "ptr < base + len")
    case False
    have "\<not> free_window base len req unsafe q" for q
    proof
      assume "free_window base len req unsafe q"
      then show False using less.prems False bl
        by (auto simp: bounds_inv_def free_window_def word_less_nat_alt word_le_nat_alt)
    qed
    then show ?thesis using False by (subst bounds_loop.simps) (simp add: bounds_post_def)
  next
    case True
    show ?thesis
    proof (cases "count \<ge> req")
      case T: True
      then have [simp]: "count = req" using less.prems by (simp add: bounds_inv_def)
      have "unat (ptr - req) = unat ptr - unat req"
        using less.prems by (simp add: bounds_inv_def unat_sub_if' word_le_nat_alt)
      then have "bounds_post base len req unsafe (ptr - req)"
        using less.prems True bl by (auto simp: bounds_inv_def bounds_post_def word_less_nat_alt word_le_nat_alt)
      then show ?thesis using True by (subst bounds_loop.simps) simp
    next
      case F: False
      show ?thesis
      proof (cases "unsafe_hit ptr unsafe")
        case None
        then show ?thesis
          using less.hyps[OF _ bounds_inv_next[OF less.prems True _ None]] True F unat_inc[OF True]
          by (subst bounds_loop.simps) (simp add: word_less_nat_alt word_le_nat_alt not_le diff_less_mono2)
      next
        case (Some e)
        then obtain r where r: "r \<in> set unsafe" "mr_start r < ptr" "ptr < mr_end r" "e = mr_end r"
          using unsafe_hit_Some by blast
        have "mr_end r < - 1" using assms(2) r(1) by (simp add: word_order.not_eq_extremum)
        then have e: "unat (mr_end r + 1) = unat (mr_end r) + 1" by (rule unat_inc)
        show ?thesis
          using less.hyps[OF _ bounds_inv_hit[OF less.prems _ r(1-3) e]] True F r e Some
          by (subst bounds_loop.simps) (simp add: word_less_nat_alt word_le_nat_alt not_le diff_less_mono2)
      qed
    qed
  qed
qed

lemma check_memory_bounds_spec:
  assumes "unat base + unat len < 2 ^ 64" "\<forall>r\<in>set unsafe. mr_end r \<noteq> - 1"
  shows "\<exists>p. check_memory_bounds base len req unsafe = Some p \<and> bounds_post base len req unsafe p"
proof -
  have "bounds_inv base len req unsafe base 0" by (auto simp: bounds_inv_def inner_free_def free_window_def)
  then show ?thesis unfolding check_memory_bounds_def by (rule bounds_loop_spec[OF assms])
qed

text \<open>Where all bounds are multiples of eight, the one byte the strict comparison misses cannot matter.\<close>

lemma inner_free_aligned:
  assumes "inner_free unsafe (unat p) (unat req)" "r \<in> set unsafe" "unat p \<le> unat x" "unat x < unat p + unat req"
    and al: "8 dvd unat p" "8 dvd unat req" "8 dvd unat (mr_start r)" "8 dvd unat (mr_end r)"
    and fit: "unat p + unat req < 2 ^ 64"
  shows "\<not> is_in_range x r"
proof
  assume "is_in_range x r"
  then have x: "unat (mr_start r) \<le> unat x" "unat x < unat (mr_end r)"
    by (simp_all add: is_in_range_def word_le_nat_alt word_less_nat_alt)
  define y where "y = (if 8 dvd unat x then x + 1 else x)"
  have y: "unat y = (if 8 dvd unat x then unat x + 1 else unat x)"
    using assms(4) fit by (simp add: y_def unat_plus_if')
  have lt: "unat x + 1 < b" if "8 dvd unat x" "8 dvd b" "unat x < b" for b using that by (elim dvdE) auto
  have "unat p < unat y" "unat y < unat p + unat req" "unat (mr_start r) < unat y" "unat y < unat (mr_end r)"
    using x assms(3,4) al lt[of "unat p + unat req"] lt[of "unat (mr_end r)"]
    by (auto simp: y le_less dvd_add split: if_splits)
  then show False using assms(1,2) by (auto simp: inner_free_def word_less_nat_alt)
qed

lemma check_bounds_window:
  assumes "unat base + unat len < 2 ^ 64" "\<forall>r\<in>set unsafe. mr_end r \<noteq> - 1"
    and "8 dvd unat base" "8 dvd unat req" "\<forall>r\<in>set unsafe. 8 dvd unat (mr_start r) \<and> 8 dvd unat (mr_end r)"
    and "check_memory_bounds base len req unsafe = Some p" "p \<noteq> 0"
  shows "free_window base len req unsafe p"
proof -
  have post: "bounds_post base len req unsafe p" using check_memory_bounds_spec[OF assms(1,2), of req] assms(6) by auto
  then have al: "8 dvd unat p" using assms(3,5,7) by (auto simp: bounds_post_def)
  have "\<not> is_in_range x r" if "r \<in> set unsafe" "unat p \<le> unat x" "unat x < unat p + unat req" for x r
    by (rule inner_free_aligned[OF _ that al assms(4)]) (use post assms that in \<open>auto simp: bounds_post_def\<close>)
  then show ?thesis using post assms(7) by (auto simp: bounds_post_def free_window_def list_ex_iff)
qed

section \<open>Properties of the survey\<close>

text \<open>
  C11. The search returns. A result other than null is the lowest window that fits strictly inside the
  range: no byte of it after the first is strictly inside an unsafe range, and every window free of unsafe
  memory starts at or above it. With a base other than null, the result null means that there is no such
  window.
\<close>

theorem check_memory_bounds_first_fit:
  assumes "unat base + unat len < 2 ^ 64" "\<forall>r\<in>set unsafe. mr_end r \<noteq> - 1"
  shows "\<exists>p. check_memory_bounds base len req unsafe = Some p \<and>
    (p \<noteq> 0 \<longrightarrow> unat base \<le> unat p \<and> unat p + unat req < unat base + unat len \<and> inner_free unsafe (unat p) (unat req) \<and>
       (\<forall>q. free_window base len req unsafe q \<longrightarrow> p \<le> q)) \<and>
    (p = 0 \<and> base \<noteq> 0 \<longrightarrow> (\<forall>q. \<not> free_window base len req unsafe q))"
proof -
  obtain p where "check_memory_bounds base len req unsafe = Some p" "bounds_post base len req unsafe p"
    using check_memory_bounds_spec[OF assms] by blast
  then show ?thesis by (intro exI[of _ p]) (auto simp: bounds_post_def unat_eq_0 split: if_splits)
qed

theorem check_memory_bounds_first_fit_witness:
  "check_memory_bounds 0x1000 0x40 0x10 [\<lparr>mr_start = 0x1004, mr_end = 0x1010\<rparr>] = Some 0x1010 \<and>
   inner_free [\<lparr>mr_start = 0x1004, mr_end = 0x1010\<rparr>] 0x1010 0x10"
proof -
  have "check_memory_bounds 0x1000 0x40 0x10 [\<lparr>mr_start = 0x1004, mr_end = 0x1010\<rparr>] = Some 0x1010" by code_simp
  then show ?thesis
    using check_memory_bounds_first_fit[of "0x1000" "0x40" "[\<lparr>mr_start = 0x1004, mr_end = 0x1010\<rparr>]" "0x10"] by auto
qed

text \<open>
  C10. Where the bounds of the unsafe ranges, the base and the size are multiples of eight, as they are at
  boot, the memory that the search returns meets no unsafe range at all and stays inside the given range.
\<close>

theorem check_memory_bounds_safe:
  assumes "unat base + unat len < 2 ^ 64" "\<forall>r\<in>set unsafe. mr_end r \<noteq> - 1"
    and "8 dvd unat base" "8 dvd unat req" "\<forall>r\<in>set unsafe. 8 dvd unat (mr_start r) \<and> 8 dvd unat (mr_end r)"
    and "check_memory_bounds base len req unsafe = Some p" "p \<noteq> 0"
  shows "free_window base len req unsafe p"
  by (rule check_bounds_window[OF assms])

theorem check_memory_bounds_safe_witness:
  "free_window 0x1000 0x40 0x10 [\<lparr>mr_start = 0x1000, mr_end = 0x1010\<rparr>] 0x1010"
proof -
  have "check_memory_bounds 0x1000 0x40 0x10 [\<lparr>mr_start = 0x1000, mr_end = 0x1010\<rparr>] = Some 0x1010" by code_simp
  then show ?thesis by (intro check_memory_bounds_safe) simp_all
qed

section \<open>The size of the stack of free pages\<close>

definition stack_entries :: "memory \<Rightarrow> u64 \<Rightarrow> nat \<Rightarrow> nat" where
  "stack_entries m mmap n = (\<Sum>i\<leftarrow>[0..<n]. if mmap_type m mmap i = 1 then unat (mmap_length m mmap i) div 4096 else 0)"

lemma stack_entries_Suc: "stack_entries m mmap (Suc n) =
    stack_entries m mmap n + (if mmap_type m mmap n = 1 then unat (mmap_length m mmap n) div 4096 else 0)"
  by (simp add: stack_entries_def)

lemma stack_entries_mono: "k \<le> n \<Longrightarrow> stack_entries m mmap k \<le> stack_entries m mmap n"
  by (rule lift_Suc_mono_le) (auto simp: stack_entries_Suc)

lemma get_stack_size_sum:
  assumes "8 * stack_entries m mmap (unat entries) < 2 ^ 64"
  shows "unat (get_stack_size m mmap entries) = 8 * stack_entries m mmap (unat entries)"
proof -
  let ?f = "\<lambda>i size. if mmap_type m mmap i = 1 then size + mmap_length m mmap i div 4096 * 8 else size"
  have "unat (fold ?f [0..<n] 0) = 8 * stack_entries m mmap n" if "n \<le> unat entries" for n
    using that
  proof (induction n)
    case 0
    show ?case by (simp add: stack_entries_def)
  next
    case (Suc n)
    have b: "8 * stack_entries m mmap (Suc n) < 2 ^ 64" using stack_entries_mono[OF Suc.prems, of m mmap] assms by simp
    have "unat (mmap_length m mmap n div 4096 * 8) = unat (mmap_length m mmap n) div 4096 * 8"
      using unat_u64_less[of "mmap_length m mmap n"] by (simp add: unat_word_ariths unat_div)
    then show ?case using Suc b by (cases "mmap_type m mmap n = 1") (simp_all add: stack_entries_Suc unat_plus_if' mult.commute)
  qed
  then show ?thesis by (simp add: get_stack_size_def)
qed

lemma length_candidates_le:
  assumes "\<forall>i<n. mmap_type m mmap i = 1 \<longrightarrow> no_wrap (mmap_base m mmap i) (mmap_length m mmap i)"
  shows "length (candidates m mmap n) \<le> stack_entries m mmap n"
  using assms
proof (induction n)
  case (Suc n)
  then show ?case
    using length_pages_of[of "mmap_base m mmap n" "mmap_length m mmap n"]
    by (auto simp: candidates_Suc stack_entries_Suc entry_pages_def add_mono)
qed (simp add: candidates_def)

text \<open>
  C12. The size that \<open>get_stack_size\<close> computes is enough: it is eight bytes for each page that the
  initialisation of the page stack can push, whatever the alignment of the ranges in the memory map.
\<close>

theorem get_stack_size_enough:
  assumes "\<forall>i<unat entries. mmap_type m mmap i = 1 \<longrightarrow> no_wrap (mmap_base m mmap i) (mmap_length m mmap i)"
    and "stack_entries m mmap (unat entries) < 2 ^ 61"
  shows "8 * length (candidates m mmap (unat entries)) \<le> unat (get_stack_size m mmap entries)"
  using length_candidates_le[OF assms(1)] get_stack_size_sum[of m mmap entries] assms(2) by simp

theorem get_stack_size_enough_witness:
  "8 * length (candidates demo_map 0x8000 (unat (1 :: u32))) \<le> unat (get_stack_size demo_map 0x8000 1)"
  by (rule get_stack_size_enough) (simp_all add: no_wrap_def stack_entries_def)

end
