(* ===== verification/Multiboot.thy ===== *)
theory Multiboot
  imports Prelude "HOL-Library.Monad_Syntax"
begin

text \<open>
  Reading the information of the boot loader (\<^verbatim>\<open>kernel/boot/main.c\<close>, \<open>interpret_tag\<close> and
  \<open>interpret_multiboot\<close>). The structure is a sequence of tags in memory, each with a type, a size and its
  data, padded to eight bytes; a tag of type 0 ends it. A division by zero is the value \<open>None\<close>.
\<close>

section \<open>Data and operations\<close>

record mb_info =
  mmap_count :: u32
  mmap_map :: u64
  acpi_version :: u32
  acpi_rsdp :: u64
  mb_text_ptr :: u64
  mb_text_width :: u32
  mb_text_height :: u32

definition interpret_tag :: "memory \<Rightarrow> u32 \<Rightarrow> u32 \<Rightarrow> u64 \<Rightarrow> mb_info \<Rightarrow> mb_info option" where
  "interpret_tag m ty sz data info =
     (if ty = 6 then
        (if ld32 m data = 0 then None
         else Some (info\<lparr>mmap_count := sz div ld32 m data, mmap_map := data + 8\<rparr>))
      else if ty = 8 then
        Some (if ld8 m (data + 12 + 8 + 1) = 2
              then info\<lparr>mb_text_ptr := ld64 m data, mb_text_width := ld32 m (data + 12),
                        mb_text_height := ld32 m (data + 12 + 4)\<rparr>
              else info)
      else if ty = 14 then
        Some (if acpi_version info < 1 then info\<lparr>acpi_rsdp := data, acpi_version := 1\<rparr> else info)
      else if ty = 15 then
        Some (if acpi_version info < 2 then info\<lparr>acpi_rsdp := data, acpi_version := 2\<rparr> else info)
      else Some info)"

text \<open>The size of a tag in 32-bit words, rounded up to a multiple of eight bytes.\<close>

definition tag_words :: "u32 \<Rightarrow> u32" where
  "tag_words sz = (if sz mod 8 \<noteq> 0 then sz + (8 - sz mod 8) else sz) div 4"

partial_function (option) interpret_tags :: "memory \<Rightarrow> u64 \<Rightarrow> mb_info \<Rightarrow> mb_info option" where
  "interpret_tags m mb info =
     (if ld32 m mb \<noteq> 0
      then do { info \<leftarrow> interpret_tag m (ld32 m mb) (ld32 m (mb + 4)) (mb + 8) info;
                interpret_tags m (mb + 4 * ucast (tag_words (ld32 m (mb + 4)))) info }
      else Some info)"

declare interpret_tags.simps [code]

definition interpret_multiboot :: "memory \<Rightarrow> u64 \<Rightarrow> mb_info \<Rightarrow> mb_info option" where
  "interpret_multiboot m mb info = interpret_tags m (mb + 8) info"

section \<open>The sequence of tags\<close>

text \<open>A tag is its type, its size and the address of its data.\<close>

record mb_tag =
  tg_type :: u32
  tg_size :: u32
  tg_data :: u64

fun tags_at :: "memory \<Rightarrow> u64 \<Rightarrow> mb_tag list \<Rightarrow> bool" where
  "tags_at m p [] \<longleftrightarrow> ld32 m p = 0"
| "tags_at m p (t # ts) \<longleftrightarrow> ld32 m p = tg_type t \<and> tg_type t \<noteq> 0 \<and> ld32 m (p + 4) = tg_size t \<and> tg_data t = p + 8 \<and>
     tags_at m (p + 4 * ucast (tag_words (tg_size t))) ts"

text \<open>What the tags say: the last memory map, the last text framebuffer, the first descriptor of the newest ACPI version.\<close>

definition is_text :: "memory \<Rightarrow> mb_tag \<Rightarrow> bool" where
  "is_text m t \<longleftrightarrow> tg_type t = 8 \<and> ld8 m (tg_data t + 21) = 2"

definition acpi_tags :: "mb_tag list \<Rightarrow> mb_tag list" where
  "acpi_tags ts = filter (\<lambda>t. tg_type t = 15) ts @ filter (\<lambda>t. tg_type t = 14) ts"

definition no_zero_entry :: "memory \<Rightarrow> mb_tag list \<Rightarrow> bool" where
  "no_zero_entry m ts \<longleftrightarrow> (\<forall>t\<in>set ts. tg_type t = 6 \<longrightarrow> ld32 m (tg_data t) \<noteq> 0)"

definition read_tag :: "memory \<Rightarrow> mb_tag \<Rightarrow> mb_info \<Rightarrow> mb_info option" where
  "read_tag m t info = interpret_tag m (tg_type t) (tg_size t) (tg_data t) info"

lemma interpret_tags_foldM: "tags_at m p ts \<Longrightarrow> interpret_tags m p info = foldM (read_tag m) ts info"
proof (induction ts arbitrary: p info)
  case Nil
  then show ?case by (subst interpret_tags.simps) simp
next
  case (Cons t ts)
  then show ?case by (subst interpret_tags.simps) (auto simp: read_tag_def[of m t] split: Option.bind_splits)
qed

definition mmap_tags :: "mb_tag list \<Rightarrow> mb_tag list" where
  "mmap_tags ts = filter (\<lambda>t. tg_type t = 6) ts"

definition text_tags :: "memory \<Rightarrow> mb_tag list \<Rightarrow> mb_tag list" where
  "text_tags m ts = filter (is_text m) ts"

definition mmap_post :: "memory \<Rightarrow> mb_tag list \<Rightarrow> mb_info \<Rightarrow> bool" where
  "mmap_post m ts info \<longleftrightarrow>
     (if mmap_tags ts = [] then mmap_count info = 0
      else let t = last (mmap_tags ts) in mmap_count info = tg_size t div ld32 m (tg_data t) \<and> mmap_map info = tg_data t + 8)"

definition acpi_post :: "mb_tag list \<Rightarrow> mb_info \<Rightarrow> bool" where
  "acpi_post ts info \<longleftrightarrow>
     (if acpi_tags ts = [] then acpi_version info = 0
      else let t = hd (acpi_tags ts) in acpi_version info = tg_type t - 13 \<and> acpi_rsdp info = tg_data t)"

definition text_post :: "memory \<Rightarrow> mb_tag list \<Rightarrow> mb_info \<Rightarrow> bool" where
  "text_post m ts info \<longleftrightarrow>
     (if text_tags m ts = [] then mb_text_width info = 0
      else let t = last (text_tags m ts) in mb_text_ptr info = ld64 m (tg_data t) \<and>
             mb_text_width info = ld32 m (tg_data t + 12) \<and> mb_text_height info = ld32 m (tg_data t + 16))"

definition mb_post :: "memory \<Rightarrow> mb_tag list \<Rightarrow> mb_info \<Rightarrow> bool" where
  "mb_post m ts info \<longleftrightarrow> mmap_post m ts info \<and> acpi_post ts info \<and> text_post m ts info"

lemma tags_snoc:
  "mmap_tags (ts @ [t]) = (if tg_type t = 6 then mmap_tags ts @ [t] else mmap_tags ts)"
  "text_tags m (ts @ [t]) = (if is_text m t then text_tags m ts @ [t] else text_tags m ts)"
  by (simp_all add: mmap_tags_def text_tags_def)

lemma acpi_tags_other: "tg_type t \<noteq> 14 \<Longrightarrow> tg_type t \<noteq> 15 \<Longrightarrow> acpi_tags (ts @ [t]) = acpi_tags ts"
  by (simp add: acpi_tags_def)

lemma acpi_tags_1: "tg_type t = 14 \<Longrightarrow> acpi_tags (ts @ [t]) = acpi_tags ts @ [t]"
  by (simp add: acpi_tags_def)

lemma acpi_tags_2:
  assumes "tg_type t = 15"
  shows "acpi_tags (ts @ [t]) \<noteq> []"
    and "acpi_tags ts \<noteq> [] \<Longrightarrow> tg_type (hd (acpi_tags ts)) = 15 \<Longrightarrow> hd (acpi_tags (ts @ [t])) = hd (acpi_tags ts)"
    and "acpi_tags ts = [] \<or> tg_type (hd (acpi_tags ts)) = 14 \<Longrightarrow> hd (acpi_tags (ts @ [t])) = t"
proof -
  let ?A = "filter (\<lambda>t. tg_type t = 15) ts" and ?B = "filter (\<lambda>t. tg_type t = 14) ts"
  have e: "acpi_tags (ts @ [t]) = ?A @ t # ?B" "acpi_tags ts = ?A @ ?B" using assms by (simp_all add: acpi_tags_def)
  have a: "tg_type (hd ?A) = 15" if "?A \<noteq> []" using hd_in_set[OF that] by simp
  have b: "tg_type (hd ?B) = 14" if "?B \<noteq> []" using hd_in_set[OF that] by simp
  show "acpi_tags (ts @ [t]) \<noteq> []" by (simp add: e)
  show "hd (acpi_tags (ts @ [t])) = hd (acpi_tags ts)" if "acpi_tags ts \<noteq> []" "tg_type (hd (acpi_tags ts)) = 15"
    using that b unfolding e by (cases "?A = []") auto
  show "hd (acpi_tags (ts @ [t])) = t" if "acpi_tags ts = [] \<or> tg_type (hd (acpi_tags ts)) = 14"
    using that a unfolding e by (cases "?A = []") auto
qed

lemma acpi_types: "acpi_tags ts \<noteq> [] \<Longrightarrow> tg_type (hd (acpi_tags ts)) \<in> {14, 15}"
  using hd_in_set[of "acpi_tags ts"] by (auto simp: acpi_tags_def)

lemma mmap_post_snoc:
  assumes "mmap_post m ts info" "read_tag m t info = Some info'"
  shows "mmap_post m (ts @ [t]) info'"
  using assms
  by (auto simp: mmap_post_def tags_snoc Let_def read_tag_def interpret_tag_def split: if_splits)

lemma text_post_snoc:
  assumes "text_post m ts info" "read_tag m t info = Some info'"
  shows "text_post m (ts @ [t]) info'"
  using assms
  by (auto simp: text_post_def tags_snoc Let_def read_tag_def interpret_tag_def is_text_def ac_simps split: if_splits)

lemma acpi_post_snoc:
  assumes p: "acpi_post ts info" and r: "read_tag m t info = Some info'"
  shows "acpi_post (ts @ [t]) info'"
proof -
  consider "tg_type t = 14" | "tg_type t = 15" | "tg_type t \<noteq> 14" "tg_type t \<noteq> 15" by blast
  then show ?thesis
  proof cases
    case 1
    then have i: "info' = (if acpi_version info < 1 then info\<lparr>acpi_rsdp := tg_data t, acpi_version := 1\<rparr> else info)"
      using r by (simp add: read_tag_def interpret_tag_def)
    show ?thesis using p acpi_types[of ts] 1 unfolding i
      by (cases "acpi_tags ts = []") (auto simp: acpi_post_def acpi_tags_1 Let_def)
  next
    case 2
    then have i: "info' = (if acpi_version info < 2 then info\<lparr>acpi_rsdp := tg_data t, acpi_version := 2\<rparr> else info)"
      using r by (simp add: read_tag_def interpret_tag_def)
    show ?thesis
    proof (cases "acpi_tags ts = [] \<or> tg_type (hd (acpi_tags ts)) = 14")
      case True
      then have "acpi_version info < 2" using p by (auto simp: acpi_post_def Let_def split: if_splits)
      then show ?thesis using acpi_tags_2(1,3)[OF 2] True 2 unfolding i by (simp add: acpi_post_def)
    next
      case False
      then have "tg_type (hd (acpi_tags ts)) = 15" using acpi_types[of ts] by auto
      then show ?thesis using p acpi_tags_2(1,2)[OF 2] False unfolding i by (simp add: acpi_post_def Let_def)
    qed
  next
    case 3
    then have "acpi_version info' = acpi_version info" "acpi_rsdp info' = acpi_rsdp info"
      using r by (auto simp: read_tag_def interpret_tag_def split: if_splits)
    then show ?thesis using p by (simp add: acpi_post_def acpi_tags_other[OF 3])
  qed
qed

lemma read_tags:
  "no_zero_entry m ts \<Longrightarrow> mb_post m [] info \<Longrightarrow> \<exists>info'. foldM (read_tag m) ts info = Some info' \<and> mb_post m ts info'"
proof (induction ts rule: rev_induct)
  case (snoc t ts)
  then obtain info' where i: "foldM (read_tag m) ts info = Some info'" "mb_post m ts info'"
    by (auto simp: no_zero_entry_def)
  obtain info'' where r: "read_tag m t info' = Some info''"
    using snoc.prems(1) by (cases "read_tag m t info'") (auto simp: no_zero_entry_def read_tag_def interpret_tag_def split: if_splits)
  then have "mb_post m (ts @ [t]) info''"
    using i(2) mmap_post_snoc acpi_post_snoc text_post_snoc unfolding mb_post_def by blast
  then show ?case using i(1) r by (simp add: foldM_append foldM_Nil bind_runit)
qed simp

text \<open>
  C29. Reading the boot information returns for every well-formed sequence of tags, whatever their order and
  number: the memory map is that of the last tag with one, the text buffer that of the last text
  framebuffer, and the root descriptor of ACPI is the first of version 2, or the first of version 1 when
  there is none of version 2.
\<close>

theorem interpret_multiboot_correct:
  assumes "tags_at m (mb + 8) ts" "no_zero_entry m ts" "mb_post m [] info"
  shows "\<exists>info'. interpret_multiboot m mb info = Some info' \<and> mb_post m ts info'"
  using read_tags[OF assms(2,3)] interpret_tags_foldM[OF assms(1)] by (simp add: interpret_multiboot_def)

definition mb_zero :: mb_info where
  "mb_zero = \<lparr>mmap_count = 0, mmap_map = 0, acpi_version = 0, acpi_rsdp = 0, mb_text_ptr = 0, mb_text_width = 0,
     mb_text_height = 0\<rparr>"

text \<open>Boot information with ACPI descriptors of both versions around a memory map of one entry.\<close>

definition demo_mb :: memory where
  "demo_mb = st32 (st32 (st32 (st32 (st32 (st32 (st32 (\<lambda>_. 0) 0x108 15) 0x10C 44) 0x138 6) 0x13C 40) 0x140 24) 0x160 14) 0x164 28"

lemma demo_mb_words:
  "ld32 demo_mb 0x108 = 15" "ld32 demo_mb 0x10C = 44" "ld32 demo_mb 0x138 = 6" "ld32 demo_mb 0x13C = 40"
  "ld32 demo_mb 0x140 = 24" "ld32 demo_mb 0x160 = 14" "ld32 demo_mb 0x164 = 28" "ld32 demo_mb 0x180 = 0"
  by (simp_all add: demo_mb_def mem_simps sep_def) (simp add: ld32_def ldn_zero)

theorem interpret_multiboot_correct_witness:
  "\<exists>info. interpret_multiboot demo_mb 0x100 mb_zero = Some info \<and> mmap_count info = 1 \<and> mmap_map info = 0x148 \<and>
     acpi_version info = 2 \<and> acpi_rsdp info = 0x110"
proof -
  let ?ts = "[\<lparr>tg_type = 15, tg_size = 44, tg_data = 0x110\<rparr>, \<lparr>tg_type = 6, tg_size = 40, tg_data = 0x140\<rparr>,
    \<lparr>tg_type = 14, tg_size = 28, tg_data = 0x168\<rparr>]"
  have "tags_at demo_mb (0x100 + 8) ?ts" by (simp add: demo_mb_words tag_words_def)
  moreover have "no_zero_entry demo_mb ?ts" by (simp add: no_zero_entry_def demo_mb_words)
  moreover have "mb_post demo_mb [] mb_zero"
    by (simp add: mb_post_def mmap_post_def acpi_post_def text_post_def mb_zero_def mmap_tags_def acpi_tags_def text_tags_def)
  ultimately obtain info where i: "interpret_multiboot demo_mb 0x100 mb_zero = Some info" "mb_post demo_mb ?ts info"
    using interpret_multiboot_correct[of demo_mb "0x100" ?ts mb_zero] by blast
  then show ?thesis by (simp add: demo_mb_words mb_post_def mmap_post_def acpi_post_def mmap_tags_def acpi_tags_def)
qed



end
