(* ===== verification/Kernel_Boot.thy ===== *)
theory Kernel_Boot
  imports Display Common_Boot Multiboot
begin

text \<open>
  The entry of the kernel (\<^verbatim>\<open>kernel/boot/main.c\<close>, \<open>kernel_main\<close> up to its call of \<open>system_main\<close>): it reads
  the boot information, checks the root descriptor of ACPI, looks for memory for the stack of free pages and
  initialises the physical memory manager. Interrupts are off, so \<open>hlt\<close> ends the run. A string literal is
  the list of its characters; it lies outside the text buffer. The pages of the code and of the loader's
  stack are arguments, as in the code.
\<close>

section \<open>Operations\<close>

definition print_literal :: "string \<Rightarrow> text_info \<times> memory \<Rightarrow> text_info \<times> memory" where
  "print_literal cs d = fold print_char (map of_char cs) d"



text \<open>The first usable entry of the memory map with enough safe memory.\<close>

fun find_safe :: "memory \<Rightarrow> u64 \<Rightarrow> u64 \<Rightarrow> memory_range list \<Rightarrow> nat list \<Rightarrow> u64 option" where
  "find_safe m mmap required unsafe [] = Some 0"
| "find_safe m mmap required unsafe (i # is) =
     (if mmap_type m mmap i = 1
      then do { safe \<leftarrow> check_memory_bounds (mmap_base m mmap i) (mmap_length m mmap i) required unsafe;
                if safe \<noteq> 0 then Some safe else find_safe m mmap required unsafe is }
      else find_safe m mmap required unsafe is)"

definition boot_unsafe :: "'z machine_scheme \<Rightarrow> mb_info \<Rightarrow> u64 \<Rightarrow> u64 \<Rightarrow> u64 \<Rightarrow> u64 \<Rightarrow> memory_range list" where
  "boot_unsafe s info krn_start krn_end stack stack_size =
     (let (page_start, page_end) = get_page_table_area s
      in [\<lparr>mr_start = krn_start, mr_end = krn_end\<rparr>,
          \<lparr>mr_start = page_start, mr_end = page_end\<rparr>,
          \<lparr>mr_start = mmap_map info, mr_end = mmap_map info + 24 * ucast (mmap_count info)\<rparr>,
          \<lparr>mr_start = stack, mr_end = stack + stack_size\<rparr>])"

datatype boot_result = Halted | Running u64 u32

definition halt :: "string \<Rightarrow> text_info \<Rightarrow> 'z machine_scheme \<Rightarrow> boot_result \<times> text_info \<times> 'z machine_scheme" where
  "halt msg ti s = (let (ti, m) = print_literal msg (ti, mem s) in (Halted, ti, s\<lparr>mem := m\<rparr>))"

definition boot_pmm :: "mb_info \<Rightarrow> u64 \<Rightarrow> u64 \<Rightarrow> u64 \<Rightarrow> u64 \<Rightarrow> text_info \<Rightarrow> 'z pmm_scheme \<Rightarrow>
    (boot_result \<times> text_info \<times> 'z pmm_scheme) option" where
  "boot_pmm info krn_start krn_end stack stack_size ti s =
     (let acpi_rsdt = ucast (ld32 (mem s) (acpi_rsdp info + 16));
          required = get_stack_size (mem s) (mmap_map info) (mmap_count info);
          unsafe = boot_unsafe s info krn_start krn_end stack stack_size
      in do { safe \<leftarrow> find_safe (mem s) (mmap_map info) required unsafe [0..<unat (mmap_count info)];
              if safe = 0 then Some (halt (''Not enough RAM!'' @ [CHR 0x0A]) ti s)
              else do { s \<leftarrow> pmm_init safe (mmap_map info) (mmap_count info)
                               (unsafe @ [\<lparr>mr_start = safe, mr_end = safe + required\<rparr>]) s;
                        Some (Running acpi_rsdt (acpi_version info), ti, s) } })"


section \<open>The memory for the stack of free pages\<close>

text \<open>The memory map as the boot loader hands it over.\<close>

definition boot_map_ok :: "memory \<Rightarrow> u64 \<Rightarrow> u32 \<Rightarrow> bool" where
  "boot_map_ok m mmap n \<longleftrightarrow>
     list_all (\<lambda>i. no_wrap (mmap_base m mmap i) (mmap_length m mmap i)) [0..<unat n] \<and>
     list_all (\<lambda>i. mmap_type m mmap i = 1 \<longrightarrow> 8 dvd unat (mmap_base m mmap i)) [0..<unat n] \<and>
     length (other_entries m mmap (unat n)) \<le> 32 \<and> stack_entries m mmap (unat n) < 2 ^ 61 \<and>
     unat mmap + 24 * unat n < 2 ^ 64"

definition ranges_ok :: "memory_range list \<Rightarrow> bool" where
  "ranges_ok rs \<longleftrightarrow> (\<forall>r\<in>set rs. mr_end r \<noteq> - 1 \<and> 8 dvd unat (mr_start r) \<and> 8 dvd unat (mr_end r))"

lemma find_safe_spec:
  assumes "ranges_ok unsafe" "8 dvd unat req"
    and "\<forall>i\<in>set is. mmap_type m mmap i = 1 \<longrightarrow> no_wrap (mmap_base m mmap i) (mmap_length m mmap i) \<and> 8 dvd unat (mmap_base m mmap i)"
  shows "\<exists>p. find_safe m mmap req unsafe is = Some p \<and>
    (p \<noteq> 0 \<longrightarrow> (\<exists>i\<in>set is. mmap_type m mmap i = 1 \<and> free_window (mmap_base m mmap i) (mmap_length m mmap i) req unsafe p))"
  using assms(3)
proof (induction "is")
  case (Cons i "is")
  have IH: "\<exists>p. find_safe m mmap req unsafe is = Some p \<and>
    (p \<noteq> 0 \<longrightarrow> (\<exists>i\<in>set is. mmap_type m mmap i = 1 \<and> free_window (mmap_base m mmap i) (mmap_length m mmap i) req unsafe p))"
    using Cons by simp
  show ?case
  proof (cases "mmap_type m mmap i = 1")
    case True
    then have w: "unat (mmap_base m mmap i) + unat (mmap_length m mmap i) < 2 ^ 64" "8 dvd unat (mmap_base m mmap i)"
      using Cons.prems by (auto simp: no_wrap_def)
    have r: "\<forall>r\<in>set unsafe. mr_end r \<noteq> - 1" using assms(1) by (simp add: ranges_ok_def)
    obtain q where q: "check_memory_bounds (mmap_base m mmap i) (mmap_length m mmap i) req unsafe = Some q"
      using check_memory_bounds_spec[OF w(1) r] by blast
    have "q \<noteq> 0 \<Longrightarrow> free_window (mmap_base m mmap i) (mmap_length m mmap i) req unsafe q"
      by (rule check_bounds_window[OF w(1) r w(2) assms(2) _ q]) (use assms(1) in \<open>auto simp: ranges_ok_def\<close>)
    then show ?thesis using IH True q by auto
  qed (use IH in auto)
qed simp

lemma window_apart:
  assumes w: "free_window base len req unsafe p" and "r \<in> set unsafe" "0 < unat req" "0 < k" "unat base + unat len < 2 ^ 64"
    and r: "unat (mr_end r) = unat (mr_start r) + k"
  shows "sep p (unat req) (mr_start r) k"
proof -
  have out: "unat x < unat p \<or> unat p + unat req \<le> unat x" if "mr_start r \<le> x" "x < mr_end r" for x
    using free_window_out[OF w assms(2) that] .
  have fit: "unat p + unat req < 2 ^ 64" using w assms(5) by (auto simp: free_window_def)
  have end_le: "unat (mr_start r) + k \<le> 2 ^ 64" using r unat_u64_less[of "mr_end r"] by simp
  have "unat p + unat req \<le> unat (mr_start r) \<or> unat (mr_start r) + k \<le> unat p"
    using out[of "mr_start r"] out[of p] assms(3,4) r by (auto simp: word_less_nat_alt word_le_nat_alt)
  then show ?thesis
    using sep_unat[of p "unat req" "mr_start r" k] sep_unat[of "mr_start r" k p "unat req"] assms(3,4) fit end_le
    by (auto simp: sep_sym)
qed

text \<open>The window found and the map meet the precondition of the page stack's initialisation.\<close>

lemma boot_pre:
  assumes map: "boot_map_ok (mem s) mmap n" and n: "n \<noteq> 0" and some: "0 < stack_entries (mem s) mmap (unat n)"
    and fresh: "g_free_index s = 0" "g_ap_low_page s = 0" "g_ranges_size s = 0" "length (g_ranges s) = 32"
    and i: "i < unat n" "mmap_type (mem s) mmap i = 1"
    and w: "free_window (mmap_base (mem s) mmap i) (mmap_length (mem s) mmap i) (get_stack_size (mem s) mmap n) unsafe p"
    and r: "\<lparr>mr_start = mmap, mr_end = mmap + 24 * ucast n\<rparr> \<in> set unsafe"
  shows "pmm_init_pre p mmap n (stack_entries (mem s) mmap (unat n)) s"
proof -
  have req: "unat (get_stack_size (mem s) mmap n) = 8 * stack_entries (mem s) mmap (unat n)"
    using map by (intro get_stack_size_sum) (simp add: boot_map_ok_def)
  have un: "0 < unat n" using n by (simp add: unat_gt_0)
  have e: "unat (24 * ucast n :: u64) = 24 * unat n"
  proof -
    have "(24 * ucast n :: u64) = of_nat (24 * unat n)" by simp
    then show ?thesis using map unat_of_nat[of "24 * unat n", where 'a = 64] by (simp add: boot_map_ok_def)
  qed
  have e2: "unat (mmap + 24 * ucast n) = unat mmap + 24 * unat n"
    using map e by (simp add: boot_map_ok_def unat_plus_if')
  have nw: "no_wrap (mmap_base (mem s) mmap i) (mmap_length (mem s) mmap i)"
    using map i(1) by (simp add: boot_map_ok_def list_all_iff)
  have "sep p (unat (get_stack_size (mem s) mmap n)) mmap (24 * unat n)"
    using window_apart[OF w r] nw e2 req some un by (simp add: no_wrap_def)
  then have "sep p (8 * stack_entries (mem s) mmap (unat n)) mmap (24 * unat n)" by (simp only: req)
  moreover have "length (candidates (mem s) mmap (unat n)) \<le> stack_entries (mem s) mmap (unat n)"
    using map by (intro length_candidates_le) (simp add: boot_map_ok_def list_all_iff)
  ultimately show ?thesis using map fresh by (simp add: pmm_init_pre_def boot_map_ok_def)
qed

text \<open>
  C9. The entry of the kernel gives the physical memory manager memory of its own: with a memory map as
  the boot loader provides it, the search for memory ends; when it finds none the kernel halts, and
  otherwise the memory lies in a usable entry, is large enough for every page, and meets neither the kernel
  nor the page tables, the memory map and the loader's stack. The pages that the manager then holds are
  exactly the aligned pages of usable entries that start in none of these and not in the page stack itself.
\<close>

theorem boot_pmm_pages:
  assumes "boot_map_ok (mem s) (mmap_map info) (mmap_count info)" "mmap_count info \<noteq> 0"
    "0 < stack_entries (mem s) (mmap_map info) (unat (mmap_count info))"
    and "unsafe = boot_unsafe s info krn_start krn_end stack stack_size" "ranges_ok unsafe"
    and "g_free_index s = 0" "g_ap_low_page s = 0" "g_ranges_size s = 0" "length (g_ranges s) = 32"
    and "req = get_stack_size (mem s) (mmap_map info) (mmap_count info)"
  shows "boot_pmm info krn_start krn_end stack stack_size ti s = Some (halt (''Not enough RAM!'' @ [CHR 0x0A]) ti s) \<or>
    (\<exists>safe i max_addr s1. mmap_type (mem s) (mmap_map info) i = 1 \<and> i < unat (mmap_count info) \<and>
       free_window (mmap_base (mem s) (mmap_map info) i) (mmap_length (mem s) (mmap_map info) i) req unsafe safe \<and>
       insert 0 (set (pmm_stack s1) \<union> {ucast (g_ap_low_page s1)}) = insert 0 {p. usable_page (mem s) (mmap_map info)
         (unat (mmap_count info)) (unsafe @ [\<lparr>mr_start = safe, mr_end = safe + req\<rparr>]) p} \<and>
       boot_pmm info krn_start krn_end stack stack_size ti s = do { s' \<leftarrow> init_paging max_addr s1;
         Some (Running (ucast (ld32 (mem s) (acpi_rsdp info + 16))) (acpi_version info), ti, s') })"
proof -
  let ?m = "mem s" and ?mmap = "mmap_map info" and ?n = "mmap_count info"
  have req: "8 dvd unat req" using get_stack_size_sum[of ?m ?mmap ?n] assms(1,10) by (simp add: boot_map_ok_def)
  have "\<forall>i\<in>set [0..<unat ?n]. mmap_type ?m ?mmap i = 1 \<longrightarrow>
      no_wrap (mmap_base ?m ?mmap i) (mmap_length ?m ?mmap i) \<and> 8 dvd unat (mmap_base ?m ?mmap i)"
    using assms(1) by (simp add: boot_map_ok_def list_all_iff)
  from find_safe_spec[OF assms(5) req this] obtain p where
    p: "find_safe ?m ?mmap req unsafe [0..<unat ?n] = Some p" and
    w: "p \<noteq> 0 \<Longrightarrow> \<exists>i\<in>set [0..<unat ?n]. mmap_type ?m ?mmap i = 1 \<and>
          free_window (mmap_base ?m ?mmap i) (mmap_length ?m ?mmap i) req unsafe p" by blast
  show ?thesis
  proof (cases "p = 0")
    case True
    then show ?thesis using p assms(4,10) by (simp add: boot_pmm_def)
  next
    case False
    then obtain i where i: "i < unat ?n" "mmap_type ?m ?mmap i = 1"
      "free_window (mmap_base ?m ?mmap i) (mmap_length ?m ?mmap i) req unsafe p" using w by auto
    have "\<lparr>mr_start = ?mmap, mr_end = ?mmap + 24 * ucast ?n\<rparr> \<in> set unsafe"
      by (cases "get_page_table_area s") (simp add: assms(4) boot_unsafe_def)
    from boot_pre[OF assms(1-3,6-9) i(1,2) i(3)[unfolded assms(10)] this]
    have pre: "pmm_init_pre p ?mmap ?n (stack_entries ?m ?mmap (unat ?n)) s" .
    let ?u = "unsafe @ [\<lparr>mr_start = p, mr_end = p + req\<rparr>]"
    obtain s1 where s1: "init_entries p ?mmap ?n ?u s = Some (max_addr_of ?m ?mmap (unat ?n), s1)"
      "insert 0 (set (pmm_stack s1) \<union> {ucast (g_ap_low_page s1)}) = insert 0 {p. usable_page ?m ?mmap (unat ?n) ?u p}"
      using init_entries_usable[OF pre, of ?u] by blast
    have "boot_pmm info krn_start krn_end stack stack_size ti s = do { s' \<leftarrow> init_paging (max_addr_of ?m ?mmap (unat ?n)) s1;
         Some (Running (ucast (ld32 ?m (acpi_rsdp info + 16))) (acpi_version info), ti, s') }"
      using p False s1(1) assms(4,10) by (simp add: boot_pmm_def pmm_init_def)
    then show ?thesis using i s1(2) by blast
  qed
qed

text \<open>A machine with three usable pages, the kernel in the second one and empty page tables.\<close>

definition demo_boot :: pmm where
  "demo_boot = demo_pmm\<lparr>cr3 := 0x20000\<rparr>"

definition demo_info :: mb_info where
  "demo_info = mb_zero\<lparr>mmap_count := 1, mmap_map := 0x8000\<rparr>"

lemma demo_boot_unsafe:
  "boot_unsafe demo_boot demo_info 0x2000 0x2010 0x2800 0x100 =
     [\<lparr>mr_start = 0x2000, mr_end = 0x2010\<rparr>, \<lparr>mr_start = 0x20000, mr_end = 0x21000\<rparr>,
      \<lparr>mr_start = 0x8000, mr_end = 0x8018\<rparr>, \<lparr>mr_start = 0x2800, mr_end = 0x2900\<rparr>]"
proof -
  have z: "ld64 demo_map (0x20000 + 8 * of_nat i) = 0" if "i < 512" for i
  proof -
    have "(0x20000 + of_nat (8 * i) :: u64) = of_nat (0x20000 + 8 * i)" by simp
    then have "unat (0x20000 + of_nat (8 * i) :: u64) = 0x20000 + 8 * i"
      using that unat_of_nat[of "0x20000 + 8 * i", where 'a = 64] by (simp del: of_nat_add of_nat_mult)
    then have "sep a k (0x20000 + of_nat (8 * i)) 8" if "unat a + k \<le> 0x20000" "0 < k" for a k
      using that \<open>i < 512\<close> by (intro sep_unat) (simp_all del: of_nat_mult)
    then show ?thesis by (simp add: demo_map_def ld_sep) (simp add: ld64_def ldn_zero)
  qed
  have "sub_tables demo_map 0x20000 = []"
    by (auto simp: sub_tables_def filter_empty_conv z boot_table_def simp del: upt_Suc)
  then have "get_page_table_area demo_boot = (0x20000, 0x21000)"
    unfolding get_page_table_area_def Let_def area_loops by (simp add: demo_boot_def demo_pmm_def)
  then show ?thesis by (simp add: boot_unsafe_def demo_info_def)
qed

definition demo_ti :: text_info where
  "demo_ti = \<lparr>ti_text = 0xB8000, ti_width = 80, ti_height = 25, ti_row = 0, ti_col = 0, ti_color = 0\<rparr>"

theorem boot_pmm_pages_witness:
  "\<exists>safe max_addr s1. insert 0 (set (pmm_stack s1) \<union> {ucast (g_ap_low_page s1)}) = insert 0 {p. usable_page demo_map 0x8000 1
       ([\<lparr>mr_start = 0x2000, mr_end = 0x2010\<rparr>, \<lparr>mr_start = 0x20000, mr_end = 0x21000\<rparr>,
         \<lparr>mr_start = 0x8000, mr_end = 0x8018\<rparr>, \<lparr>mr_start = 0x2800, mr_end = 0x2900\<rparr>] @
        [\<lparr>mr_start = safe, mr_end = safe + 24\<rparr>]) p} \<and>
     boot_pmm demo_info 0x2000 0x2010 0x2800 0x100 demo_ti demo_boot =
       do { s' \<leftarrow> init_paging max_addr s1; Some (Running (ucast (ld32 demo_map 16)) 0, demo_ti, s') }"
proof -
  let ?u = "[\<lparr>mr_start = 0x2000, mr_end = 0x2010\<rparr>, \<lparr>mr_start = 0x20000, mr_end = 0x21000\<rparr>,
      \<lparr>mr_start = 0x8000, mr_end = 0x8018\<rparr>, \<lparr>mr_start = 0x2800, mr_end = 0x2900\<rparr>]"
  have m: "mem demo_boot = demo_map" "g_free_index demo_boot = 0" "g_ap_low_page demo_boot = 0"
    "g_ranges_size demo_boot = 0" "length (g_ranges demo_boot) = 32"
    by (simp_all add: demo_boot_def demo_pmm_def)
  have i: "mmap_map demo_info = 0x8000" "mmap_count demo_info = 1" "acpi_rsdp demo_info = 0" "acpi_version demo_info = 0"
    by (simp_all add: demo_info_def mb_zero_def)
  have e: "stack_entries demo_map 0x8000 1 = 3" "get_stack_size demo_map 0x8000 1 = 24"
    by (simp_all add: stack_entries_def get_stack_size_def)
  have "0 < stack_entries demo_map 0x8000 (Suc 0)" by (simp add: stack_entries_def)
  note e = e this
  have ok: "boot_map_ok demo_map 0x8000 1" "ranges_ok ?u"
    by (simp_all add: boot_map_ok_def ranges_ok_def no_wrap_def other_entries_def stack_entries_def)
  have "check_memory_bounds 0x1000 0x3000 24 ?u = Some 0x1000" by code_simp
  then have "boot_pmm demo_info 0x2000 0x2010 0x2800 0x100 demo_ti demo_boot \<noteq> Some (halt (''Not enough RAM!'' @ [CHR 0x0A]) demo_ti demo_boot)"
    by (simp add: boot_pmm_def m i e demo_boot_unsafe halt_def bind_eq_Some_conv split: prod.splits)
  then show ?thesis
    using boot_pmm_pages[of demo_boot demo_info ?u "0x2000" "0x2010" "0x2800" "0x100" 24 demo_ti] ok
    by (simp add: m i e demo_boot_unsafe del: append.simps) blast
qed

section \<open>Checks on the boot information\<close>





end
