(* ===== verification/Kheap.thy ===== *)
theory Kheap
  imports Mem_Space "HOL-Library.Multiset"
begin

text \<open>
  The kernel heap (\<^verbatim>\<open>kernel/system/mem_mgmt/heap.c\<close>): a list of heap pages, each with a list of its free
  and one of its allocated blocks, all in memory. A pointer to a pointer is the address of the slot it
  points to; the slot of a \<open>next\<close> field is the address of the block itself, since \<open>next\<close> comes first. The
  addresses the linker gives to the globals \<open>heap_root\<close> and \<open>kern_vmm\<close> are an argument of the operations.
  The memory that \<open>malloc_pages\<close> maps is accessed at its virtual address.
\<close>

section \<open>Data and operations\<close>

record globals =
  heap_root_at :: u64
  kern_vmm_at :: u64

definition blk_next :: "memory \<Rightarrow> u64 \<Rightarrow> u64" where "blk_next m b = ld64 m b"
definition blk_pghdr :: "memory \<Rightarrow> u64 \<Rightarrow> u64" where "blk_pghdr m b = ld64 m (b + 8)"
definition blk_length :: "memory \<Rightarrow> u64 \<Rightarrow> u64" where "blk_length m b = ld64 m (b + 16)"
definition pg_free :: "memory \<Rightarrow> u64 \<Rightarrow> u64" where "pg_free m p = ld64 m (p + 8)"
definition pg_allocated :: "memory \<Rightarrow> u64 \<Rightarrow> u64" where "pg_allocated m p = ld64 m (p + 16)"

partial_function (option) scan_blocks :: "memory \<Rightarrow> u64 \<Rightarrow> u64 \<Rightarrow> u64 option" where
  "scan_blocks m sz block =
     (if block \<noteq> 0 then if blk_length m block > sz then Some block else scan_blocks m sz (blk_next m block)
      else Some 0)"

declare scan_blocks.simps [code]

text \<open>The result is the block found, or null and the slot at the end of the list of pages.\<close>

partial_function (option) scan_pages :: "memory \<Rightarrow> u64 \<Rightarrow> u64 \<Rightarrow> (u64 \<times> u64) option" where
  "scan_pages m sz page =
     (if ld64 m page \<noteq> 0
      then do { block \<leftarrow> scan_blocks m sz (pg_free m (ld64 m page));
                if block \<noteq> 0 then Some (block, page) else scan_pages m sz (ld64 m page) }
      else Some (0, page))"

declare scan_pages.simps [code]

definition heap_pages :: "u64 \<Rightarrow> u64" where
  "heap_pages sz = (let pages = sz div 4096; pages = (if sz mod 4096 \<noteq> 0 then pages + 1 else pages)
                    in if pages < 2 then 2 else pages)"

text \<open>The headers of a fresh page; the slot that refers to it is read anew each time.\<close>

definition init_heap_page :: "u64 \<Rightarrow> u64 \<Rightarrow> memory \<Rightarrow> u64 \<times> memory" where
  "init_heap_page page pg m =
     (let m = st64 m page pg;
          block = ld64 m page + 24;
          m = st64 m block 0;
          m = st64 m (block + 16) (4096 - 24 - 24);
          m = st64 m (block + 8) (ld64 m page);
          m = st64 m (ld64 m page) 0;
          m = st64 m (ld64 m page + 8) block;
          m = st64 m (ld64 m page + 16) 0
      in (block, m))"

definition find_free :: "'g globals_scheme \<Rightarrow> u64 \<Rightarrow> 'z node_heap_scheme \<Rightarrow> (u64 \<times> 'z node_heap_scheme) option" where
  "find_free g sz s =
     do { (block, page) \<leftarrow> scan_pages (mem s) sz (heap_root_at g);
          if block \<noteq> 0 then Some (block, s)
          else do { (pg, s) \<leftarrow> malloc_pages (kern_vmm_at g) (heap_pages sz) 1 0 1 s;
                    let (block, m) = init_heap_page page pg (mem s);
                    Some (block, s\<lparr>mem := m\<rparr>) } }"

text \<open>Two loops over slots: to the null pointer at the end of a list, and to the slot that holds a block.\<close>

partial_function (option) list_end :: "memory \<Rightarrow> u64 \<Rightarrow> u64 option" where
  "list_end m sl = (if ld64 m sl \<noteq> 0 then list_end m (ld64 m sl) else Some sl)"

partial_function (option) find_slot :: "memory \<Rightarrow> u64 \<Rightarrow> u64 \<Rightarrow> u64 option" where
  "find_slot m blk sl = (if ld64 m sl \<noteq> blk then find_slot m blk (ld64 m sl) else Some sl)"

declare list_end.simps [code] find_slot.simps [code]

definition split_block :: "u64 \<Rightarrow> u64 \<Rightarrow> memory \<Rightarrow> (u64 \<times> memory) option" where
  "split_block sz fr m =
     (let m = st64 m (fr + 16) (blk_length m fr - (sz + 24));
          allocated = fr + 24 + blk_length m fr;
          m = st64 m allocated 0;
          m = st64 m (allocated + 8) (blk_pghdr m fr);
          m = st64 m (allocated + 16) sz
      in do { tail \<leftarrow> list_end m (blk_pghdr m fr + 16);
              Some (allocated + 24, st64 m tail allocated) })"

definition take_block :: "u64 \<Rightarrow> memory \<Rightarrow> (u64 \<times> memory) option" where
  "take_block fr m =
     do { parent \<leftarrow> find_slot m fr (blk_pghdr m fr + 8);
          let m = st64 m parent (blk_next m fr);
          let m = st64 m fr 0;
          parent \<leftarrow> list_end m (blk_pghdr m fr + 16);
          Some (fr + 24, st64 m parent fr) }"

definition malloc :: "'g globals_scheme \<Rightarrow> u64 \<Rightarrow> 'z node_heap_scheme \<Rightarrow> (u64 \<times> 'z node_heap_scheme) option" where
  "malloc g sz s =
     do { (fr, s) \<leftarrow> find_free g sz s;
          (p, m) \<leftarrow> (if blk_length (mem s) fr > sz + 24 then split_block sz fr (mem s) else take_block fr (mem s));
          Some (p, s\<lparr>mem := m\<rparr>) }"

partial_function (option) insert_free :: "memory \<Rightarrow> u64 \<Rightarrow> u64 \<Rightarrow> u64 \<Rightarrow> memory option" where
  "insert_free m blk parent val =
     (let v = ld64 m val
      in if v = 0 then Some (st64 m val blk)
         else if v + 24 + blk_length m v = blk then
           Some (st64 m (v + 16) (blk_length m v + (blk_length m blk + 24)))
         else if blk + 24 + blk_length m blk = v then
           (let m = st64 m parent blk
            in Some (st64 m (blk + 16) (blk_length m blk + (blk_length m (ld64 m val) + 24))))
         else insert_free m blk val v)"

declare insert_free.simps [code]

definition free_block :: "u64 \<Rightarrow> memory \<Rightarrow> memory option" where
  "free_block blk m =
     do { let pg = blk_pghdr m blk;
          parent \<leftarrow> find_slot m blk (pg + 16);
          let m = st64 m parent (blk_next m blk);
          insert_free m blk parent (pg + 8) }"

text \<open>The two numbers stand for the uninitialised pointers the deletion of tree nodes may read.\<close>

definition free :: "'g globals_scheme \<Rightarrow> u64 \<Rightarrow> u64 \<Rightarrow> u64 \<Rightarrow> 'z node_heap_scheme \<Rightarrow> 'z node_heap_scheme option" where
  "free g addr j1 j2 s =
     (let blk = addr - 24; pg = blk_pghdr (mem s) blk
      in do { m \<leftarrow> free_block blk (mem s);
              let s = s\<lparr>mem := m\<rparr>;
              if pg_allocated (mem s) pg = 0 then free_pages (kern_vmm_at g) pg j1 j2 s else Some s })"

section \<open>Lists of blocks\<close>


text \<open>The slot leads through the blocks to the given end.\<close>

fun links :: "memory \<Rightarrow> u64 \<Rightarrow> u64 list \<Rightarrow> u64 \<Rightarrow> bool" where
  "links m sl [] e \<longleftrightarrow> ld64 m sl = e"
| "links m sl (b # bs) e \<longleftrightarrow> ld64 m sl = b \<and> b \<noteq> 0 \<and> links m b bs e"

lemma links_append: "links m sl (xs @ b # ys) e \<longleftrightarrow> links m sl xs b \<and> b \<noteq> 0 \<and> links m b ys e"
  by (induction xs arbitrary: sl) auto

lemma links_cong:
  "(\<And>x. x \<in> set (sl # bs) \<Longrightarrow> ld64 m' x = ld64 m x) \<Longrightarrow> links m' sl bs e = links m sl bs e"
  by (induction bs arbitrary: sl) auto

lemma list_end_links: "links m sl bs 0 \<Longrightarrow> list_end m sl = Some (last (sl # bs))"
proof (induction bs arbitrary: sl)
  case Nil
  then show ?case by (subst list_end.simps) simp
next
  case (Cons b bs)
  then show ?case by (subst list_end.simps) auto
qed

lemma find_slot_links: "links m sl xs b \<Longrightarrow> b \<notin> set xs \<Longrightarrow> find_slot m b sl = Some (last (sl # xs))"
proof (induction xs arbitrary: sl)
  case Nil
  then show ?case by (subst find_slot.simps) simp
next
  case (Cons x xs)
  then show ?case by (subst find_slot.simps) auto
qed

lemma scan_blocks_links:
  "links m sl bs 0 \<Longrightarrow> scan_blocks m sz (ld64 m sl) = Some (case find (\<lambda>b. sz < blk_length m b) bs of None \<Rightarrow> 0 | Some b \<Rightarrow> b)"
proof (induction bs arbitrary: sl)
  case Nil
  then show ?case by (subst scan_blocks.simps) simp
next
  case (Cons b bs)
  then show ?case by (subst scan_blocks.simps) (auto simp: blk_next_def)
qed

text \<open>Changing the last slot changes the end.\<close>

lemma links_set_end:
  assumes "links m sl bs e" "distinct (sl # bs)"
    and "\<And>x. x \<in> set (sl # bs) \<Longrightarrow> x \<noteq> last (sl # bs) \<Longrightarrow> sep (last (sl # bs)) 8 x 8"
  shows "links (st64 m (last (sl # bs)) e') sl bs e'"
  using assms
proof (induction bs arbitrary: sl)
  case (Cons b bs)
  have l: "last (sl # b # bs) = last (b # bs)" by simp
  have "last (b # bs) \<noteq> sl" using Cons.prems(2) last_in_set[of "b # bs"] by auto
  then have "sep (last (b # bs)) 8 sl 8" using Cons.prems(3)[of sl] unfolding l by auto
  moreover have "links (st64 m (last (b # bs)) e') b bs e'" using Cons.IH[of b] Cons.prems by auto
  ultimately show ?case using Cons.prems(1) unfolding l by (simp add: ld_sep)
qed simp

lemma links_unlink:
  assumes "links m sl (xs @ b # ys) e" "distinct (sl # xs @ b # ys)"
    and "\<And>x y. x \<in> set (sl # xs @ b # ys) \<Longrightarrow> y \<in> set (sl # xs @ b # ys) \<Longrightarrow> x \<noteq> y \<Longrightarrow> sep x 8 y 8"
  shows "links (st64 m (last (sl # xs)) (ld64 m b)) sl (xs @ ys) e"
proof -
  let ?m = "st64 m (last (sl # xs)) (ld64 m b)"
  have l: "links m sl xs b" "links m b ys e" using assms(1) by (simp_all add: links_append)
  have in_: "last (sl # xs) \<in> set (sl # xs)" by (rule last_in_set) simp
  have 1: "links ?m sl xs (ld64 m b)"
    by (rule links_set_end[OF l(1)]) (use assms(2,3) in_ in auto)
  have "ld64 ?m y = ld64 m y" if "y \<in> set ys" for y
    using assms(2) in_ that by (intro ld_sep assms(3)) auto
  then show ?thesis
  proof (cases ys)
    case Nil
    then show ?thesis using 1 l(2) by simp
  next
    case (Cons y zs)
    have "links ?m y zs e = links m y zs e"
      by (rule links_cong) (use \<open>\<And>y. y \<in> set ys \<Longrightarrow> ld64 ?m y = ld64 m y\<close> Cons in auto)
    then show ?thesis using 1 l(2) Cons by (simp add: links_append)
  qed
qed

section \<open>Headers\<close>

lemma word_sep:
  assumes "sep b 24 c 24" "i < 3" "j < 3"
  shows "sep (b + 8 * of_nat i) 8 (c + 8 * of_nat j) 8"
  using sep_sub[OF assms(1), of "8 * i" 8 "8 * j" 8] assms(2,3) by simp

lemma header_words:
  assumes "sep b 24 c 24"
  shows "sep b 8 c 8" "sep b 8 (c + 8) 8" "sep b 8 (c + 16) 8" "sep (b + 8) 8 c 8" "sep (b + 8) 8 (c + 8) 8"
    "sep (b + 8) 8 (c + 16) 8" "sep (b + 16) 8 c 8" "sep (b + 16) 8 (c + 8) 8" "sep (b + 16) 8 (c + 16) 8"
  using word_sep[OF assms, of 0 0] word_sep[OF assms, of 0 1] word_sep[OF assms, of 0 2] word_sep[OF assms, of 1 0]
    word_sep[OF assms, of 1 1] word_sep[OF assms, of 1 2] word_sep[OF assms, of 2 0] word_sep[OF assms, of 2 1]
    word_sep[OF assms, of 2 2] by simp_all

lemma own_words: "sep b 8 (b + 8) 8" "sep b 8 (b + 16) 8" "sep (b + 8) 8 b 8" "sep (b + 8) 8 (b + 16) 8"
  "sep (b + 16) 8 b 8" "sep (b + 16) 8 (b + 8) 8"
  by (simp_all add: sep_def unat_sub_if')

text \<open>Headers apart from each other, and the slots of a page: its two list heads and the \<open>next\<close> fields of its blocks.\<close>

definition hdrs_apart :: "u64 set \<Rightarrow> bool" where
  "hdrs_apart H \<longleftrightarrow> (\<forall>b\<in>H. \<forall>c\<in>H. b \<noteq> c \<longrightarrow> sep b 24 c 24)"

definition slots :: "u64 \<Rightarrow> u64 set \<Rightarrow> u64 set" where
  "slots pg B = {pg + 8, pg + 16} \<union> B"

lemma hdrs_apartD: "hdrs_apart H \<Longrightarrow> b \<in> H \<Longrightarrow> c \<in> H \<Longrightarrow> b \<noteq> c \<Longrightarrow> sep b 24 c 24"
  by (simp add: hdrs_apart_def)

lemma slot_sep:
  assumes "hdrs_apart (insert pg B)" "pg \<notin> B" "x \<in> slots pg B" "y \<in> slots pg B" "x \<noteq> y"
  shows "sep x 8 y 8"
proof -
  have bb: "sep x 24 y 24" if "x \<in> B" "y \<in> B" using assms(1,5) that by (auto intro: hdrs_apartD)
  have pb: "sep pg 24 y 24" if "y \<in> B" using assms(1,2) that by (auto intro: hdrs_apartD)
  have bp: "sep x 24 pg 24" if "x \<in> B" using assms(1,2) that by (auto intro: hdrs_apartD)
  consider "x \<in> B" "y \<in> B" | "x \<in> {pg + 8, pg + 16}" "y \<in> B" | "x \<in> B" "y \<in> {pg + 8, pg + 16}"
    | "x \<in> {pg + 8, pg + 16}" "y \<in> {pg + 8, pg + 16}" using assms(3,4) by (auto simp: slots_def)
  then show ?thesis
  proof cases
    case 1
    then show ?thesis using header_words(1)[OF bb] by simp
  next
    case 2
    then show ?thesis using header_words(4,7)[OF pb] by auto
  next
    case 3
    then show ?thesis using header_words(2,3)[OF bp] by auto
  next
    case 4
    then show ?thesis using own_words[of pg] assms(5) by auto
  qed
qed

lemma slot_field:
  assumes "hdrs_apart (insert pg B)" "pg \<notin> B" "x \<in> slots pg B" "c \<in> B"
  shows "sep x 8 (c + 8) 8" "sep x 8 (c + 16) 8"
proof -
  have pc: "sep pg 24 c 24" using assms by (auto intro: hdrs_apartD)
  have xc: "sep x 24 c 24" if "x \<in> B" "x \<noteq> c" using assms(1,4) that by (auto intro: hdrs_apartD)
  consider "x = c" | "x \<in> B" "x \<noteq> c" | "x \<in> {pg + 8, pg + 16}" using assms(3) by (auto simp: slots_def)
  then have "sep x 8 (c + 8) 8 \<and> sep x 8 (c + 16) 8"
  proof cases
    case 1
    then show ?thesis using own_words[of c] by simp
  next
    case 2
    then show ?thesis using header_words(2,3)[OF xc] by simp
  next
    case 3
    then show ?thesis using header_words[OF pc] by auto
  qed
  then show "sep x 8 (c + 8) 8" "sep x 8 (c + 16) 8" by simp_all
qed

text \<open>A store to a slot.\<close>

lemma slot_store:
  assumes "hdrs_apart (insert pg B)" "pg \<notin> B" "x \<in> slots pg B"
  shows "y \<in> slots pg B \<Longrightarrow> ld64 (st64 m x v) y = (if y = x then v else ld64 m y)"
    and "c \<in> B \<Longrightarrow> blk_pghdr (st64 m x v) c = blk_pghdr m c"
    and "c \<in> B \<Longrightarrow> blk_length (st64 m x v) c = blk_length m c"
  using slot_sep[OF assms] slot_field[OF assms] by (auto simp: ld_sep blk_pghdr_def blk_length_def)

lemma slot_region:
  assumes "x \<in> slots pg B" "y \<notin> region (pg + 8) 16" "\<forall>b\<in>B. y \<notin> region b 24"
  shows "y \<notin> region x 8"
proof -
  have "region x 8 \<subseteq> region x 24" "region (pg + 8) 8 \<subseteq> region (pg + 8) 16" "region (pg + 16) 8 \<subseteq> region (pg + 8) 16"
    using region_sub[of 0 8 24 x] region_sub[of 0 8 16 "pg + 8"] region_sub[of 8 8 16 "pg + 8"] by (simp_all add: add.assoc)
  then show ?thesis using assms unfolding slots_def by blast
qed

lemma last_slot: "sl \<in> slots pg B \<Longrightarrow> set bs \<subseteq> B \<Longrightarrow> last (sl # bs) \<in> slots pg B"
  using last_in_set[of "sl # bs"] unfolding slots_def by auto

lemma last_slot_out: "set (sl # bs) \<inter> set zs = {} \<Longrightarrow> last (sl # bs) \<notin> set zs"
  using last_in_set[of "sl # bs"] by blast

lemma links_append_one:
  assumes H: "hdrs_apart (insert pg B)" "pg \<notin> B" and l: "links m sl bs 0" "ld64 m a = 0" and a: "a \<in> B" "a \<noteq> 0" "a \<notin> set bs"
    and sl: "sl \<in> slots pg B" "sl \<notin> B" "set bs \<subseteq> B" "distinct bs"
  shows "links (st64 m (last (sl # bs)) a) sl (bs @ [a]) 0"
proof -
  have bs: "set (sl # bs) \<subseteq> slots pg B" using sl by (auto simp: slots_def)
  have t: "last (sl # bs) \<in> slots pg B" by (rule last_slot[OF sl(1,3)])
  have "links (st64 m (last (sl # bs)) a) sl bs a"
    by (rule links_set_end[OF l(1)]) (use sl bs slot_sep[OF H t] in auto)
  moreover have "a \<noteq> last (sl # bs)" using a sl(2) last_in_set[of "sl # bs"] by auto
  ultimately show ?thesis using a(2) l(2) slot_store(1)[OF H t, of a] a(1) by (simp add: links_append slots_def)
qed

lemma links_store_other:
  assumes H: "hdrs_apart (insert pg B)" "pg \<notin> B" and l: "links m sl bs e" and sl: "set (sl # bs) \<subseteq> slots pg B"
    and x: "x \<in> slots pg B" "x \<notin> set (sl # bs)"
  shows "links (st64 m x v) sl bs e"
proof -
  have "links (st64 m x v) sl bs e = links m sl bs e"
    by (rule links_cong) (use slot_store(1)[OF H x(1)] sl x(2) in auto)
  then show ?thesis using l by simp
qed

lemma links_remove:
  assumes H: "hdrs_apart (insert pg B)" "pg \<notin> B" and l: "links m sl (xs @ b # ys) e"
    and sl: "set (sl # xs @ b # ys) \<subseteq> slots pg B" "distinct (sl # xs @ b # ys)"
  shows "links (st64 m (last (sl # xs)) (ld64 m b)) sl (xs @ ys) e"
  by (rule links_unlink[OF l sl(2)]) (use slot_sep[OF H] sl(1) in auto)

section \<open>The invariant\<close>

definition blk_end :: "memory \<Rightarrow> u64 \<Rightarrow> nat" where
  "blk_end m b = unat b + 24 + unat (blk_length m b)"

text \<open>A heap page with its free and its allocated blocks. The blocks lie apart in the first 4096 bytes.\<close>

definition page_ok :: "memory \<Rightarrow> u64 \<Rightarrow> u64 list \<Rightarrow> u64 list \<Rightarrow> bool" where
  "page_ok m pg fs as \<longleftrightarrow> pg \<noteq> 0 \<and> unat pg + 4096 \<le> 2 ^ 64 - 2 ^ 46 \<and>
     links m (pg + 8) fs 0 \<and> links m (pg + 16) as 0 \<and> distinct (fs @ as) \<and>
     (\<forall>b\<in>set (fs @ as). blk_pghdr m b = pg \<and> unat pg + 24 \<le> unat b \<and> blk_end m b \<le> unat pg + 4096) \<and>
     (\<forall>b\<in>set (fs @ as). \<forall>c\<in>set (fs @ as). b \<noteq> c \<longrightarrow> blk_end m b \<le> unat c \<or> blk_end m c \<le> unat b)"

lemma page_okD:
  assumes "page_ok m pg fs as"
  shows "pg \<noteq> 0" "unat pg + 4096 \<le> 2 ^ 64 - 2 ^ 46" "links m (pg + 8) fs 0" "links m (pg + 16) as 0" "distinct (fs @ as)"
    "b \<in> set (fs @ as) \<Longrightarrow> blk_pghdr m b = pg" "b \<in> set (fs @ as) \<Longrightarrow> unat pg + 24 \<le> unat b"
    "b \<in> set (fs @ as) \<Longrightarrow> blk_end m b \<le> unat pg + 4096"
    "b \<in> set (fs @ as) \<Longrightarrow> c \<in> set (fs @ as) \<Longrightarrow> b \<noteq> c \<Longrightarrow> blk_end m b \<le> unat c \<or> blk_end m c \<le> unat b"
  using assms unfolding page_ok_def by blast+

lemma blk_end_ge: "unat b + 24 \<le> blk_end m b" by (simp add: blk_end_def)

lemma page_apart:
  assumes "page_ok m pg fs as"
  shows "hdrs_apart (insert pg (set (fs @ as)))" "pg \<notin> set (fs @ as)" "pg + 8 \<notin> set (fs @ as)" "pg + 16 \<notin> set (fs @ as)"
proof -
  note d = page_okD[OF assms]
  have o: "unat x + 24 \<le> unat y \<or> unat y + 24 \<le> unat x" if "x \<in> set (fs @ as)" "y \<in> set (fs @ as)" "x \<noteq> y" for x y
    using d(9)[OF that] blk_end_ge[of x m] blk_end_ge[of y m] by linarith
  have l: "unat x + 24 \<le> 2 ^ 64 - 2 ^ 46" if "x \<in> insert pg (set (fs @ as))" for x
    using that d(2) d(8)[of x] blk_end_ge[of x m] by auto
  show "hdrs_apart (insert pg (set (fs @ as)))"
    unfolding hdrs_apart_def
  proof (intro ballI impI)
    fix x y assume xy: "x \<in> insert pg (set (fs @ as))" "y \<in> insert pg (set (fs @ as))" "x \<noteq> y"
    then have "unat x + 24 \<le> unat y \<or> unat y + 24 \<le> unat x" using o d(7) by blast
    then show "sep x 24 y 24" using l[OF xy(1)] l[OF xy(2)] sep_unat[of x 24 y 24] sep_unat[of y 24 x 24] by (auto simp: sep_sym)
  qed
  have "unat (pg + 8) = unat pg + 8" "unat (pg + 16) = unat pg + 16" using d(2) by (simp_all add: unat_plus_if')
  then show "pg \<notin> set (fs @ as)" "pg + 8 \<notin> set (fs @ as)" "pg + 16 \<notin> set (fs @ as)"
    using d(7)[of pg] d(7)[of "pg + 8"] d(7)[of "pg + 16"] by linarith+
qed

text \<open>Stores to the other two fields of a block.\<close>

lemma field_seps:
  assumes "hdrs_apart (insert pg B)" "b \<in> B" "c \<in> B"
  shows "sep (b + 16) 8 (c + 8) 8" "sep (b + 8) 8 (c + 16) 8" "b \<noteq> c \<Longrightarrow> sep (b + 16) 8 (c + 16) 8" "b \<noteq> c \<Longrightarrow> sep (b + 8) 8 (c + 8) 8"
proof -
  have bc: "sep b 24 c 24" if "b \<noteq> c" using assms that by (auto intro: hdrs_apartD)
  show "sep (b + 16) 8 (c + 8) 8" "sep (b + 8) 8 (c + 16) 8"
    using header_words(6,8)[OF bc] own_words[of b] by (cases "b = c"; simp)+
  show "b \<noteq> c \<Longrightarrow> sep (b + 16) 8 (c + 16) 8" "b \<noteq> c \<Longrightarrow> sep (b + 8) 8 (c + 8) 8"
    using header_words(5,9)[OF bc] by simp_all
qed

lemma length_store:
  assumes "hdrs_apart (insert pg B)" "pg \<notin> B" "b \<in> B"
  shows "y \<in> slots pg B \<Longrightarrow> ld64 (st64 m (b + 16) v) y = ld64 m y"
    and "c \<in> B \<Longrightarrow> blk_pghdr (st64 m (b + 16) v) c = blk_pghdr m c"
    and "c \<in> B \<Longrightarrow> blk_length (st64 m (b + 16) v) c = (if c = b then v else blk_length m c)"
proof -
  show "y \<in> slots pg B \<Longrightarrow> ld64 (st64 m (b + 16) v) y = ld64 m y"
    using sep_symD[OF slot_field(2)[OF assms(1,2) _ assms(3)]] by (simp add: ld_sep)
  show "c \<in> B \<Longrightarrow> blk_pghdr (st64 m (b + 16) v) c = blk_pghdr m c"
    using field_seps(1)[OF assms(1,3)] by (simp add: ld_sep blk_pghdr_def)
  show "c \<in> B \<Longrightarrow> blk_length (st64 m (b + 16) v) c = (if c = b then v else blk_length m c)"
    using field_seps(3)[OF assms(1,3), of c] by (cases "c = b") (auto simp: ld_sep blk_length_def)
qed

lemma pghdr_store:
  assumes "hdrs_apart (insert pg B)" "pg \<notin> B" "b \<in> B"
  shows "y \<in> slots pg B \<Longrightarrow> ld64 (st64 m (b + 8) v) y = ld64 m y"
    and "c \<in> B \<Longrightarrow> blk_pghdr (st64 m (b + 8) v) c = (if c = b then v else blk_pghdr m c)"
    and "c \<in> B \<Longrightarrow> blk_length (st64 m (b + 8) v) c = blk_length m c"
proof -
  show "y \<in> slots pg B \<Longrightarrow> ld64 (st64 m (b + 8) v) y = ld64 m y"
    using sep_symD[OF slot_field(1)[OF assms(1,2) _ assms(3)]] by (simp add: ld_sep)
  show "c \<in> B \<Longrightarrow> blk_pghdr (st64 m (b + 8) v) c = (if c = b then v else blk_pghdr m c)"
    using field_seps(4)[OF assms(1,3), of c] by (cases "c = b") (auto simp: ld_sep blk_pghdr_def)
  show "c \<in> B \<Longrightarrow> blk_length (st64 m (b + 8) v) c = blk_length m c"
    using field_seps(2)[OF assms(1,3)] by (simp add: ld_sep blk_length_def)
qed

section \<open>Splitting a block\<close>

lemma split_numbers:
  assumes p: "page_ok m pg fs as" and f: "f \<in> set fs" and sz: "sz \<le> blk_length m f" "sz + 24 < blk_length m f"
  defines "a \<equiv> f + 24 + (blk_length m f - (sz + 24))"
  shows "unat (blk_length m f - (sz + 24)) = unat (blk_length m f) - (unat sz + 24)"
    "unat sz + 24 < unat (blk_length m f)" "unat a + 24 + unat sz = blk_end m f" "unat f + 24 \<le> unat a"
proof -
  have fl: "blk_end m f \<le> unat pg + 4096" "unat pg + 24 \<le> unat f" using page_okD(7,8)[OF p, of f] f by simp_all
  then have len: "unat (blk_length m f) \<le> 4096" by (simp add: blk_end_def)
  then have "unat sz \<le> 4096" using sz(1) by (simp add: word_le_nat_alt)
  then have s24: "unat (sz + 24) = unat sz + 24" by (simp add: unat_plus_if')
  then show lt: "unat sz + 24 < unat (blk_length m f)" using sz(2) by (simp add: word_less_nat_alt)
  show d: "unat (blk_length m f - (sz + 24)) = unat (blk_length m f) - (unat sz + 24)"
    using lt s24 by (simp add: unat_sub_if')
  have pg: "unat pg + 4096 \<le> 2 ^ 64 - 2 ^ 46" using page_okD(2)[OF p] .
  have f24: "unat (f + 24) = unat f + 24" using fl pg by (simp add: unat_plus_if' blk_end_def)
  have "unat (f + 24) + unat (blk_length m f - (sz + 24)) < 2 ^ 64"
    unfolding f24 d using fl pg lt unfolding blk_end_def by linarith
  then have "unat a = unat f + 24 + (unat (blk_length m f) - (unat sz + 24))"
    unfolding a_def by (subst unat_add_small) (simp_all only: f24 d)
  then show "unat a + 24 + unat sz = blk_end m f" "unat f + 24 \<le> unat a" using lt by (simp_all add: blk_end_def)
qed

lemma split_apart:
  assumes p: "page_ok m pg fs as" and f: "f \<in> set fs" and a: "unat f + 24 \<le> unat a" "unat a + 24 \<le> blk_end m f"
  shows "hdrs_apart (insert pg (insert a (set (fs @ as))))" "a \<notin> set (fs @ as)" "a \<noteq> pg" "a \<noteq> 0" "a \<noteq> pg + 8" "a \<noteq> pg + 16"
proof -
  note d = page_okD[OF p]
  have ff: "f \<in> set (fs @ as)" using f by simp
  have al: "unat a + 24 \<le> 2 ^ 64 - 2 ^ 46" using a(2) d(8)[OF ff] d(2) by linarith
  have o: "unat x + 24 \<le> unat a \<or> unat a + 24 \<le> unat x" if x: "x \<in> insert pg (set (fs @ as))" for x
  proof (cases "x = pg \<or> x = f")
    case True
    then show ?thesis using a d(7)[OF ff] by auto
  next
    case False
    then have xx: "x \<in> set (fs @ as)" using x by simp
    show ?thesis using d(9)[OF xx ff] False a blk_end_ge[of x m] by linarith
  qed
  have l: "unat x + 24 \<le> 2 ^ 64 - 2 ^ 46" if "x \<in> insert pg (set (fs @ as))" for x
    using that d(2) d(8)[of x] blk_end_ge[of x m] by auto
  have sa: "sep x 24 a 24 \<and> sep a 24 x 24" if x: "x \<in> insert pg (set (fs @ as))" for x
    using o[OF x] l[OF x] al sep_unat[of x 24 a 24] sep_unat[of a 24 x 24] by (auto simp: sep_sym)
  then show "hdrs_apart (insert pg (insert a (set (fs @ as))))"
    using page_apart(1)[OF p] unfolding hdrs_apart_def by blast
  have "a \<noteq> x" if "x \<in> insert pg (set (fs @ as))" for x using o[OF that] by auto
  then show "a \<notin> set (fs @ as)" "a \<noteq> pg" by auto
  have "unat pg + 48 \<le> unat a" using d(7)[OF ff] a(1) by linarith
  moreover have "unat (pg + 8) = unat pg + 8" "unat (pg + 16) = unat pg + 16" using d(2) by (simp_all add: unat_plus_if')
  ultimately show "a \<noteq> 0" "a \<noteq> pg + 8" "a \<noteq> pg + 16" by auto
qed

lemma word_region: "region b 8 \<subseteq> region b 24" "region (b + 8) 8 \<subseteq> region b 24" "region (b + 16) 8 \<subseteq> region b 24"
  using region_sub[of 0 8 24 b] region_sub[of 8 8 24 b] region_sub[of 16 8 24 b] by simp_all

text \<open>The memory before the new block is linked into the list of allocated blocks.\<close>

definition split_mem :: "u64 \<Rightarrow> u64 \<Rightarrow> u64 \<Rightarrow> memory \<Rightarrow> memory" where
  "split_mem sz f a m = st64 (st64 (st64 (st64 m (f + 16) (blk_length m f - (sz + 24))) a 0) (a + 8) (blk_pghdr m f)) (a + 16) sz"

lemma split_mem_fields:
  assumes H: "hdrs_apart (insert pg (insert a B))" "pg \<notin> insert a B" and f: "f \<in> B" "a \<notin> B"
  shows "x \<in> slots pg (insert a B) \<Longrightarrow> ld64 (split_mem sz f a m) x = (if x = a then 0 else ld64 m x)"
    "c \<in> B \<Longrightarrow> blk_pghdr (split_mem sz f a m) c = blk_pghdr m c" "blk_pghdr (split_mem sz f a m) a = blk_pghdr m f"
    "c \<in> B \<Longrightarrow> blk_length (split_mem sz f a m) c = (if c = f then blk_length m f - (sz + 24) else blk_length m c)"
    "blk_length (split_mem sz f a m) a = sz"
proof -
  have a: "a \<in> insert a B" "a \<in> slots pg (insert a B)" "f \<in> insert a B" using f by (auto simp: slots_def)
  note st = slot_store[OF H a(2)] length_store[OF H a(1)] length_store[OF H a(3)] pghdr_store[OF H a(1)]
  show "x \<in> slots pg (insert a B) \<Longrightarrow> ld64 (split_mem sz f a m) x = (if x = a then 0 else ld64 m x)"
    by (simp add: split_mem_def st)
  show "c \<in> B \<Longrightarrow> blk_pghdr (split_mem sz f a m) c = blk_pghdr m c" "blk_pghdr (split_mem sz f a m) a = blk_pghdr m f"
    using f by (auto simp: split_mem_def st)
  show "c \<in> B \<Longrightarrow> blk_length (split_mem sz f a m) c = (if c = f then blk_length m f - (sz + 24) else blk_length m c)"
    "blk_length (split_mem sz f a m) a = sz"
    using f by (auto simp: split_mem_def st)
qed

lemma split_mem_frame:
  assumes "region f 24 \<subseteq> R" "region a 24 \<subseteq> R" "x \<notin> R"
  shows "split_mem sz f a m x = m x"
proof -
  have "x \<notin> region (f + 16) 8" "x \<notin> region a 8" "x \<notin> region (a + 8) 8" "x \<notin> region (a + 16) 8"
    using assms word_region[of f] word_region[of a] by blast+
  then show ?thesis by (simp add: split_mem_def m64.st_region)
qed

lemma split_block_code:
  assumes H: "hdrs_apart (insert pg (insert a B))" "pg \<notin> insert a B" and f: "f \<in> B" "a \<notin> B"
    and a: "a = f + 24 + (blk_length m f - (sz + 24))" and pg: "blk_pghdr m f = pg"
    and as: "links m (pg + 16) as 0" "set as \<subseteq> B" "pg + 16 \<noteq> a"
  shows "split_block sz f m = Some (a + 24, st64 (split_mem sz f a m) (last ((pg + 16) # as)) a)"
proof -
  let ?m1 = "st64 m (f + 16) (blk_length m f - (sz + 24))"
  have fa: "f \<in> insert a B" using f by simp
  have sl: "pg + 16 \<in> slots pg (insert a B)" "a \<in> slots pg (insert a B)" by (simp_all add: slots_def)
  have e: "f + 24 + blk_length ?m1 f = a" by (simp add: a blk_length_def)
  have "blk_pghdr (st64 ?m1 a 0) f = blk_pghdr m f"
    using slot_store(2)[OF H sl(2) fa] length_store(2)[OF H fa fa] by simp
  then have m: "st64 (st64 (st64 ?m1 a 0) (a + 8) (blk_pghdr (st64 ?m1 a 0) f)) (a + 16) sz = split_mem sz f a m"
    by (simp add: split_mem_def)
  have "links (split_mem sz f a m) (pg + 16) as 0 = links m (pg + 16) as 0"
    by (rule links_cong) (use split_mem_fields(1)[OF H f] sl as(2,3) f(2) in \<open>auto simp: slots_def\<close>)
  then have "list_end (split_mem sz f a m) (pg + 16) = Some (last ((pg + 16) # as))" using list_end_links as(1) by blast
  then show ?thesis
    using split_mem_fields(2)[OF H f f(1), of sz m] pg unfolding split_block_def Let_def e m by simp
qed

text \<open>What an allocation changes outside the block it uses: the slot at the end of a list.\<close>

definition alloc_frame :: "u64 \<Rightarrow> u64 set \<Rightarrow> u64 \<Rightarrow> memory \<Rightarrow> memory \<Rightarrow> bool" where
  "alloc_frame pg B f m m' \<longleftrightarrow>
     (\<forall>x. x \<notin> region (pg + 8) 16 \<and> (\<forall>b\<in>B. x \<notin> region b 24) \<and> x \<notin> region f (24 + unat (blk_length m f)) \<longrightarrow> m' x = m x)"

lemma split_frame:
  assumes t: "t \<in> slots pg B" and a: "unat f + 24 \<le> unat a" "unat a + 24 \<le> blk_end m f" and big: "blk_end m f \<le> 2 ^ 64"
  shows "alloc_frame pg B f m (st64 (split_mem sz f a m) t v)"
  unfolding alloc_frame_def
proof (intro allI impI)
  fix x assume x: "x \<notin> region (pg + 8) 16 \<and> (\<forall>b\<in>B. x \<notin> region b 24) \<and> x \<notin> region f (24 + unat (blk_length m f))"
  have e: "unat f + (24 + unat (blk_length m f)) = blk_end m f" by (simp add: blk_end_def)
  have "region f 24 \<subseteq> region f (24 + unat (blk_length m f))" "region a 24 \<subseteq> region f (24 + unat (blk_length m f))"
    by (rule region_within; use e big a in linarith)+
  then have "split_mem sz f a m x = m x" using x by (intro split_mem_frame) auto
  moreover have "x \<notin> region t 8" using slot_region[OF t, of x] x by blast
  ultimately show "st64 (split_mem sz f a m) t v x = m x" by (simp add: m64.st_region)
qed

lemma split_block_spec:
  assumes p: "page_ok m pg fs as" and f: "f \<in> set fs" and sz: "sz \<le> blk_length m f" "sz + 24 < blk_length m f"
  defines "a \<equiv> f + 24 + (blk_length m f - (sz + 24))"
  shows "\<exists>m'. split_block sz f m = Some (a + 24, m') \<and> page_ok m' pg fs (as @ [a]) \<and> blk_length m' a = sz \<and>
    (\<forall>b\<in>set (fs @ as). blk_length m' b = (if b = f then blk_length m f - (sz + 24) else blk_length m b)) \<and>
    alloc_frame pg (set (fs @ as)) f m m' \<and> unat f + 24 \<le> unat a \<and> unat a + 24 + unat sz = blk_end m f"
proof -
  let ?B = "set (fs @ as)" and ?t = "last ((pg + 16) # as)"
  let ?m = "split_mem sz f a m" and ?m' = "st64 (split_mem sz f a m) ?t a"
  note d = page_okD[OF p] and n = split_numbers[OF p f sz, folded a_def]
  have fB: "f \<in> ?B" using f by simp
  have a2: "unat a + 24 \<le> blk_end m f" using n(3) by simp
  note sa = split_apart[OF p f n(4) a2]
  have H: "hdrs_apart (insert pg (insert a ?B))" "pg \<notin> insert a ?B" using sa page_apart(2)[OF p] by auto
  note ff = split_mem_fields[OF H fB sa(2)]
  have t: "?t \<in> slots pg (insert a ?B)" by (rule last_slot) (auto simp: slots_def)
  note st = slot_store[OF H t]
  have sl: "pg + 8 \<in> slots pg (insert a ?B)" "pg + 16 \<in> slots pg (insert a ?B)" by (simp_all add: slots_def)
  have noslot: "pg + 8 \<notin> insert a ?B" "pg + 16 \<notin> insert a ?B" using page_apart(3,4)[OF p] sa(5,6) by auto
  have keep: "ld64 ?m x = ld64 m x" if "x \<in> slots pg ?B" for x
    using ff(1)[of x] that noslot sa(2) by (auto simp: slots_def)
  have la: "links ?m (pg + 16) as 0" by (rule iffD2[OF links_cong d(4)]) (use keep in \<open>auto simp: slots_def\<close>)
  have lf: "links ?m (pg + 8) fs 0" by (rule iffD2[OF links_cong d(3)]) (use keep in \<open>auto simp: slots_def\<close>)
  have as': "links ?m' (pg + 16) (as @ [a]) 0"
    by (rule links_append_one[OF H la]) (use ff(1)[of a] sa d(5) noslot in \<open>auto simp: slots_def\<close>)
  have fs': "links ?m' (pg + 8) fs 0"
    by (rule links_store_other[OF H lf _ t last_slot_out]) (use d(5) noslot in \<open>auto simp: slots_def\<close>)
  have len: "blk_length ?m' b = (if b = f then blk_length m f - (sz + 24) else blk_length m b)" if "b \<in> ?B" for b
    using st(3)[of b] ff(4)[OF that] that by simp
  have lena: "blk_length ?m' a = sz" using st(3)[of a] ff(5) by simp
  have pgh: "blk_pghdr ?m' b = pg" if "b \<in> set (fs @ as @ [a])" for b
    using st(2)[of b] ff(2)[of b] ff(3) d(6)[of b] d(6)[OF fB] that by auto
  have ends: "blk_end ?m' b \<le> blk_end m b" if "b \<in> ?B" for b using len[OF that] n(1) by (simp add: blk_end_def)
  have endf: "blk_end ?m' f = unat a" using len[OF fB] n by (simp add: blk_end_def)
  have enda: "blk_end ?m' a = blk_end m f" using lena n(3) by (simp add: blk_end_def)
  have apart_a: "blk_end ?m' a \<le> unat b \<or> blk_end ?m' b \<le> unat a" if "b \<in> ?B" for b
    using d(9)[OF that fB] ends[OF that] endf enda n(4) by (cases "b = f") auto
  have ap: "blk_end ?m' b \<le> unat c \<or> blk_end ?m' c \<le> unat b"
    if "b \<in> set (fs @ as @ [a])" "c \<in> set (fs @ as @ [a])" "b \<noteq> c" for b c
    using that apart_a[of b] apart_a[of c] d(9)[of b c] ends[of b] ends[of c] by auto
  have inside: "unat pg + 24 \<le> unat b \<and> blk_end ?m' b \<le> unat pg + 4096" if "b \<in> set (fs @ as @ [a])" for b
    using that d(7)[of b] d(8)[of b] ends[of b] d(7,8)[OF fB] enda n(4) by auto
  have pok: "page_ok ?m' pg fs (as @ [a])"
    unfolding page_ok_def using d(1,2,5) fs' as' sa(2) pgh inside ap by auto
  have fr: "alloc_frame pg ?B f m ?m'"
    by (rule split_frame[OF last_slot n(4) a2]) (use d(2) d(8)[OF fB] in \<open>auto simp: slots_def\<close>)
  have "split_block sz f m = Some (a + 24, ?m')"
    by (rule split_block_code[OF H fB sa(2)]) (use d(4) d(6)[OF fB] sa(6) in \<open>auto simp: a_def\<close>)
  then show ?thesis using pok lena len fr n(3,4) by blast
qed

text \<open>The invariant depends on the headers only, and not on which list a block is in.\<close>

lemma page_ok_relist:
  assumes p: "page_ok m pg fs as" and l: "links m' (pg + 8) fs' 0" "links m' (pg + 16) as' 0"
    and s: "set (fs' @ as') \<subseteq> set (fs @ as)" "distinct (fs' @ as')"
    and f: "\<forall>b\<in>set (fs @ as). blk_length m' b = blk_length m b \<and> blk_pghdr m' b = blk_pghdr m b"
  shows "page_ok m' pg fs' as'"
proof -
  note d = page_okD[OF p]
  have i: "b \<in> set (fs @ as)" if "b \<in> set (fs' @ as')" for b using s(1) that by blast
  have f': "blk_end m' b = blk_end m b" "blk_pghdr m' b = pg" if "b \<in> set (fs' @ as')" for b
    using bspec[OF f i[OF that]] d(6)[OF i[OF that]] by (simp_all add: blk_end_def)
  have "\<forall>b\<in>set (fs' @ as'). blk_pghdr m' b = pg \<and> unat pg + 24 \<le> unat b \<and> blk_end m' b \<le> unat pg + 4096"
    using f' d(7,8) i by simp
  moreover have "blk_end m' b \<le> unat c \<or> blk_end m' c \<le> unat b" if "b \<in> set (fs' @ as')" "c \<in> set (fs' @ as')" "b \<noteq> c" for b c
    using d(9)[OF i[OF that(1)] i[OF that(2)] that(3)] f'(1) that(1,2) by simp
  ultimately show ?thesis using d(1,2) l s(2) unfolding page_ok_def by blast
qed

section \<open>Taking a whole block\<close>

lemma take_block_spec:
  assumes p: "page_ok m pg (xs @ f # ys) as"
  shows "\<exists>m'. take_block f m = Some (f + 24, m') \<and> page_ok m' pg (xs @ ys) (as @ [f]) \<and>
    (\<forall>b\<in>set (xs @ f # ys @ as). blk_length m' b = blk_length m b) \<and> alloc_frame pg (set (xs @ f # ys @ as)) f m m'"
proof -
  let ?B = "set (xs @ f # ys @ as)" and ?p = "last ((pg + 8) # xs)" and ?t = "last ((pg + 16) # as)"
  let ?m1 = "st64 m ?p (ld64 m f)"
  let ?m2 = "st64 ?m1 f 0"
  let ?m3 = "st64 ?m2 ?t f"
  note d = page_okD[OF p]
  have H: "hdrs_apart (insert pg ?B)" "pg \<notin> ?B" and no: "pg + 8 \<notin> ?B" "pg + 16 \<notin> ?B" using page_apart[OF p] by simp_all
  have f0: "f \<noteq> 0" using d(3) by (simp add: links_append)
  have "f \<in> slots pg ?B" by (simp add: slots_def)
  moreover have "?p \<in> slots pg ?B" by (rule last_slot) (auto simp: slots_def)
  moreover have "?t \<in> slots pg ?B" by (rule last_slot) (auto simp: slots_def)
  ultimately have sl: "?p \<in> slots pg ?B" "f \<in> slots pg ?B" "?t \<in> slots pg ?B" by blast+
  note st = slot_store[OF H sl(1)] slot_store[OF H sl(2)] slot_store[OF H sl(3)]
  have slot: "find_slot m f (pg + 8) = Some ?p"
    using find_slot_links[of m "pg + 8" xs f] d(3,5) by (simp add: links_append)
  have fs1: "links ?m1 (pg + 8) (xs @ ys) 0"
    by (rule links_remove[OF H d(3)]) (use d(5) no in \<open>auto simp: slots_def\<close>)
  have as1: "links ?m1 (pg + 16) as 0"
    by (rule links_store_other[OF H d(4) _ sl(1) last_slot_out]) (use d(5) no in \<open>auto simp: slots_def\<close>)
  have fs2: "links ?m2 (pg + 8) (xs @ ys) 0"
    by (rule links_store_other[OF H fs1 _ sl(2)]) (use d(5) no in \<open>auto simp: slots_def\<close>)
  have as2: "links ?m2 (pg + 16) as 0"
    by (rule links_store_other[OF H as1 _ sl(2)]) (use d(5) no in \<open>auto simp: slots_def\<close>)
  have fs3: "links ?m3 (pg + 8) (xs @ ys) 0"
    by (rule links_store_other[OF H fs2 _ sl(3) last_slot_out]) (use d(5) no in \<open>auto simp: slots_def\<close>)
  have as3: "links ?m3 (pg + 16) (as @ [f]) 0"
    by (rule links_append_one[OF H as2]) (use d(5) no f0 in \<open>auto simp: slots_def\<close>)
  have fl: "blk_length ?m3 b = blk_length m b" "blk_pghdr ?m3 b = blk_pghdr m b" "blk_pghdr ?m2 b = blk_pghdr m b" if "b \<in> ?B" for b
    using st that by simp_all
  have "page_ok ?m3 pg (xs @ ys) (as @ [f])"
    by (rule page_ok_relist[OF p fs3 as3]) (use d(5) fl in auto)
  moreover have "take_block f m = Some (f + 24, ?m3)"
    using slot d(6)[of f] fl(3)[of f] list_end_links[OF as2] by (simp add: take_block_def blk_next_def)
  moreover have "alloc_frame pg ?B f m ?m3"
    unfolding alloc_frame_def
  proof (intro allI impI)
    fix x assume x: "x \<notin> region (pg + 8) 16 \<and> (\<forall>b\<in>?B. x \<notin> region b 24) \<and> x \<notin> region f (24 + unat (blk_length m f))"
    then have "x \<notin> region y 8" if "y \<in> slots pg ?B" for y using slot_region[OF that, of x] by blast
    then have "x \<notin> region ?p 8" "x \<notin> region f 8" "x \<notin> region ?t 8" using sl by blast+
    then show "?m3 x = m x" by (simp only: m64.st_region not_False_eq_True)
  qed
  ultimately show ?thesis using fl by blast
qed

section \<open>All pages\<close>

type_synonym hpage = "u64 \<times> u64 list \<times> u64 list"

definition heap_ok :: "memory \<Rightarrow> u64 \<Rightarrow> hpage list \<Rightarrow> bool" where
  "heap_ok m hr ps \<longleftrightarrow> links m hr (map fst ps) 0 \<and> distinct (map fst ps) \<and>
     (\<forall>(pg, fs, as)\<in>set ps. page_ok m pg fs as) \<and>
     (\<forall>p\<in>fst ` set ps. \<forall>q\<in>fst ` set ps. p \<noteq> q \<longrightarrow> unat p + 4096 \<le> unat q \<or> unat q + 4096 \<le> unat p) \<and>
     (\<forall>p\<in>fst ` set ps. unat hr + 8 \<le> unat p \<or> unat p + 4096 \<le> unat hr) \<and> unat hr + 8 \<le> 2 ^ 64"

lemma header_cong:
  assumes "\<forall>x\<in>region b 24. m' x = m x"
  shows "ld64 m' b = ld64 m b" "ld64 m' (b + 8) = ld64 m (b + 8)" "ld64 m' (b + 16) = ld64 m (b + 16)"
  using m64.ld_frame[of b 24 m' m 0] m64.ld_frame[of b 24 m' m 8] m64.ld_frame[of b 24 m' m 16] assms by simp_all

text \<open>A page is as it was when its header and those of its blocks are.\<close>

lemma page_ok_headers:
  assumes p: "page_ok m pg fs as" and e: "\<forall>b\<in>insert pg (set (fs @ as)). \<forall>x\<in>region b 24. m' x = m x"
  shows "page_ok m' pg fs as"
proof -
  have h: "ld64 m' b = ld64 m b" "ld64 m' (b + 8) = ld64 m (b + 8)" "ld64 m' (b + 16) = ld64 m (b + 16)"
    if "b \<in> insert pg (set (fs @ as))" for b using header_cong[OF bspec[OF e that]] by simp_all
  have "links m' (pg + 8) fs 0" by (rule iffD2[OF links_cong page_okD(3)[OF p]]) (use h in auto)
  moreover have "links m' (pg + 16) as 0" by (rule iffD2[OF links_cong page_okD(4)[OF p]]) (use h in auto)
  ultimately show ?thesis
    by (rule page_ok_relist[OF p]) (use h page_okD(5)[OF p] in \<open>auto simp: blk_length_def blk_pghdr_def\<close>)
qed

lemma page_region:
  assumes "page_ok m pg fs as" "b \<in> insert pg (set (fs @ as))"
  shows "region b 24 \<subseteq> region pg 4096" "b \<noteq> pg \<Longrightarrow> region b (24 + unat (blk_length m b)) \<subseteq> region pg 4096"
proof -
  note d = page_okD[OF assms(1)]
  have b: "unat pg \<le> unat b" "unat b + 24 \<le> unat pg + 4096" "b \<noteq> pg \<Longrightarrow> blk_end m b \<le> unat pg + 4096"
    using assms(2) d(7)[of b] d(8)[of b] blk_end_ge[of b m] by auto
  show "region b 24 \<subseteq> region pg 4096" by (rule region_within) (use b d(2) in auto)
  show "region b (24 + unat (blk_length m b)) \<subseteq> region pg 4096" if "b \<noteq> pg"
    by (rule region_within) (use b(1) b(3)[OF that] d(2) in \<open>auto simp: blk_end_def\<close>)
qed

lemma alloc_frame_page:
  assumes "page_ok m pg fs as" "f \<in> set (fs @ as)" "alloc_frame pg (set (fs @ as)) f m m'" "x \<notin> region pg 4096"
  shows "m' x = m x"
proof -
  have "region (pg + 8) 16 \<subseteq> region pg 4096" using region_sub[of 8 16 4096 pg] by simp
  moreover have "f \<noteq> pg" using page_apart(2)[OF assms(1)] assms(2) by auto
  ultimately show ?thesis
    using assms(3,4) page_region[OF assms(1)] assms(2) unfolding alloc_frame_def by blast
qed

lemma alloc_frame_next:
  assumes "page_ok m pg fs as" "f \<in> set (fs @ as)" "alloc_frame pg (set (fs @ as)) f m m'"
  shows "ld64 m' pg = ld64 m pg"
proof -
  note d = page_okD[OF assms(1)]
  have b: "unat pg + 24 \<le> unat b" "unat b + 24 \<le> unat pg + 4096" "unat b + (24 + unat (blk_length m b)) \<le> unat pg + 4096"
    if "b \<in> set (fs @ as)" for b using d(7,8)[OF that] by (simp_all add: blk_end_def)
  have p8: "unat (pg + 8) = unat pg + 8" using d(2) by (simp add: unat_plus_if')
  have "m' x = m x" if x: "x \<in> region pg 8" for x
  proof -
    have ux: "unat pg \<le> unat x" "unat x < unat pg + 8" using x d(2) region_unat[of pg 8 x] by auto
    have out: "x \<notin> region c n" if "unat pg + 8 \<le> unat c" "unat c + n \<le> unat pg + 4096" for c n
      using region_unat[of c n x] ux that d(2) by auto
    have "x \<notin> region (pg + 8) 16" by (rule out) (simp_all add: p8)
    moreover have "\<forall>b\<in>set (fs @ as). x \<notin> region b 24" using out b by fastforce
    moreover have "x \<notin> region f (24 + unat (blk_length m f))" by (rule out) (use b(1,3)[OF assms(2)] in simp_all)
    ultimately show ?thesis using assms(3) unfolding alloc_frame_def by blast
  qed
  then show ?thesis using m64.ld_frame[of pg 8 m' m 0] by simp
qed

lemma payload_frame:
  assumes p: "page_ok m pg fs as" and f: "f \<in> set fs" and fr: "alloc_frame pg (set (fs @ as)) f m m'"
    and b: "b \<in> set as" and x: "x \<in> region (b + 24) (unat (blk_length m b))"
  shows "m' x = m x"
proof -
  note d = page_okD[OF p]
  have bB: "b \<in> set (fs @ as)" and fB: "f \<in> set (fs @ as)" and bf: "b \<noteq> f" using b f d(5) by auto
  have b24: "unat (b + 24) = unat b + 24" using d(2) d(8)[OF bB] blk_end_ge[of b m] by (simp add: unat_plus_if')
  have ux: "unat b + 24 \<le> unat x" "unat x < blk_end m b"
    using x region_unat[of "b + 24" "unat (blk_length m b)" x] b24 d(2) d(8)[OF bB] by (auto simp: blk_end_def)
  have hd: "x \<notin> region c 24" if c: "c \<in> set (fs @ as)" for c
    using region_unat[of c 24 x] d(8)[OF c] d(2) ux d(9)[OF bB c] blk_end_ge[of c m] by (cases "c = b") auto
  have "x \<notin> region (pg + 8) 16"
    using region_sub[of 8 16 24 pg] region_unat[of pg 24 x] d(2) d(7)[OF bB] ux(1) by auto
  moreover have "x \<notin> region f (24 + unat (blk_length m f))"
    using region_unat[of f "24 + unat (blk_length m f)" x] d(8)[OF fB] d(2) d(9)[OF bB fB bf] ux by (auto simp: blk_end_def)
  ultimately show ?thesis using fr hd unfolding alloc_frame_def by blast
qed

text \<open>One step of \<open>malloc\<close> on a free block that is large enough.\<close>

definition carve :: "u64 \<Rightarrow> u64 \<Rightarrow> memory \<Rightarrow> (u64 \<times> memory) option" where
  "carve sz f m = (if blk_length m f > sz + 24 then split_block sz f m else take_block f m)"

lemma carve_spec:
  assumes p: "page_ok m pg fs as" and f: "f \<in> set fs" and sz: "sz \<le> blk_length m f"
  shows "\<exists>a m' fs'. carve sz f m = Some (a + 24, m') \<and> page_ok m' pg fs' (as @ [a]) \<and> sz \<le> blk_length m' a \<and>
    unat f \<le> unat a \<and> blk_end m' a \<le> blk_end m f \<and> (\<forall>b\<in>set as. blk_length m' b = blk_length m b) \<and>
    alloc_frame pg (set (fs @ as)) f m m'"
proof (cases "blk_length m f > sz + 24")
  case True
  let ?a = "f + 24 + (blk_length m f - (sz + 24))"
  obtain m' where m': "split_block sz f m = Some (?a + 24, m')" "page_ok m' pg fs (as @ [?a])" "blk_length m' ?a = sz"
    "\<forall>b\<in>set (fs @ as). blk_length m' b = (if b = f then blk_length m f - (sz + 24) else blk_length m b)"
    "alloc_frame pg (set (fs @ as)) f m m'" "unat f + 24 \<le> unat ?a" "unat ?a + 24 + unat sz = blk_end m f"
    using split_block_spec[OF p f sz True] by blast
  have "b \<noteq> f" if "b \<in> set as" for b using that f page_okD(5)[OF p] by auto
  then have "\<forall>b\<in>set as. blk_length m' b = blk_length m b" using m'(4) by auto
  then show ?thesis using m' True
    by (intro exI[of _ ?a] exI[of _ m'] exI[of _ fs]) (simp add: carve_def blk_end_def)
next
  case False
  obtain xs ys where fs: "fs = xs @ f # ys" using split_list[OF f] by blast
  obtain m' where m': "take_block f m = Some (f + 24, m')" "page_ok m' pg (xs @ ys) (as @ [f])"
    "\<forall>b\<in>set (xs @ f # ys @ as). blk_length m' b = blk_length m b" "alloc_frame pg (set (xs @ f # ys @ as)) f m m'"
    using take_block_spec[OF p[unfolded fs]] by blast
  have l: "blk_length m' f = blk_length m f" "\<forall>b\<in>set as. blk_length m' b = blk_length m b" using m'(3) by auto
  have "alloc_frame pg (set (fs @ as)) f m m'" using m'(4) fs by simp
  then show ?thesis using m'(1,2) l sz False
    by (intro exI[of _ f] exI[of _ m'] exI[of _ "xs @ ys"]) (simp add: carve_def blk_end_def)
qed

lemma heap_okD:
  assumes "heap_ok m hr ps"
  shows "links m hr (map fst ps) 0" "distinct (map fst ps)" "(pg, fs, as) \<in> set ps \<Longrightarrow> page_ok m pg fs as"
    "p \<in> fst ` set ps \<Longrightarrow> q \<in> fst ` set ps \<Longrightarrow> p \<noteq> q \<Longrightarrow> unat p + 4096 \<le> unat q \<or> unat q + 4096 \<le> unat p"
    "p \<in> fst ` set ps \<Longrightarrow> unat hr + 8 \<le> unat p \<or> unat p + 4096 \<le> unat hr" "unat hr + 8 \<le> 2 ^ 64"
    "p \<in> fst ` set ps \<Longrightarrow> unat p + 4096 \<le> 2 ^ 64 - 2 ^ 46"
proof -
  show pok: "page_ok m pg fs as" if "(pg, fs, as) \<in> set ps" for pg fs as using assms that by (auto simp: heap_ok_def)
  show "unat p + 4096 \<le> 2 ^ 64 - 2 ^ 46" if p: "p \<in> fst ` set ps"
  proof -
    obtain fs as where "(p, fs, as) \<in> set ps" using p by auto
    then show ?thesis using page_okD(2)[OF pok] by blast
  qed
qed (use assms in \<open>unfold heap_ok_def, blast+\<close>)

lemma page_regions_apart:
  assumes "heap_ok m hr ps" "p \<in> fst ` set ps" "q \<in> fst ` set ps" "p \<noteq> q" "x \<in> region q 4096"
  shows "x \<notin> region p 4096"
  using heap_okD(4)[OF assms(1-4)] heap_okD(7)[OF assms(1,2)] heap_okD(7)[OF assms(1,3)] assms(5)
    region_unat[of q 4096 x] region_unat[of p 4096 x] by auto

lemma heap_ok_update:
  assumes h: "heap_ok m hr (xs @ (pg, fs, as) # ys)" and p: "page_ok m' pg fs' as'"
    and out: "\<forall>x. x \<notin> region pg 4096 \<longrightarrow> m' x = m x" and nx: "ld64 m' pg = ld64 m pg"
  shows "heap_ok m' hr (xs @ (pg, fs', as') # ys)"
proof -
  let ?ps = "xs @ (pg, fs, as) # ys"
  note d = heap_okD[OF h]
  have pg: "pg \<in> fst ` set ?ps" by simp
  have eq: "\<forall>x\<in>region q 4096. m' x = m x" if "q \<in> fst ` set ?ps" "q \<noteq> pg" for q
    using page_regions_apart[OF h pg that(1)] that(2) out by blast
  have keep: "page_ok m' q fq aq" if q: "(q, fq, aq) \<in> set (xs @ ys)" for q fq aq
  proof -
    have ok: "page_ok m q fq aq" by (rule d(3)) (use q in auto)
    have qp: "q \<noteq> pg" using d(2) q by force
    have "q \<in> fst ` set ?ps" using q by force
    from eq[OF this qp] show ?thesis using page_region(1)[OF ok] by (intro page_ok_headers[OF ok]) blast
  qed
  have word: "ld64 m' q = ld64 m q" if q: "q \<in> fst ` set ?ps" for q
    using eq[OF q] nx m64.ld_frame[of q 4096 m' m 0] by (cases "q = pg") auto
  have "\<forall>x\<in>region hr 8. m' x = m x"
    using out d(5)[OF pg] d(6) d(7)[OF pg] region_unat[of hr 8] region_unat[of pg 4096] by auto
  then have "ld64 m' hr = ld64 m hr" using m64.ld_frame[of hr 8 m' m 0] by simp
  then have "links m' hr (map fst ?ps) 0" by (intro iffD2[OF links_cong d(1)]) (use word in auto)
  moreover have "\<forall>(q, fq, aq)\<in>set (xs @ (pg, fs', as') # ys). page_ok m' q fq aq" using keep p by auto
  moreover have "map fst (xs @ (pg, fs', as') # ys) = map fst ?ps" "fst ` set (xs @ (pg, fs', as') # ys) = fst ` set ?ps" by auto
  ultimately show ?thesis using h unfolding heap_ok_def by metis
qed

section \<open>The heap as its clients see it\<close>

text \<open>The allocated memory: the address and the size of each block a client holds.\<close>

definition page_allocs :: "memory \<Rightarrow> hpage \<Rightarrow> (u64 \<times> u64) list" where
  "page_allocs m p = map (\<lambda>b. (b + 24, blk_length m b)) (snd (snd p))"

definition allocs :: "memory \<Rightarrow> hpage list \<Rightarrow> (u64 \<times> u64) list" where
  "allocs m ps = concat (map (page_allocs m) ps)"

lemma allocs_iff:
  "(q, k) \<in> set (allocs m ps) \<longleftrightarrow> (\<exists>g fg ag b. (g, fg, ag) \<in> set ps \<and> b \<in> set ag \<and> q = b + 24 \<and> k = blk_length m b)"
  by (force simp: allocs_def page_allocs_def)

text \<open>What an allocation promises: fresh memory apart from all that is allocated, whose contents stay.\<close>

definition heap_alloc :: "u64 \<Rightarrow> u64 \<Rightarrow> memory \<Rightarrow> hpage list \<Rightarrow> u64 \<Rightarrow> memory \<Rightarrow> hpage list \<Rightarrow> bool" where
  "heap_alloc hr sz m ps p m' ps' \<longleftrightarrow> heap_ok m' hr ps' \<and>
     (\<exists>n. sz \<le> n \<and> mset (allocs m' ps') = add_mset (p, n) (mset (allocs m ps)) \<and>
        unat p + unat n \<le> 2 ^ 64 - 2 ^ 46 \<and>
        (\<forall>(q, k)\<in>set (allocs m ps). (unat p + unat n \<le> unat q \<or> unat q + unat k \<le> unat p) \<and> (\<forall>x\<in>region q (unat k). m' x = m x)))"

lemma payload_region:
  assumes "page_ok m pg fs as" "b \<in> set (fs @ as)"
  shows "unat (b + 24) = unat b + 24" "unat (b + 24) + unat (blk_length m b) = blk_end m b"
    "region (b + 24) (unat (blk_length m b)) \<subseteq> region pg 4096"
proof -
  note d = page_okD[OF assms(1)]
  show e: "unat (b + 24) = unat b + 24" using d(2) d(8)[OF assms(2)] blk_end_ge[of b m] by (simp add: unat_plus_if')
  then show "unat (b + 24) + unat (blk_length m b) = blk_end m b" by (simp add: blk_end_def)
  then show "region (b + 24) (unat (blk_length m b)) \<subseteq> region pg 4096"
    by (intro region_within) (use d(2) d(7,8)[OF assms(2)] e in auto)
qed

lemma page_allocs_cong:
  assumes "page_ok m q fq aq" "\<forall>x\<in>region q 4096. m' x = m x"
  shows "page_allocs m' (q, fq, aq) = page_allocs m (q, fq, aq)"
proof -
  have "blk_length m' b = blk_length m b" if "b \<in> set aq" for b
    using header_cong(3)[of b m' m] page_region(1)[OF assms(1), of b] assms(2) that by (auto simp: blk_length_def)
  then show ?thesis by (simp add: page_allocs_def)
qed

text \<open>A new block in one page is apart from the allocated blocks of all pages.\<close>

lemma new_block_apart:
  assumes h: "heap_ok m hr (xs @ (pg, fs, as) # ys)" and f: "f \<in> set fs" and new: "page_ok m' pg fs' (as @ [a])"
    and len: "\<forall>b\<in>set as. blk_length m' b = blk_length m b" and fr: "alloc_frame pg (set (fs @ as)) f m m'"
    and q: "(q, k) \<in> set (allocs m (xs @ (pg, fs, as) # ys))"
  shows "unat (a + 24) + unat (blk_length m' a) \<le> unat q \<or> unat q + unat k \<le> unat (a + 24)"
    and "\<forall>x\<in>region q (unat k). m' x = m x"
proof -
  let ?ps = "xs @ (pg, fs, as) # ys"
  note d = heap_okD[OF h]
  have pk: "page_ok m pg fs as" by (rule d(3)) simp
  have aB: "a \<in> set (fs' @ as @ [a])" by simp
  note pa = payload_region[OF new aB] and ia = page_okD(7,8)[OF new aB]
  obtain g fg ag b where g: "(g, fg, ag) \<in> set ?ps" "b \<in> set ag" "q = b + 24" "k = blk_length m b"
    using q unfolding allocs_iff by blast
  have gk: "page_ok m g fg ag" by (rule d(3)[OF g(1)])
  have bB: "b \<in> set (fg @ ag)" using g(2) by simp
  note pb = payload_region[OF gk bB] and ib = page_okD(7,8)[OF gk bB]
  have "(unat (a + 24) + unat (blk_length m' a) \<le> unat q \<or> unat q + unat k \<le> unat (a + 24)) \<and> (\<forall>x\<in>region q (unat k). m' x = m x)"
  proof (cases "g = pg")
    case False
    have gp: "g \<in> fst ` set ?ps" "pg \<in> fst ` set ?ps" using g(1) by force+
    have "m' x = m x" if "x \<in> region q (unat k)" for x
      using alloc_frame_page[OF pk _ fr, of x] page_regions_apart[OF h gp(2,1), of x] False pb(3) that f g(3,4) by auto
    then show ?thesis using d(4)[OF gp False] pa pb ia ib g(3,4) by auto
  next
    case True
    have "(fg, ag) = (fs, as)" by (rule eq_key_imp_eq_value[OF d(2), of pg]) (use g(1) True in simp_all)
    then have bas: "b \<in> set as" using g(2) by simp
    then have "a \<noteq> b" "b \<in> set (fs' @ as @ [a])" using page_okD(5)[OF new] by auto
    moreover have "blk_end m' b = blk_end m b" using len bas by (simp add: blk_end_def)
    ultimately have "blk_end m' a \<le> unat b \<or> blk_end m b \<le> unat a" using page_okD(9)[OF new aB, of b] by simp
    moreover have "\<forall>x\<in>region q (unat k). m' x = m x" using payload_frame[OF pk f fr bas] g(3,4) by blast
    ultimately show ?thesis using pa pb g(3,4) by auto
  qed
  then show "unat (a + 24) + unat (blk_length m' a) \<le> unat q \<or> unat q + unat k \<le> unat (a + 24)"
    "\<forall>x\<in>region q (unat k). m' x = m x" by blast+
qed

lemma heap_carve:
  assumes h: "heap_ok m hr (xs @ (pg, fs, as) # ys)" and f: "f \<in> set fs" and sz: "sz \<le> blk_length m f"
  shows "\<exists>p m' ps'. carve sz f m = Some (p, m') \<and> heap_alloc hr sz m (xs @ (pg, fs, as) # ys) p m' ps' \<and>
    fst ` set ps' = fst ` set (xs @ (pg, fs, as) # ys) \<and> (\<forall>x. x \<notin> region pg 4096 \<longrightarrow> m' x = m x)"
proof -
  let ?ps = "xs @ (pg, fs, as) # ys"
  note d = heap_okD[OF h]
  have pk: "page_ok m pg fs as" by (rule d(3)) simp
  obtain a m' fs' where c: "carve sz f m = Some (a + 24, m')" "page_ok m' pg fs' (as @ [a])" "sz \<le> blk_length m' a"
    "unat f \<le> unat a" "blk_end m' a \<le> blk_end m f" "\<forall>b\<in>set as. blk_length m' b = blk_length m b"
    "alloc_frame pg (set (fs @ as)) f m m'" using carve_spec[OF pk f sz] by blast
  have fB: "f \<in> set (fs @ as)" and aB: "a \<in> set (fs' @ as @ [a])" using f by auto
  have out: "\<forall>x. x \<notin> region pg 4096 \<longrightarrow> m' x = m x" using alloc_frame_page[OF pk fB c(7)] by blast
  let ?ps' = "xs @ (pg, fs', as @ [a]) # ys"
  have ok: "heap_ok m' hr ?ps'" by (rule heap_ok_update[OF h c(2) out alloc_frame_next[OF pk fB c(7)]])
  have other: "\<forall>x\<in>region q 4096. m' x = m x" if "(q, fq, aq) \<in> set (xs @ ys)" for q fq aq
  proof -
    have "q \<noteq> pg" "q \<in> fst ` set ?ps" using d(2) that by force+
    then show ?thesis using page_regions_apart[OF h, of pg q] out by auto
  qed
  have oa: "page_allocs m' (q, fq, aq) = page_allocs m (q, fq, aq)" if "(q, fq, aq) \<in> set (xs @ ys)" for q fq aq
    by (rule page_allocs_cong[OF d(3) other[OF that]]) (use that in auto)
  have "page_allocs m' (pg, fs', as @ [a]) = page_allocs m (pg, fs, as) @ [(a + 24, blk_length m' a)]"
    using c(6) by (simp add: page_allocs_def)
  moreover have "map (page_allocs m') xs = map (page_allocs m) xs" "map (page_allocs m') ys = map (page_allocs m) ys"
    using oa by auto
  ultimately have ms: "mset (allocs m' ?ps') = add_mset (a + 24, blk_length m' a) (mset (allocs m ?ps))"
    by (simp add: allocs_def cong: map_cong)
  note pa = payload_region[OF c(2) aB]
  note apart = new_block_apart[OF h f c(2,6,7)]
  show ?thesis
    unfolding heap_alloc_def using c(1,3) ok ms apart out pa(2) page_okD(8)[OF c(2) aB] page_okD(2)[OF c(2)]
    by (intro exI[of _ "a + 24"] exI[of _ m'] exI[of _ ?ps'] conjI exI[of _ "blk_length m' a"]) auto
qed

end
