(* ===== verification/Kheap_Alloc.thy ===== *)
theory Kheap_Alloc
  imports Kheap
begin

text \<open>
  Allocation on the whole heap: the search over all pages, a fresh page from the virtual memory manager when
  no block fits, and the theorem on \<open>malloc\<close>.
\<close>

section \<open>The search\<close>

definition fit :: "memory \<Rightarrow> u64 \<Rightarrow> hpage \<Rightarrow> u64 option" where
  "fit m sz p = find (\<lambda>b. sz < blk_length m b) (fst (snd p))"

lemma page_slot_nonzero: "page_ok m pg fs as \<Longrightarrow> b \<in> set (fs @ as) \<Longrightarrow> b \<noteq> 0"
  using page_okD(7)[of m pg fs as b] by auto

lemma scan_pages_none:
  "links m sl (map fst ps) 0 \<Longrightarrow> (\<forall>(pg, fs, as)\<in>set ps. page_ok m pg fs as) \<Longrightarrow> (\<forall>p\<in>set ps. fit m sz p = None) \<Longrightarrow>
   scan_pages m sz sl = Some (0, last (sl # map fst ps))"
proof (induction ps arbitrary: sl)
  case Nil
  then show ?case by (subst scan_pages.simps) simp
next
  case (Cons p ps)
  obtain pg fs as where p: "p = (pg, fs, as)" by (cases p) auto
  have "links m (pg + 8) fs 0" using Cons.prems(2) page_okD(3) by (auto simp: p)
  then have "scan_blocks m sz (pg_free m pg) = Some 0"
    using scan_blocks_links[of m "pg + 8" fs sz] Cons.prems(3) by (simp add: pg_free_def p fit_def)
  then show ?case using Cons by (subst scan_pages.simps) (auto simp: p)
qed

lemma scan_pages_first:
  "links m sl (map fst (xs @ (pg, fs, as) # ys)) 0 \<Longrightarrow> (\<forall>(pg, fs, as)\<in>set (xs @ (pg, fs, as) # ys). page_ok m pg fs as) \<Longrightarrow>
   (\<forall>p\<in>set xs. fit m sz p = None) \<Longrightarrow> fit m sz (pg, fs, as) = Some f \<Longrightarrow>
   scan_pages m sz sl = Some (f, last (sl # map fst xs))"
proof (induction xs arbitrary: sl)
  case Nil
  have pk: "page_ok m pg fs as" using Nil.prems(2) by auto
  have f: "f \<in> set fs" using Nil.prems(4) by (auto simp: fit_def find_Some_iff)
  then have "f \<noteq> 0" using page_slot_nonzero[OF pk] by simp
  moreover have "scan_blocks m sz (pg_free m pg) = Some f"
    using scan_blocks_links[OF page_okD(3)[OF pk], of sz] Nil.prems(4) by (simp add: pg_free_def fit_def)
  ultimately show ?case using Nil.prems(1) by (subst scan_pages.simps) auto
next
  case (Cons p xs)
  obtain qg gs bs where p: "p = (qg, gs, bs)" by (cases p) auto
  have "links m (qg + 8) gs 0" using Cons.prems(2) page_okD(3) by (auto simp: p)
  then have "scan_blocks m sz (pg_free m qg) = Some 0"
    using scan_blocks_links[of m "qg + 8" gs sz] Cons.prems(3) by (simp add: pg_free_def p fit_def)
  then show ?case using Cons by (subst scan_pages.simps) (auto simp: p)
qed

lemma malloc_carve: "malloc g sz s = do { (f, s) \<leftarrow> find_free g sz s; (p, m) \<leftarrow> carve sz f (mem s); Some (p, s\<lparr>mem := m\<rparr>) }"
  by (simp add: malloc_def carve_def)

lemma malloc_found:
  assumes h: "heap_ok (mem s) (heap_root_at g) ps" and fit: "\<exists>p\<in>set ps. fit (mem s) sz p \<noteq> None"
  shows "\<exists>p m' ps'. malloc g sz s = Some (p, s\<lparr>mem := m'\<rparr>) \<and> heap_alloc (heap_root_at g) sz (mem s) ps p m' ps' \<and>
    fst ` set ps' = fst ` set ps \<and> (\<forall>x. (\<forall>pg\<in>fst ` set ps. x \<notin> region pg 4096) \<longrightarrow> m' x = mem s x)"
proof -
  obtain xs p ys where ps: "ps = xs @ p # ys" "fit (mem s) sz p \<noteq> None" "\<forall>q\<in>set xs. fit (mem s) sz q = None"
    using split_list_first_prop[OF fit] by auto
  obtain pg fs as f where p: "p = (pg, fs, as)" "fit (mem s) sz (pg, fs, as) = Some f" using ps(2) by (cases p) auto
  note h' = h[unfolded ps(1) p(1)]
  have "scan_pages (mem s) sz (heap_root_at g) = Some (f, last (heap_root_at g # map fst xs))"
    by (rule scan_pages_first[OF heap_okD(1)[OF h'] _ ps(3) p(2)]) (use h' in \<open>simp add: heap_ok_def\<close>)
  moreover have f: "f \<in> set fs" "sz < blk_length (mem s) f" using p(2) by (auto simp: fit_def find_Some_iff)
  moreover have "f \<noteq> 0" using page_slot_nonzero[OF heap_okD(3)[OF h', of pg fs as]] f(1) by auto
  ultimately have ff: "find_free g sz s = Some (f, s)" by (simp add: find_free_def)
  obtain q m' ps' where "carve sz f (mem s) = Some (q, m')" "heap_alloc (heap_root_at g) sz (mem s) ps q m' ps'"
    "fst ` set ps' = fst ` set ps" "\<forall>x. x \<notin> region pg 4096 \<longrightarrow> m' x = mem s x"
    using heap_carve[OF h' f(1)] f(2) ps(1) p(1) by (metis less_imp_le)
  moreover have "pg \<in> fst ` set ps" by (simp add: ps(1) p(1))
  ultimately show ?thesis using ff unfolding malloc_carve by (intro exI[of _ q] exI[of _ m'] exI[of _ ps']) auto
qed

section \<open>Linking a fresh page\<close>

lemma page_ok_next:
  assumes "page_ok m pg fs as"
  shows "page_ok (st64 m pg v) pg fs as" "page_allocs (st64 m pg v) (pg, fs, as) = page_allocs m (pg, fs, as)"
proof -
  note a = page_apart[OF assms]
  have "sep pg 24 b 24" if "b \<in> set (fs @ as)" for b using a(1,2) that by (auto intro: hdrs_apartD)
  then have b: "ld64 (st64 m pg v) b = ld64 m b" "blk_pghdr (st64 m pg v) b = blk_pghdr m b"
    "blk_length (st64 m pg v) b = blk_length m b" if "b \<in> set (fs @ as)" for b
    using header_words(1-3)[of pg b] that by (simp_all add: ld_sep blk_pghdr_def blk_length_def)
  have s: "ld64 (st64 m pg v) (pg + 8) = ld64 m (pg + 8)" "ld64 (st64 m pg v) (pg + 16) = ld64 m (pg + 16)"
    using own_words[of pg] by (simp_all add: ld_sep)
  have "links (st64 m pg v) (pg + 8) fs 0" by (rule iffD2[OF links_cong page_okD(3)[OF assms]]) (use b s in auto)
  moreover have "links (st64 m pg v) (pg + 16) as 0" by (rule iffD2[OF links_cong page_okD(4)[OF assms]]) (use b s in auto)
  ultimately show "page_ok (st64 m pg v) pg fs as" by (rule page_ok_relist[OF assms]) (use b page_okD(5)[OF assms] in auto)
  show "page_allocs (st64 m pg v) (pg, fs, as) = page_allocs m (pg, fs, as)" using b by (simp add: page_allocs_def)
qed

lemma page_ok_frame:
  assumes "page_ok m pg fs as" "\<And>x. x \<in> region pg 4096 \<Longrightarrow> m' x = m x"
  shows "page_ok m' pg fs as" "page_allocs m' (pg, fs, as) = page_allocs m (pg, fs, as)"
  using page_ok_headers[OF assms(1), of m'] page_region(1)[OF assms(1)] page_allocs_cong[OF assms(1)] assms(2) by blast+

text \<open>The slots of the list of pages: the global and the first word of each page.\<close>

lemma page_slots:
  assumes "heap_ok m hr ps"
  shows "distinct (hr # map fst ps)"
    "x \<in> set (hr # map fst ps) \<Longrightarrow> y \<in> set (hr # map fst ps) \<Longrightarrow> x \<noteq> y \<Longrightarrow> sep x 8 y 8"
proof -
  note d = heap_okD[OF assms]
  have "hr \<notin> set (map fst ps)" using d(5)[of hr] by auto
  then show "distinct (hr # map fst ps)" using d(2) by simp
  assume "x \<in> set (hr # map fst ps)" "y \<in> set (hr # map fst ps)" and n: "x \<noteq> y"
  then have x: "x = hr \<or> x \<in> fst ` set ps" "y = hr \<or> y \<in> fst ` set ps" by simp_all
  then have "unat x + 8 \<le> unat y \<or> unat y + 8 \<le> unat x" using d(4)[of x y] d(5)[of x] d(5)[of y] n by (auto del: imageE)
  moreover have "unat x + 8 \<le> 2 ^ 64" "unat y + 8 \<le> 2 ^ 64" using x d(6) d(7)[of x] d(7)[of y] by (auto del: imageE)
  ultimately show "sep x 8 y 8" using sep_unat[of x 8 y 8] sep_symD[OF sep_unat[of y 8 x 8]] by auto
qed

lemma heap_link:
  fixes v :: u64
  assumes h: "heap_ok m hr ps"
  defines "m' \<equiv> st64 m (last (hr # map fst ps)) v"
  shows "links m' hr (map fst ps) v"
    "(pg, fs, as) \<in> set ps \<Longrightarrow> page_ok m' pg fs as \<and> page_allocs m' (pg, fs, as) = page_allocs m (pg, fs, as)"
proof -
  let ?l = "last (hr # map fst ps)"
  note d = heap_okD[OF h] and s = page_slots[OF h]
  have l: "?l \<in> set (hr # map fst ps)" by (rule last_in_set) simp
  show "links m' hr (map fst ps) v" unfolding m'_def
    by (rule links_set_end[OF d(1) s(1)]) (use s(2)[OF l] in blast)
  assume p: "(pg, fs, as) \<in> set ps"
  then have pp: "pg \<in> fst ` set ps" by force
  have ok: "page_ok m pg fs as" by (rule d(3)[OF p])
  show "page_ok m' pg fs as \<and> page_allocs m' (pg, fs, as) = page_allocs m (pg, fs, as)"
  proof (cases "?l = pg")
    case True
    then show ?thesis using page_ok_next[OF ok, of v] by (simp only: m'_def)
  next
    case False
    have "unat ?l + 8 \<le> unat pg \<or> unat pg + 4096 \<le> unat ?l" "unat ?l + 8 \<le> 2 ^ 64"
      using l False d(4)[OF _ pp, of ?l] d(5)[OF pp] d(6) d(7)[of ?l] by force+
    then have "x \<notin> region ?l 8" if "x \<in> region pg 4096" for x
      using that region_unat[of ?l 8 x] region_unat[of pg 4096 x] d(7)[OF pp] by auto
    then have "m' x = m x" if "x \<in> region pg 4096" for x using that unfolding m'_def by (intro m64.st_region) blast
    then show ?thesis using page_ok_frame[OF ok] by blast
  qed
qed

lemma init_heap_page_code:
  assumes "sep sl 8 pg 48"
  shows "init_heap_page sl pg m = (pg + 24, st64 (st64 (st64 (st64 (st64 (st64 (st64 m sl pg) (pg + 24) 0) (pg + 40) 4048) (pg + 32) pg) pg 0) (pg + 8) (pg + 24)) (pg + 16) 0)"
proof -
  have e: "40 + pg = pg + 40" "32 + pg = pg + 32" by simp_all
  have "sep (pg + of_nat j) 8 sl 8" if "j + 8 \<le> 48" for j
    using sep_symD[OF sep_right[OF assms that]] by simp
  from this[of 0] this[of 8] this[of 16] this[of 24] this[of 32] this[of 40] show ?thesis
    by (simp add: init_heap_page_def Let_def ld_sep e)
qed

lemma fresh_page:
  assumes "pg \<noteq> 0" "unat pg + 4096 \<le> 2 ^ 64 - 2 ^ 46" "sep sl 8 pg 48"
  fixes m :: memory
  defines "m' \<equiv> snd (init_heap_page sl pg m)"
  shows "page_ok m' pg [pg + 24] []" "blk_length m' (pg + 24) = 4048" "ld64 m' pg = 0"
    "x \<notin> region pg 48 \<Longrightarrow> m' x = st64 m sl pg x"
proof -
  note c = init_heap_page_code[OF assms(3), of m]
  have l: "ld64 m' pg = 0" "ld64 m' (pg + 8) = pg + 24" "ld64 m' (pg + 16) = 0" "ld64 m' (pg + 24) = 0" "ld64 m' (pg + 32) = pg"
    "ld64 m' (pg + 40) = 4048" by (simp_all add: m'_def c ld_sep sep_def)
  then show "blk_length m' (pg + 24) = 4048" "ld64 m' pg = 0" by (simp_all add: blk_length_def add.assoc)
  have u: "unat (pg + 24) = unat pg + 24" using assms(2) by (simp add: unat_plus_if')
  then have "pg + 24 \<noteq> 0" by auto
  then show "page_ok m' pg [pg + 24] []"
    using assms(1,2) l u by (simp add: page_ok_def blk_end_def blk_length_def blk_pghdr_def add.assoc)
  assume x: "x \<notin> region pg 48"
  have "x \<notin> region (pg + of_nat j) 8" if "j + 8 \<le> 48" for j using x region_sub[of j 8 48 pg] that by auto
  from this[of 0] this[of 8] this[of 16] this[of 24] this[of 32] this[of 40] show "m' x = st64 m sl pg x"
    by (simp add: m'_def c m64.st_region)
qed

text \<open>The page after all others: the heap has one more page, with one free block.\<close>

lemma heap_new_page:
  assumes h: "heap_ok m hr ps" and pg: "pg \<noteq> 0" "unat pg + 4096 \<le> 2 ^ 64 - 2 ^ 46"
    and hr: "unat hr + 8 \<le> unat pg \<or> unat pg + 4096 \<le> unat hr"
    and ps: "\<forall>q\<in>fst ` set ps. unat q + 4096 \<le> unat pg \<or> unat pg + 4096 \<le> unat q"
  defines "sl \<equiv> last (hr # map fst ps)"
  defines "m' \<equiv> snd (init_heap_page sl pg m)" and "ps' \<equiv> ps @ [(pg, [pg + 24], [])]"
  shows "fst (init_heap_page sl pg m) = pg + 24" "heap_ok m' hr ps'" "allocs m' ps' = allocs m ps" "blk_length m' (pg + 24) = 4048"
    "x \<notin> region sl 8 \<Longrightarrow> x \<notin> region pg 4096 \<Longrightarrow> m' x = m x"
    "x \<notin> region hr 8 \<Longrightarrow> (\<forall>q\<in>fst ` set ps'. x \<notin> region q 4096) \<Longrightarrow> m' x = m x"
proof -
  note d = heap_okD[OF h]
  have sl: "sl \<in> set (hr # map fst ps)" unfolding sl_def by (rule last_in_set) simp
  have slots: "unat q + 8 \<le> unat pg \<or> unat pg + 4096 \<le> unat q" "unat q + 8 \<le> 2 ^ 64" if "q \<in> set (hr # map fst ps)" for q
  proof -
    have "q = hr \<or> q \<in> fst ` set ps" using that by simp
    then show "unat q + 8 \<le> unat pg \<or> unat pg + 4096 \<le> unat q" "unat q + 8 \<le> 2 ^ 64"
      using hr bspec[OF ps, of q] d(6) d(7)[of q] by (auto del: imageE)
  qed
  note slu = slots[OF sl]
  have ss: "sep sl 8 pg 48" using slu pg(2) sep_unat[of sl 8 pg 48] sep_symD[OF sep_unat[of pg 48 sl 8]] by auto
  note f = fresh_page[OF pg ss, where m = m, folded m'_def]
  show "fst (init_heap_page sl pg m) = pg + 24" by (simp add: init_heap_page_code[OF ss])
  show "blk_length m' (pg + 24) = 4048" by (rule f(2))
  have r48: "region pg 48 \<subseteq> region pg 4096" by (rule region_mono) simp
  then show out: "m' x = m x" if "x \<notin> region sl 8" "x \<notin> region pg 4096" for x
    using f(4)[of x] that m64.st_region[of x sl] by auto
  show "m' x = m x" if x: "x \<notin> region hr 8" "\<forall>q\<in>fst ` set ps'. x \<notin> region q 4096" for x
  proof (rule out)
    have "x \<notin> region sl 4096 \<or> sl = hr" "x \<notin> region pg 4096" using sl x(2) by (auto simp: ps'_def)
    then show "x \<notin> region sl 8" "x \<notin> region pg 4096" using x(1) region_mono[of 8 4096 sl] by auto
  qed
  note l = heap_link[OF h, where v = pg, folded sl_def]
  have eq: "m' x = st64 m sl pg x" if "q \<in> fst ` set ps" "x \<in> region q 4096" for q x
    using f(4)[of x] bspec[OF ps that(1)] that(2) d(7)[OF that(1)] pg(2) region_unat[of pg 48 x] region_unat[of q 4096 x] by auto
  have old: "page_ok m' q fq aq \<and> page_allocs m' (q, fq, aq) = page_allocs m (q, fq, aq)" if q: "(q, fq, aq) \<in> set ps" for q fq aq
    using page_ok_frame[OF conjunct1[OF l(2)[OF q]], of m'] eq[of q] q l(2)[OF q] by force
  have "ld64 m' q = ld64 (st64 m sl pg) q" if q: "q \<in> set (hr # map fst ps)" for q
  proof (rule m64.ld_local)
    fix i assume i: "i < (8 :: nat)"
    have "unat (q + of_nat i) = unat q + i" using i slots(2)[OF q] by (simp add: unat_plus_if' unat_of_nat)
    then have "q + of_nat i \<notin> region pg 48" using i pg(2) slots(1)[OF q] region_unat[of pg 48] by auto
    then show "m' (q + of_nat i) = st64 m sl pg (q + of_nat i)" by (rule f(4))
  qed
  then have "links m' hr (map fst ps) pg" by (intro iffD2[OF links_cong l(1)]) blast
  then have "links m' hr (map fst ps') 0" using pg(1) f(3) by (simp add: ps'_def links_append)
  moreover have "distinct (map fst ps')" using d(2) ps by (auto simp: ps'_def)
  moreover have "\<forall>(q, fq, aq)\<in>set ps'. page_ok m' q fq aq" using old f(1) by (auto simp: ps'_def)
  moreover have "fst ` set ps' = insert pg (fst ` set ps)" by (auto simp: ps'_def)
  ultimately show "heap_ok m' hr ps'" unfolding heap_ok_def using d(4-6) hr ps by (metis insert_iff)
  have em: "map (page_allocs m') ps = map (page_allocs m) ps" using old by auto
  show "allocs m' ps' = allocs m ps" unfolding ps'_def allocs_def map_append em by (simp add: page_allocs_def)
qed

end
