(* ===== verification/Kheap_Space.thy ===== *)
theory Kheap_Space
  imports Kheap_Alloc
begin

text \<open>
  The heap in the kernel's address space: what an allocation of virtual pages does to the ranges, the invariant that
  joins the heap with the virtual memory manager and the page tables, growth by a fresh page, and \<open>malloc\<close> on both.
\<close>

section \<open>What an allocation of virtual pages does to the ranges\<close>

lemma alloc_range_facts:
  assumes x: "tiled xs" "0 < n" "alloc_range n xs = Some (b, zs)"
  shows "\<exists>e\<in>set xs. fst e = b \<and> unat b + 4096 * unat n \<le> range_last e"
    "(b, n, 1) \<in> set zs" "e \<in> set xs \<Longrightarrow> snd (snd e) = 1 \<Longrightarrow> e \<in> set zs"
    "e \<in> set xs \<Longrightarrow> snd (snd e) = 1 \<Longrightarrow> range_last e \<le> unat b \<or> unat b + 4096 * unat n \<le> unat (fst e)"
    "e \<in> set zs \<Longrightarrow> \<exists>e'\<in>set xs. fst e' \<le> fst e \<and> range_last e \<le> range_last e'"
proof -
  from alloc_range_Some[OF x(1,3)] obtain ys c ws where s: "xs = ys @ (b, c, 0) # ws" "n \<le> c"
    "zs = ys @ split_range n (b, c, 0) @ ws" by metis
  have t: "range_last (b, c, 0) \<le> 2 ^ 64" "\<forall>e\<in>set ws. range_last (b, c, 0) \<le> unat (fst e)" "\<forall>e\<in>set ys. range_last e \<le> unat b"
    using x(1) by (auto simp: s(1) tiled_append tiled_Cons)
  have n: "unat n \<le> unat c" using s(2) by (simp add: word_le_nat_alt)
  then show "\<exists>e\<in>set xs. fst e = b \<and> unat b + 4096 * unat n \<le> range_last e"
    by (intro bexI[of _ "(b, c, 0)"]) (auto simp: s(1) range_last_def)
  show "(b, n, 1) \<in> set zs" by (simp add: s(3) split_range_def)
  show "e \<in> set zs" if "e \<in> set xs" "snd (snd e) = 1" using that by (auto simp: s)
  show "range_last e \<le> unat b \<or> unat b + 4096 * unat n \<le> unat (fst e)" if e: "e \<in> set xs" "snd (snd e) = 1"
  proof -
    have "e \<in> set ys \<or> e \<in> set ws" using e by (auto simp: s(1))
    then show ?thesis using t(2,3) n by (force simp: range_last_def)
  qed
  have "\<exists>e'\<in>set xs. fst e' \<le> fst e \<and> range_last e \<le> range_last e'" if "e \<in> set (split_range n (b, c, 0))"
    using split_tiled(2)[OF x(2) s(2) _ that] t(1) by (intro bexI[of _ "(b, c, 0)"]) (auto simp: s(1) range_last_def)
  then show "e \<in> set zs \<Longrightarrow> \<exists>e'\<in>set xs. fst e' \<le> fst e \<and> range_last e \<le> range_last e'"
    by (auto simp: s)
qed

section \<open>The heap in the address space of the kernel\<close>

lemma heap_ok_cong:
  assumes h: "heap_ok m hr ps" and r: "\<And>x. x \<in> region hr 8 \<Longrightarrow> m' x = m x"
    and p: "\<And>pg x. pg \<in> fst ` set ps \<Longrightarrow> x \<in> region pg 4096 \<Longrightarrow> m' x = m x"
  shows "heap_ok m' hr ps" "allocs m' ps = allocs m ps"
proof -
  note d = heap_okD[OF h]
  have k: "page_ok m' q fq aq \<and> page_allocs m' (q, fq, aq) = page_allocs m (q, fq, aq)" if "(q, fq, aq) \<in> set ps" for q fq aq
    using page_ok_frame[OF d(3)[OF that], of m'] p[of q] that by force
  have "ld64 m' hr = ld64 m hr" using m64.ld_frame[of hr 8 m' m 0] r by simp
  moreover have "ld64 m' q = ld64 m q" if "q \<in> fst ` set ps" for q using m64.ld_frame[of q 4096 m' m 0] p[OF that] by simp
  ultimately have "links m' hr (map fst ps) 0" by (intro iffD2[OF links_cong d(1)]) auto
  moreover have "\<forall>(q, fq, aq)\<in>set ps. page_ok m' q fq aq" using k by blast
  ultimately show "heap_ok m' hr ps" using h unfolding heap_ok_def by blast
  have "map (page_allocs m') ps = map (page_allocs m) ps" using k by auto
  then show "allocs m' ps = allocs m ps" unfolding allocs_def by (rule arg_cong)
qed

text \<open>
  The ranges of the kernel's manager lie below the direct map and apart from the data that are used without
  it: the global of the heap, the manager and the array of the page stack. Each heap page is the start of an
  allocated range, and its first 4096 bytes are mapped.
\<close>

definition aside :: "u64 \<Rightarrow> nat \<Rightarrow> range_entry \<Rightarrow> bool" where
  "aside a n e \<longleftrightarrow> unat a + n \<le> unat (fst e) \<or> range_last e \<le> unat a"

definition range_ok :: "'g globals_scheme \<Rightarrow> 'z pmm_scheme \<Rightarrow> range_entry \<Rightarrow> bool" where
  "range_ok g s e \<longleftrightarrow> fst e \<noteq> 0 \<and> range_last e \<le> 2 ^ 64 - 2 ^ 46 \<and> aside (heap_root_at g) 8 e \<and>
     aside (kern_vmm_at g) 24 e \<and> aside (g_free_pages s) (8 * unat (g_free_index s)) e"

definition page_in :: "u64 \<Rightarrow> memory \<Rightarrow> avl \<Rightarrow> u64 \<Rightarrow> bool" where
  "page_in r m t pg \<longleftrightarrow> (\<exists>c. (pg, c, 1) \<in> set (ranges t)) \<and> (\<forall>x\<in>region pg 4096. page_walk m r x \<noteq> None)"

definition root_ok :: "'g globals_scheme \<Rightarrow> 'z pmm_scheme \<Rightarrow> bool" where
  "root_ok g s \<longleftrightarrow> unat (heap_root_at g) + 8 \<le> 2 ^ 64 - 2 ^ 46 \<and> sep (heap_root_at g) 8 (kern_vmm_at g) 24 \<and>
     sep (heap_root_at g) 8 (g_free_pages s) (8 * unat (g_free_index s))"

definition kheap_rep :: "'g globals_scheme \<Rightarrow> u64 \<Rightarrow> u64 list \<Rightarrow> 'z node_heap_scheme \<Rightarrow> avl \<Rightarrow> hpage list \<Rightarrow> bool" where
  "kheap_rep g r ps s t hps \<longleftrightarrow> space_rep r (kern_vmm_at g) ps s t \<and> mgr_lock (mem s) (kern_vmm_at g) = 0 \<and>
     heap_ok (mem s) (heap_root_at g) hps \<and> root_ok g s \<and> (\<forall>e\<in>set (ranges t). range_ok g s e) \<and>
     (\<forall>pg\<in>fst ` set hps. page_in r (mem s) t pg)"

lemma kheap_repD:
  assumes "kheap_rep g r ps s t hps"
  shows "space_rep r (kern_vmm_at g) ps s t" "mgr_lock (mem s) (kern_vmm_at g) = 0" "heap_ok (mem s) (heap_root_at g) hps" "root_ok g s"
    "\<forall>e\<in>set (ranges t). range_ok g s e" "pg \<in> fst ` set hps \<Longrightarrow> page_in r (mem s) t pg"
  using assms unfolding kheap_rep_def by blast+

lemma space_repD:
  assumes "space_rep r mgr ps s t"
  shows "tiled (ranges t)" "mgr_ok mgr s" "stack_low s"
  using assms nh_wfD(3)[of ps s] by (auto simp: space_rep_def vmm_rep_def avl_rep_def)

text \<open>The page of a range is apart from what the range is apart from.\<close>

lemma aside_region:
  assumes "aside a n e" "fst e = pg" "unat pg + 4096 \<le> range_last e" "unat a + n \<le> 2 ^ 64" "range_last e \<le> 2 ^ 64" "x \<in> region a n"
  shows "x \<notin> region pg 4096"
  using assms region_unat[of a n x] region_unat[of pg 4096 x] by (auto simp: aside_def)

lemma page_in_apart:
  assumes s: "space_rep r (kern_vmm_at g) ps s t" and rk: "\<forall>e\<in>set (ranges t). range_ok g s e" and p: "page_in r m t pg"
    and ro: "root_ok g s"
  shows "x \<in> region (kern_vmm_at g) 24 \<Longrightarrow> x \<notin> region pg 4096" "x \<in> region (heap_root_at g) 8 \<Longrightarrow> x \<notin> region pg 4096"
    "x \<in> region (g_free_pages s) (8 * unat (g_free_index s)) \<Longrightarrow> x \<notin> region pg 4096"
    "2 ^ 64 - 2 ^ 46 \<le> unat x \<Longrightarrow> x \<notin> region pg 4096" "pg \<noteq> 0" "unat pg + 4096 \<le> 2 ^ 64 - 2 ^ 46"
    "unat (heap_root_at g) + 8 \<le> unat pg \<or> unat pg + 4096 \<le> unat (heap_root_at g)"
proof -
  note d = space_repD[OF s]
  obtain c where c: "(pg, c, 1) \<in> set (ranges t)" using p by (auto simp: page_in_def)
  have "0 < c" using d(1) c by (force simp: tiled_def)
  then have l: "unat pg + 4096 \<le> range_last (pg, c, 1)" by (simp add: range_last_def word_less_nat_alt)
  note k = bspec[OF rk c, unfolded range_ok_def]
  have hi: "range_last (pg, c, 1) \<le> 2 ^ 64 - 2 ^ 46" using k by simp
  then have hi64: "range_last (pg, c, 1) \<le> 2 ^ 64" by simp
  have a: "unat (kern_vmm_at g) + 24 \<le> 2 ^ 64" "unat (g_free_pages s) + 8 * unat (g_free_index s) \<le> 2 ^ 64"
    "unat (heap_root_at g) + 8 \<le> 2 ^ 64" using d(2,3) ro by (simp_all add: mgr_ok_def stack_low_def root_ok_def)
  show "x \<in> region (kern_vmm_at g) 24 \<Longrightarrow> x \<notin> region pg 4096" "x \<in> region (heap_root_at g) 8 \<Longrightarrow> x \<notin> region pg 4096"
    "x \<in> region (g_free_pages s) (8 * unat (g_free_index s)) \<Longrightarrow> x \<notin> region pg 4096"
    using aside_region[OF _ _ l _ hi64] k a by auto
  show "pg \<noteq> 0" using k by simp
  show u: "unat pg + 4096 \<le> 2 ^ 64 - 2 ^ 46" using l hi by linarith
  then show "2 ^ 64 - 2 ^ 46 \<le> unat x \<Longrightarrow> x \<notin> region pg 4096" using region_unat[of pg 4096 x] by auto
  show "unat (heap_root_at g) + 8 \<le> unat pg \<or> unat pg + 4096 \<le> unat (heap_root_at g)" using k l by (auto simp: aside_def)
qed

text \<open>Writes to heap pages and to the global of the heap only.\<close>

lemma kheap_write:
  assumes k: "kheap_rep g r ps s t hps" and h: "heap_ok m (heap_root_at g) hps'" and p: "\<And>pg. pg \<in> fst ` set hps' \<Longrightarrow> page_in r (mem s) t pg"
    and w: "\<And>x. x \<notin> region (heap_root_at g) 8 \<Longrightarrow> (\<forall>pg\<in>fst ` set hps'. x \<notin> region pg 4096) \<Longrightarrow> m x = mem s x"
  shows "kheap_rep g r ps (s\<lparr>mem := m\<rparr>) t hps'"
proof -
  note d = kheap_repD[OF k]
  note ap = page_in_apart[OF d(1) d(5) p d(4)]
  let ?hr = "heap_root_at g" and ?mgr = "kern_vmm_at g"
  have ro: "unat ?hr + 8 \<le> 2 ^ 64 - 2 ^ 46" "sep ?hr 8 ?mgr 24" "sep ?hr 8 (g_free_pages s) (8 * unat (g_free_index s))"
    using d(4) by (simp_all add: root_ok_def)
  have q: "quiet s m" unfolding quiet_def
  proof (intro allI impI)
    fix x assume x: "2 ^ 64 - 2 ^ 46 \<le> unat x \<or> x \<in> region (g_free_pages s) (8 * unat (g_free_index s))"
    have "x \<notin> region ?hr 8" using x ro(1) sep_region_disjoint[OF ro(3), of x] region_unat[of ?hr 8 x] by auto
    moreover have "\<forall>pg\<in>fst ` set hps'. x \<notin> region pg 4096" using x ap(3,4) by blast
    ultimately show "m x = mem s x" by (rule w)
  qed
  have o: "m x = mem s x" if "x \<in> region ?mgr 24" for x
    using w sep_region_disjoint[OF ro(2) that] ap(1)[OF _ that] by blast
  note sp = quiet_space_rep[OF d(1) q o]
  show ?thesis unfolding kheap_rep_def using sp(1,2,5) d(2,4,5) h p
    by (simp add: root_ok_def range_ok_def page_in_def)
qed


section \<open>Growing the heap\<close>

lemma same_page_div: "v div 0x1000 = w div 0x1000 \<Longrightarrow> same_page v w"
proof -
  have "(u AND MASK_REMOVE_16U) div 0x1000 = u div 0x1000 AND MASK_REMOVE_16U div 0x1000" for u :: u64
    using drop_bit_and[of 12 u MASK_REMOVE_16U] by (simp add: drop_bit_eq_div)
  then show "v div 0x1000 = w div 0x1000 \<Longrightarrow> same_page v w" by (simp add: same_page_def)
qed

lemma page_of:
  assumes "unat b + 8192 \<le> 2 ^ 64" "x \<in> region b 4096"
  shows "same_page b x \<or> same_page (b + 0x1000) x"
proof -
  have x: "unat b \<le> unat x" "unat x < unat b + 4096" using assms region_unat[of b 4096 x] by auto
  have b: "unat (b + 0x1000) = unat b + 4096" using assms(1) by (simp add: unat_plus_if')
  have "unat b div 4096 \<le> unat x div 4096" "unat x div 4096 \<le> (unat b + 4096) div 4096" using x by (simp_all add: div_le_mono)
  then have "unat x div 4096 = unat b div 4096 \<or> unat x div 4096 = (unat b + 4096) div 4096" by auto
  then have "x div 0x1000 = b div 0x1000 \<or> x div 0x1000 = (b + 0x1000) div 0x1000"
    by (auto simp: word_unat_eq_iff unat_div b)
  then show ?thesis using same_page_div by metis
qed

lemma mapped_in:
  assumes "mapped r b L m m'" "length L = 2" "unat b + 8192 \<le> 2 ^ 64"
  shows "x \<in> region b 4096 \<Longrightarrow> page_walk m' r x \<noteq> None" "page_walk m r x \<noteq> None \<Longrightarrow> page_walk m' r x \<noteq> None"
proof -
  have m: "page_walk m' r x \<noteq> None" if "i < 2" "same_page (b + of_nat i * 0x1000) x" for i
    using assms(1,2) that by (simp add: mapped_def)
  show "x \<in> region b 4096 \<Longrightarrow> page_walk m' r x \<noteq> None" using page_of[OF assms(3)] m[of 0] m[of 1] by auto
  show "page_walk m r x \<noteq> None \<Longrightarrow> page_walk m' r x \<noteq> None" using assms(1,2) m by (metis mapped_def)
qed

lemma range_ok_mono:
  assumes "range_ok g s e'" "fst e' \<le> fst e" "range_last e \<le> range_last e'"
    "g_free_pages s' = g_free_pages s" "g_free_index s' \<le> g_free_index s"
  shows "range_ok g s' e"
proof -
  have u: "unat (fst e') \<le> unat (fst e)" "unat (g_free_index s') \<le> unat (g_free_index s)" using assms(2,5) by (simp_all add: word_le_nat_alt)
  have "unat (fst e') \<noteq> 0" using assms(1) by (simp add: range_ok_def unat_eq_0)
  then have "fst e \<noteq> 0" using u(1) by auto
  then show ?thesis using assms(1,3,4) u by (auto simp: range_ok_def aside_def)
qed

lemma kheap_low:
  assumes k: "kheap_rep g r ps s t hps" and x: "x \<in> region (heap_root_at g) 8 \<or> (\<exists>q\<in>fst ` set hps. x \<in> region q 4096)"
  shows "x \<notin> region (kern_vmm_at g) 24" "unat x < 2 ^ 64 - 2 ^ 46"
proof -
  note d = kheap_repD[OF k]
  note ap = page_in_apart[OF d(1,5) d(6) d(4)]
  have ro: "unat (heap_root_at g) + 8 \<le> 2 ^ 64 - 2 ^ 46" "sep (heap_root_at g) 8 (kern_vmm_at g) 24" using d(4) by (simp_all add: root_ok_def)
  show "x \<notin> region (kern_vmm_at g) 24" using x ap(1) sep_region_disjoint[OF ro(2)] by blast
  show "unat x < 2 ^ 64 - 2 ^ 46"
  proof (rule ccontr)
    assume n: "\<not> unat x < 2 ^ 64 - 2 ^ 46"
    then have "x \<notin> region (heap_root_at g) 8" using ro(1) region_unat[of "heap_root_at g" 8 x] by auto
    then show False using x ap(4)[of _ x] n by force
  qed
qed

lemma kheap_malloc_pages:
  assumes k: "kheap_rep g r ps s t hps" and a: "alloc_range 2 (ranges t) = Some (b, zs)" and f: "9 \<le> length (pmm_stack s)"
    and nh: "no_huge (mem s) r b" "no_huge (mem s) r (b + 0x1000)"
  shows "\<exists>ps' s' t'. malloc_pages (kern_vmm_at g) 2 1 0 1 s = Some (b, s') \<and> kheap_rep g r ps' s' t' hps \<and>
    page_in r (mem s') t' b \<and> (b, 2, 1) \<in> set (ranges t') \<and> (\<forall>q\<in>fst ` set hps. unat q + 4096 \<le> unat b \<or> unat b + 4096 \<le> unat q) \<and>
    low_frame (kern_vmm_at g) s s'"
proof -
  let ?mgr = "kern_vmm_at g"
  note d = kheap_repD[OF k]
  note dd = space_repD[OF d(1)]
  note af = alloc_range_facts[OF dd(1) _ a, simplified]
  have nh': "\<forall>i<unat (2 :: u64). no_huge (mem s) r (b + of_nat i * 0x1000)" using nh by (auto simp: less_2_cases_iff)
  from malloc_pages_spec[OF d(1,2) _ a _ nh', of 1 0 1] f obtain ps' s' t' L where
    m: "malloc_pages ?mgr 2 1 0 1 s = Some (b, s')" "space_rep r ?mgr ps' s' t'" "ranges t' = zs" "mgr_lock (mem s') ?mgr = 0"
    "length L = 2" "mapped r b L (mem s) (mem s')" "low_frame ?mgr s s'" by (auto simp del: length_pmm_stack)
  have lf: "g_free_pages s' = g_free_pages s" "g_free_index s' \<le> g_free_index s" using m(7) by (simp_all add: low_frame_def)
  obtain e where e: "e \<in> set (ranges t)" "fst e = b" "unat b + 8192 \<le> range_last e" using af(1) by auto
  have "range_last e \<le> 2 ^ 64" using dd(1) e(1) by (auto simp: tiled_def)
  then have b64: "unat b + 8192 \<le> 2 ^ 64" using e(3) by linarith
  note mi = mapped_in[OF m(6,5) b64]
  have rk: "\<forall>e\<in>set (ranges t'). range_ok g s' e"
    using af(5) d(5) range_ok_mono[OF _ _ _ lf] unfolding m(3) by blast
  have ro: "root_ok g s'" using d(4) lf by (auto simp: root_ok_def word_le_nat_alt intro: sep_mono)
  have pin: "page_in r (mem s') t' q" if "q \<in> fst ` set hps" for q
    using d(6)[OF that] mi(2) af(3) unfolding page_in_def m(3) by fastforce
  have low: "mem s' x = mem s x" if "x \<notin> region ?mgr 24" "unat x < 2 ^ 64 - 2 ^ 46" for x
    using m(7) that by (simp add: low_frame_def)
  have ap: "unat q + 4096 \<le> unat b \<or> unat b + 4096 \<le> unat q" if q: "q \<in> fst ` set hps" for q
  proof -
    obtain c where c: "(q, c, 1) \<in> set (ranges t)" using d(6)[OF q] by (auto simp: page_in_def)
    then have "0 < c" using dd(1) by (force simp: tiled_def)
    then have "unat q + 4096 \<le> range_last (q, c, 1)" by (simp add: range_last_def word_less_nat_alt)
    then show ?thesis using af(4)[OF c] by auto
  qed
  have hpl: "mem s' x = mem s x" if "x \<in> region (heap_root_at g) 8 \<or> (\<exists>q\<in>fst ` set hps. x \<in> region q 4096)" for x
    using low[of x] kheap_low[OF k that] by blast
  have "heap_ok (mem s') (heap_root_at g) hps"
    by (rule heap_ok_cong(1)[OF d(3)]) (use hpl in auto)
  then have "kheap_rep g r ps' s' t' hps" using m(2,4) rk ro pin by (simp add: kheap_rep_def)
  moreover have "page_in r (mem s') t' b" using af(2) mi(1) by (auto simp: page_in_def m(3))
  ultimately show ?thesis using m(1,3,7) ap af(2) by blast
qed

text \<open>Low memory apart from the manager, the global of the heap and the heap pages is not written.\<close>

definition kheap_frame :: "'g globals_scheme \<Rightarrow> hpage list \<Rightarrow> memory \<Rightarrow> memory \<Rightarrow> bool" where
  "kheap_frame g hps m m' \<longleftrightarrow> (\<forall>x. unat x < 2 ^ 64 - 2 ^ 46 \<and> x \<notin> region (kern_vmm_at g) 24 \<and> x \<notin> region (heap_root_at g) 8 \<and>
     (\<forall>pg\<in>fst ` set hps. x \<notin> region pg 4096) \<longrightarrow> m' x = m x)"

text \<open>The contents of allocated memory are not slots of the list of pages.\<close>

lemma payload_slot:
  assumes h: "heap_ok m hr ps" and q: "(q, k) \<in> set (allocs m ps)" and x: "x \<in> region q (unat k)"
    and sl: "sl \<in> set (hr # map fst ps)"
  shows "x \<notin> region sl 8" "\<exists>pg\<in>fst ` set ps. x \<in> region pg 4096"
proof -
  note d = heap_okD[OF h]
  obtain pg fs as b where p: "(pg, fs, as) \<in> set ps" "b \<in> set as" "q = b + 24" "k = blk_length m b"
    using q unfolding allocs_iff by blast
  have pp: "pg \<in> fst ` set ps" using p(1) by force
  have ok: "page_ok m pg fs as" by (rule d(3)[OF p(1)])
  have bB: "b \<in> set (fs @ as)" using p(2) by simp
  note pr = payload_region[OF ok bB] and lo = page_okD(7)[OF ok bB]
  have xp: "x \<in> region pg 4096" using pr(3) x p(3,4) by auto
  then show "\<exists>pg\<in>fst ` set ps. x \<in> region pg 4096" using pp by blast
  have ux: "unat x < unat pg + 4096" using xp d(7)[OF pp] region_unat[of pg 4096 x] by auto
  have hi: "unat q + unat k \<le> 2 ^ 64" using pr(2) page_okD(8)[OF ok bB] d(7)[OF pp] p(3,4) by simp
  have uq: "unat pg + 48 \<le> unat x" using x region_unat[OF hi, of x] pr(1) lo p(3) by auto
  have "sl = hr \<or> sl \<in> fst ` set ps" using sl by simp
  then have "unat sl + 8 \<le> unat x \<or> unat x < unat sl" "unat sl + 8 \<le> 2 ^ 64"
    using d(4)[OF pp, of sl] d(5)[OF pp] d(6) d(7)[of sl] ux uq by (cases "sl = pg"; auto del: imageE)+
  then show "x \<notin> region sl 8" using region_unat[of sl 8 x] by auto
qed

definition heap_room :: "u64 \<Rightarrow> 'z node_heap_scheme \<Rightarrow> avl \<Rightarrow> bool" where
  "heap_room r s t \<longleftrightarrow> 9 \<le> length (pmm_stack s) \<and>
     (case alloc_range 2 (ranges t) of None \<Rightarrow> False | Some (b, zs) \<Rightarrow> no_huge (mem s) r b \<and> no_huge (mem s) r (b + 0x1000))"

lemma heap_pages_small: "sz \<le> 8192 \<Longrightarrow> heap_pages sz = 2"
proof -
  assume a: "sz \<le> 8192"
  have "unat sz \<le> 8192" using a by (simp add: word_le_nat_alt)
  then have d: "unat (sz div 4096) = unat sz div 4096" "unat (sz mod 4096) = unat sz mod 4096" by (simp_all add: unat_div unat_mod)
  consider "sz div 4096 = 0" | "sz div 4096 = 1" | "sz = 8192"
  proof -
    have "unat sz div 4096 = 0 \<or> unat sz div 4096 = 1 \<or> unat sz = 8192" using \<open>unat sz \<le> 8192\<close> by auto
    then show thesis using that d(1) by (auto simp: word_unat_eq_iff)
  qed
  then show ?thesis by cases (simp_all add: heap_pages_def)
qed

lemma find_free_grow:
  assumes k: "kheap_rep g r ps s t hps" and n: "\<forall>p\<in>set hps. fit (mem s) sz p = None" and room: "heap_room r s t" and sz: "sz \<le> 8192"
  defines "b \<equiv> fst (the (alloc_range 2 (ranges t)))"
  shows "\<exists>ps' s' t'. find_free g sz s = Some (b + 24, s') \<and> kheap_rep g r ps' s' t' (hps @ [(b, [b + 24], [])]) \<and>
    blk_length (mem s') (b + 24) = 4048 \<and> (b, 2, 1) \<in> set (ranges t') \<and> allocs (mem s') (hps @ [(b, [b + 24], [])]) = allocs (mem s) hps \<and>
    (\<forall>(q, n)\<in>set (allocs (mem s) hps). \<forall>x\<in>region q (unat n). mem s' x = mem s x) \<and>
    kheap_frame g (hps @ [(b, [b + 24], [])]) (mem s) (mem s')"
proof -
  let ?hr = "heap_root_at g"
  note d = kheap_repD[OF k]
  obtain zs where a: "alloc_range 2 (ranges t) = Some (b, zs)" "9 \<le> length (pmm_stack s)" "no_huge (mem s) r b" "no_huge (mem s) r (b + 0x1000)"
    using room by (auto simp: heap_room_def b_def split: option.splits)
  obtain ps' s1 t' where m: "malloc_pages (kern_vmm_at g) 2 1 0 1 s = Some (b, s1)" "kheap_rep g r ps' s1 t' hps"
    "page_in r (mem s1) t' b" "(b, 2, 1) \<in> set (ranges t')" "\<forall>q\<in>fst ` set hps. unat q + 4096 \<le> unat b \<or> unat b + 4096 \<le> unat q" "low_frame (kern_vmm_at g) s s1"
    using kheap_malloc_pages[OF k a] by blast
  let ?sl = "last (?hr # map fst hps)"
  have sl: "?sl \<in> set (?hr # map fst hps)" by (rule last_in_set) simp
  have low: "mem s1 x = mem s x" if "x \<in> region ?hr 8 \<or> (\<exists>q\<in>fst ` set hps. x \<in> region q 4096)" for x
    using kheap_low[OF k that] m(6) by (simp add: low_frame_def)
  note d1 = kheap_repD[OF m(2)]
  note ap = page_in_apart[OF d1(1,5) m(3) d1(4)]
  let ?m = "snd (init_heap_page ?sl b (mem s1))" and ?hps = "hps @ [(b, [b + 24], [])]"
  note np = heap_new_page[OF d1(3) ap(5,6,7) m(5)]
  have "scan_pages (mem s) sz ?hr = Some (0, ?sl)"
    by (rule scan_pages_none[OF heap_okD(1)[OF d(3)] _ n]) (use d(3) in \<open>simp add: heap_ok_def\<close>)
  then have ff: "find_free g sz s = Some (b + 24, s1\<lparr>mem := ?m\<rparr>)"
    using m(1) np(1) by (simp add: find_free_def heap_pages_small[OF sz] split_beta)
  have "kheap_rep g r ps' (s1\<lparr>mem := ?m\<rparr>) t' ?hps"
    by (rule kheap_write[OF m(2) np(2) _ np(6)]) (use d1(6) m(3) in auto)
  moreover have al: "allocs (mem s1) hps = allocs (mem s) hps" by (rule heap_ok_cong(2)[OF d(3)]) (use low in auto)
  moreover have "?m x = mem s x" if q: "(q, n) \<in> set (allocs (mem s) hps)" "x \<in> region q (unat n)" for q n x
  proof -
    note pl = payload_slot[OF d(3) q sl]
    then have "x \<notin> region b 4096" using m(5) heap_okD(7)[OF d(3)] ap(6) region_unat[of b 4096 x] region_unat[of _ 4096 x] by fastforce
    then show ?thesis using np(5)[OF pl(1)] low pl(2) by auto
  qed
  moreover have "kheap_frame g ?hps (mem s) ?m" using np(6) m(6) unfolding kheap_frame_def low_frame_def by simp
  ultimately show ?thesis using ff np(3,4) m(4)
    by (intro exI[of _ ps'] exI[of _ "s1\<lparr>mem := ?m\<rparr>"] exI[of _ t']) auto
qed

lemma malloc_spec:
  assumes k: "kheap_rep g r ps s t hps" and sz: "sz \<le> 4048"
    and room: "(\<exists>p\<in>set hps. fit (mem s) sz p \<noteq> None) \<or> heap_room r s t"
  shows "\<exists>p s' ps' t' hps'. malloc g sz s = Some (p, s') \<and> kheap_rep g r ps' s' t' hps' \<and>
    heap_alloc (heap_root_at g) sz (mem s) hps p (mem s') hps' \<and> kheap_frame g hps' (mem s) (mem s')"
proof (cases "\<exists>p\<in>set hps. fit (mem s) sz p \<noteq> None")
  case True
  note d = kheap_repD[OF k]
  obtain p m' hps' where m: "malloc g sz s = Some (p, s\<lparr>mem := m'\<rparr>)" "heap_alloc (heap_root_at g) sz (mem s) hps p m' hps'"
    "fst ` set hps' = fst ` set hps" "\<forall>x. (\<forall>pg\<in>fst ` set hps. x \<notin> region pg 4096) \<longrightarrow> m' x = mem s x"
    using malloc_found[OF d(3) True] by blast
  have "kheap_rep g r ps (s\<lparr>mem := m'\<rparr>) t hps'"
    by (rule kheap_write[OF k]) (use m(2-4) d(6) in \<open>auto simp: heap_alloc_def\<close>)
  moreover have "kheap_frame g hps' (mem s) m'" using m(3,4) by (simp add: kheap_frame_def)
  ultimately show ?thesis using m(1,2)
    by (intro exI[of _ p] exI[of _ "s\<lparr>mem := m'\<rparr>"] exI[of _ ps] exI[of _ t] exI[of _ hps']) simp
next
  case False
  then have n: "\<forall>p\<in>set hps. fit (mem s) sz p = None" and r: "heap_room r s t" using room by auto
  have "sz \<le> 8192" using sz by (simp add: word_le_nat_alt)
  define b where "b = fst (the (alloc_range 2 (ranges t)))"
  from find_free_grow[OF k n r \<open>sz \<le> 8192\<close>, folded b_def] obtain ps' s1 t' where f: "find_free g sz s = Some (b + 24, s1)"
    "kheap_rep g r ps' s1 t' (hps @ [(b, [b + 24], [])])" "blk_length (mem s1) (b + 24) = 4048" "(b, 2, 1) \<in> set (ranges t')"
    "allocs (mem s1) (hps @ [(b, [b + 24], [])]) = allocs (mem s) hps"
    "\<forall>(q, n)\<in>set (allocs (mem s) hps). \<forall>x\<in>region q (unat n). mem s1 x = mem s x"
    "kheap_frame g (hps @ [(b, [b + 24], [])]) (mem s) (mem s1)" by blast
  note d = kheap_repD[OF f(2)]
  obtain p m' hps' where c: "carve sz (b + 24) (mem s1) = Some (p, m')"
    "heap_alloc (heap_root_at g) sz (mem s1) (hps @ [(b, [b + 24], [])]) p m' hps'"
    "fst ` set hps' = fst ` set (hps @ [(b, [b + 24], [])])" "\<forall>x. x \<notin> region b 4096 \<longrightarrow> m' x = mem s1 x"
    using heap_carve[OF d(3), of "b + 24" sz] f(3) sz by auto
  have "kheap_rep g r ps' (s1\<lparr>mem := m'\<rparr>) t' hps'"
    by (rule kheap_write[OF f(2)]) (use c(2-4) d(6) in \<open>auto simp: heap_alloc_def\<close>)
  moreover have "heap_alloc (heap_root_at g) sz (mem s) hps p m' hps'"
    using c(2) f(6) unfolding heap_alloc_def f(5) by fastforce
  moreover have "kheap_frame g hps' (mem s) m'" using f(7) c(3,4) by (simp add: kheap_frame_def)
  ultimately show ?thesis using f(1) c(1) unfolding malloc_carve
    by (intro exI[of _ p] exI[of _ "s1\<lparr>mem := m'\<rparr>"] exI[of _ ps'] exI[of _ t'] exI[of _ hps']) simp
qed

end
