(* ===== verification/Kheap_Free.thy ===== *)
theory Kheap_Free
  imports Kheap_Space
begin

text \<open>
  Freeing: the search of the free list for a neighbour, the page after a block has left its list, and \<open>free\<close> on the
  whole heap.
\<close>

section \<open>The search for a neighbour\<close>

text \<open>The free list is searched for the first block that ends where the freed block starts, or starts where it ends.\<close>

definition neighbour :: "memory \<Rightarrow> u64 \<Rightarrow> u64 \<Rightarrow> bool" where
  "neighbour m b v \<longleftrightarrow> v + 24 + blk_length m v = b \<or> b + 24 + blk_length m b = v"

lemma insert_free_below:
  "links m sl (xs @ v # ys) 0 \<Longrightarrow> \<forall>w\<in>set xs. \<not> neighbour m b w \<Longrightarrow> v + 24 + blk_length m v = b \<Longrightarrow>
   insert_free m b pa sl = Some (st64 m (v + 16) (blk_length m v + (blk_length m b + 24)))"
proof (induction xs arbitrary: pa sl)
  case Nil
  then show ?case by (subst insert_free.simps) simp
next
  case (Cons w xs)
  then show ?case by (subst insert_free.simps) (auto simp: neighbour_def)
qed

lemma insert_free_end:
  "links m sl fs 0 \<Longrightarrow> \<forall>w\<in>set fs. \<not> neighbour m b w \<Longrightarrow> insert_free m b pa sl = Some (st64 m (last (sl # fs)) b)"
proof (induction fs arbitrary: pa sl)
  case Nil
  then show ?case by (subst insert_free.simps) simp
next
  case (Cons w fs)
  then show ?case by (subst insert_free.simps) (auto simp: neighbour_def)
qed

section \<open>Freeing a block of a page\<close>

definition unlinked :: "u64 \<Rightarrow> u64 list \<Rightarrow> u64 \<Rightarrow> memory \<Rightarrow> memory" where
  "unlinked pg as1 b m = st64 m (last ((pg + 16) # as1)) (ld64 m b)"

lemma unlink_block:
  assumes p: "page_ok m pg fs (as1 @ b # as2)"
  defines "m' \<equiv> unlinked pg as1 b m"
  shows "free_block b m = insert_free m' b (last ((pg + 16) # as1)) (pg + 8)"
    "links m' (pg + 8) fs 0" "links m' (pg + 16) (as1 @ as2) 0" "links m' b as2 0"
    "c \<in> set (fs @ as1 @ b # as2) \<Longrightarrow> blk_length m' c = blk_length m c \<and> blk_pghdr m' c = blk_pghdr m c"
    "last ((pg + 16) # as1) \<in> slots pg (set (fs @ as1 @ b # as2))"
proof -
  let ?B = "set (fs @ as1 @ b # as2)" and ?p = "last ((pg + 16) # as1)"
  note d = page_okD[OF p]
  have H: "hdrs_apart (insert pg ?B)" "pg \<notin> ?B" and no: "pg + 8 \<notin> ?B" "pg + 16 \<notin> ?B" using page_apart[OF p] by simp_all
  show sl: "?p \<in> slots pg ?B" by (rule last_slot) (auto simp: slots_def)
  note st = slot_store[OF H sl]
  have l: "links m (pg + 16) as1 b" "links m b as2 0" using d(4) by (simp_all add: links_append)
  show "links m' (pg + 16) (as1 @ as2) 0" unfolding m'_def unlinked_def
    by (rule links_remove[OF H d(4)]) (use d(5) no in \<open>auto simp: slots_def\<close>)
  show "links m' (pg + 8) fs 0" unfolding m'_def unlinked_def
    by (rule links_store_other[OF H d(3) _ sl last_slot_out]) (use d(5) no in \<open>auto simp: slots_def\<close>)
  show "links m' b as2 0" unfolding m'_def unlinked_def
    by (rule links_store_other[OF H l(2) _ sl last_slot_out]) (use d(5) no in \<open>auto simp: slots_def\<close>)
  show "c \<in> ?B \<Longrightarrow> blk_length m' c = blk_length m c \<and> blk_pghdr m' c = blk_pghdr m c"
    using st(2,3) by (simp add: m'_def unlinked_def)
  have "find_slot m b (pg + 16) = Some ?p" by (rule find_slot_links[OF l(1)]) (use d(5) in auto)
  then show "free_block b m = insert_free m' b ?p (pg + 8)"
    using d(6)[of b] by (simp add: free_block_def m'_def unlinked_def blk_next_def)
qed

lemma blk_end_word:
  assumes "page_ok m pg fs as" "v \<in> set (fs @ as)"
  shows "unat (v + 24 + blk_length m v) = blk_end m v"
proof -
  have "blk_end m v \<le> 2 ^ 64 - 2 ^ 46" using page_okD(2,8)[OF assms(1)] assms(2) by (meson order_trans)
  then have b: "unat v + 24 + unat (blk_length m v) < 2 ^ 64" by (simp add: blk_end_def)
  then have "unat (v + 24) = unat v + 24" by (subst unat_add_small) simp_all
  then show ?thesis using b by (subst unat_add_small) (simp_all add: blk_end_def)
qed

text \<open>What freeing changes: the page header and the headers of the blocks.\<close>

definition free_frame_page :: "u64 \<Rightarrow> u64 set \<Rightarrow> memory \<Rightarrow> memory \<Rightarrow> bool" where
  "free_frame_page pg B m m' \<longleftrightarrow> (\<forall>x. x \<notin> region (pg + 8) 16 \<and> (\<forall>b\<in>B. x \<notin> region b 24) \<longrightarrow> m' x = m x)"

lemma free_below:
  assumes p: "page_ok m pg (xs @ v # ys) (as1 @ b # as2)" and v: "blk_end m v = unat b"
    and n: "\<forall>w\<in>set xs. \<not> neighbour m b w"
  defines "B \<equiv> set (xs @ v # ys @ as1 @ b # as2)"
  shows "\<exists>m'. free_block b m = Some m' \<and> page_ok m' pg (xs @ v # ys) (as1 @ as2) \<and>
    blk_length m' v = blk_length m v + (blk_length m b + 24) \<and> (\<forall>c\<in>B - {v}. blk_length m' c = blk_length m c) \<and>
    free_frame_page pg B m m'"
proof -
  let ?m1 = "unlinked pg as1 b m" and ?l = "blk_length m v + (blk_length m b + 24)"
  let ?m2 = "st64 ?m1 (v + 16) ?l"
  note d = page_okD[OF p] and u = unlink_block[OF p]
  have B: "B = set ((xs @ v # ys) @ as1 @ b # as2)" by (simp add: B_def)
  have H: "hdrs_apart (insert pg B)" "pg \<notin> B" using page_apart[OF p] by (simp_all add: B)
  have vb: "v \<in> B" "b \<in> B" "v \<noteq> b" using d(5) by (auto simp: B)
  have len: "blk_length ?m1 c = blk_length m c" "blk_pghdr ?m1 c = blk_pghdr m c" if "c \<in> B" for c using u(5)[of c] that by (simp_all add: B)
  note st = length_store[OF H vb(1), where m = ?m1 and v = ?l]
  have "v + 24 + blk_length m v = b" using blk_end_word[OF p, of v] v vb(1) by (simp add: word_unat_eq_iff B)
  then have "insert_free ?m1 b pa (pg + 8) = Some ?m2" for pa
    using insert_free_below[OF u(2), of b pa] n len vb by (auto simp: neighbour_def B)
  then have fb: "free_block b m = Some ?m2" using u(1) by simp
  have hi: "blk_end m b \<le> unat pg + 4096" "blk_end m b \<le> 2 ^ 64 - 2 ^ 46" using d(2) d(8)[of b] vb(2) by (auto simp: B)
  have e: "unat ?l = unat (blk_length m v) + (unat (blk_length m b) + 24)"
  proof -
    have "unat (blk_length m b) + 24 + unat (blk_length m v) < 2 ^ 64" using hi(2) v by (simp add: blk_end_def)
    moreover from this have "unat (blk_length m b + 24) = unat (blk_length m b) + 24" by (subst unat_add_small) simp_all
    ultimately show ?thesis by (subst unat_add_small) simp_all
  qed
  have l2: "blk_length ?m2 c = (if c = v then ?l else blk_length m c)" "blk_pghdr ?m2 c = blk_pghdr m c" if "c \<in> B" for c
    using st(2,3)[OF that] len[OF that] by simp_all
  have ev: "blk_end ?m2 v = blk_end m b" using l2(1)[OF vb(1)] e v by (simp add: blk_end_def)
  have ec: "blk_end ?m2 c = blk_end m c" if "c \<in> B" "c \<noteq> v" for c using l2(1)[OF that(1)] that(2) by (simp add: blk_end_def)
  have vc: "blk_end m b \<le> unat c \<or> blk_end m c \<le> unat v" if c: "c \<in> B" "c \<noteq> v" "c \<noteq> b" for c
    using d(9)[of v c] d(9)[of b c] c vb v blk_end_ge[of c m] by (auto simp: B)
  let ?C = "set ((xs @ v # ys) @ as1 @ as2)"
  have C: "c \<in> B" "c \<noteq> b" if "c \<in> ?C" for c using that d(5) by (auto simp: B)
  have ap: "blk_end ?m2 c \<le> unat c' \<or> blk_end ?m2 c' \<le> unat c" if c: "c \<in> ?C" "c' \<in> ?C" "c \<noteq> c'" for c c'
    using d(9)[of c c'] vc[of c] vc[of c'] C[OF c(1)] C[OF c(2)] c(3) ec ev
    by (cases "c = v"; cases "c' = v") (auto simp: B)
  have slots: "x \<in> slots pg B" if "x \<in> {pg + 8, pg + 16} \<union> B" for x using that by (auto simp: slots_def)
  have "links ?m2 (pg + 8) (xs @ v # ys) 0" by (rule iffD2[OF links_cong u(2)]) (use st(1) slots in \<open>auto simp: B\<close>)
  moreover have "links ?m2 (pg + 16) (as1 @ as2) 0" by (rule iffD2[OF links_cong u(3)]) (use st(1) slots in \<open>auto simp: B\<close>)
  moreover have "blk_pghdr ?m2 c = pg \<and> unat pg + 24 \<le> unat c \<and> blk_end ?m2 c \<le> unat pg + 4096" if c: "c \<in> ?C" for c
    using d(6)[of c] d(7)[of c] d(8)[of c] l2(2)[OF C(1)[OF c]] ec[OF C(1)[OF c]] ev hi(1) C(1)[OF c] by (cases "c = v") (auto simp: B)
  moreover have "distinct ((xs @ v # ys) @ as1 @ as2)" using d(5) by auto
  ultimately have "page_ok ?m2 pg (xs @ v # ys) (as1 @ as2)" unfolding page_ok_def using d(1,2) ap by blast
  moreover have "free_frame_page pg B m ?m2" unfolding free_frame_page_def
  proof (intro allI impI)
    fix x assume x: "x \<notin> region (pg + 8) 16 \<and> (\<forall>b\<in>B. x \<notin> region b 24)"
    then have "x \<notin> region (last ((pg + 16) # as1)) 8" by (intro slot_region[OF u(6)]) (simp_all add: B)
    moreover have "x \<notin> region (v + 16) 8" using x vb(1) word_region(3)[of v] by blast
    ultimately show "?m2 x = m x" by (simp only: unlinked_def m64.st_region not_False_eq_True)
  qed
  ultimately show ?thesis using fb l2(1) vb(1) by auto
qed

text \<open>Without a neighbour the block becomes the last of the free list, together with whatever its \<open>next\<close> leads to.\<close>

lemma free_end:
  assumes p: "page_ok m pg fs (as1 @ b # as2)" and n: "\<forall>w\<in>set fs. \<not> neighbour m b w"
  defines "B \<equiv> set (fs @ as1 @ b # as2)"
  shows "\<exists>m'. free_block b m = Some m' \<and> links m' (pg + 8) (fs @ b # as2) 0 \<and> links m' (pg + 16) (as1 @ as2) 0 \<and>
    (\<forall>c\<in>B. blk_length m' c = blk_length m c \<and> blk_pghdr m' c = blk_pghdr m c) \<and> free_frame_page pg B m m'"
proof -
  let ?m1 = "unlinked pg as1 b m" and ?t = "last ((pg + 8) # fs)"
  let ?m2 = "st64 ?m1 ?t b"
  note d = page_okD[OF p] and u = unlink_block[OF p]
  have H: "hdrs_apart (insert pg B)" "pg \<notin> B" and no: "pg + 8 \<notin> B" "pg + 16 \<notin> B" using page_apart[OF p] by (simp_all add: B_def)
  have sl: "?t \<in> slots pg B" by (rule last_slot) (auto simp: slots_def B_def)
  note st = slot_store[OF H sl, where m = ?m1 and v = b]
  have len: "blk_length ?m1 c = blk_length m c" "blk_pghdr ?m1 c = blk_pghdr m c" if "c \<in> B" for c using u(5)[of c] that by (simp_all add: B_def)
  have "insert_free ?m1 b pa (pg + 8) = Some ?m2" for pa
    using insert_free_end[OF u(2), of b pa] n len by (auto simp: neighbour_def B_def)
  then have fb: "free_block b m = Some ?m2" using u(1) by simp
  have bs: "set ((pg + 8) # fs) \<subseteq> slots pg B" by (auto simp: slots_def B_def)
  have "links ?m2 (pg + 8) fs b"
    by (rule links_set_end[OF u(2)]) (use d(5) no bs slot_sep[OF H sl] in \<open>auto simp: B_def\<close>)
  moreover have "links ?m2 b as2 0"
    by (rule links_store_other[OF H u(4) _ sl last_slot_out]) (use d(5) no in \<open>auto simp: slots_def B_def\<close>)
  moreover have "b \<noteq> 0" using d(4) by (simp add: links_append)
  ultimately have "links ?m2 (pg + 8) (fs @ b # as2) 0" by (simp add: links_append)
  moreover have "links ?m2 (pg + 16) (as1 @ as2) 0"
    by (rule links_store_other[OF H u(3) _ sl last_slot_out]) (use d(5) no in \<open>auto simp: slots_def B_def\<close>)
  moreover have "free_frame_page pg B m ?m2" unfolding free_frame_page_def
  proof (intro allI impI)
    fix x assume x: "x \<notin> region (pg + 8) 16 \<and> (\<forall>b\<in>B. x \<notin> region b 24)"
    then have "x \<notin> region (last ((pg + 16) # as1)) 8" by (intro slot_region[OF u(6)]) (simp_all add: B_def)
    moreover have "x \<notin> region ?t 8" by (rule slot_region[OF sl]) (use x in blast)+
    ultimately show "?m2 x = m x" by (simp only: unlinked_def m64.st_region not_False_eq_True)
  qed
  moreover have "\<forall>c\<in>B. blk_length ?m2 c = blk_length m c \<and> blk_pghdr ?m2 c = blk_pghdr m c" using st(2,3) len by simp
  ultimately show ?thesis using fb by blast
qed

text \<open>
  The two cases in which the lists stay disjoint: the first neighbour in the free list is the one below, or
  there is none and the block is the last of the allocated ones.
\<close>

definition free_good :: "memory \<Rightarrow> u64 list \<Rightarrow> u64 \<Rightarrow> u64 list \<Rightarrow> bool" where
  "free_good m fs b as2 \<longleftrightarrow> (case find (neighbour m b) fs of None \<Rightarrow> as2 = [] | Some v \<Rightarrow> v + 24 + blk_length m v = b)"

lemma free_block_spec:
  assumes p: "page_ok m pg fs (as1 @ b # as2)" and good: "free_good m fs b as2"
  shows "\<exists>m' fs'. free_block b m = Some m' \<and> page_ok m' pg fs' (as1 @ as2) \<and>
    (\<forall>c\<in>set (as1 @ as2). blk_length m' c = blk_length m c) \<and> free_frame_page pg (set (fs @ as1 @ b # as2)) m m'"
proof (cases "find (neighbour m b) fs")
  case None
  then have n: "\<forall>w\<in>set fs. \<not> neighbour m b w" by (simp add: find_None_iff)
  have e: "as2 = []" using good None by (simp add: free_good_def)
  obtain m' where f: "free_block b m = Some m'" "links m' (pg + 8) (fs @ [b]) 0" "links m' (pg + 16) as1 0"
    "\<forall>c\<in>set (fs @ as1 @ [b]). blk_length m' c = blk_length m c \<and> blk_pghdr m' c = blk_pghdr m c" "free_frame_page pg (set (fs @ as1 @ [b])) m m'"
    using free_end[OF p n] e by auto
  have "page_ok m' pg (fs @ [b]) as1"
    by (rule page_ok_relist[OF p[unfolded e] f(2,3)]) (use page_okD(5)[OF p] f(4) e in auto)
  then show ?thesis using f(1,4,5) e by auto
next
  case (Some v)
  then obtain i where i: "i < length fs" "neighbour m b (fs ! i)" "v = fs ! i" "\<forall>j<i. \<not> neighbour m b (fs ! j)"
    by (auto simp: find_Some_iff)
  then have fs: "fs = take i fs @ v # drop (Suc i) fs" by (simp add: id_take_nth_drop)
  have n: "\<forall>w\<in>set (take i fs). \<not> neighbour m b w" using i(1,4) by (auto simp: in_set_conv_nth)
  have "v \<in> set fs" using i(1,3) by simp
  then have "blk_end m v = unat b" using blk_end_word[OF p, of v] good Some by (simp add: free_good_def)
  then obtain m' where f: "free_block b m = Some m'" "page_ok m' pg fs (as1 @ as2)"
    "\<forall>c\<in>set (fs @ as1 @ b # as2) - {v}. blk_length m' c = blk_length m c" "free_frame_page pg (set (fs @ as1 @ b # as2)) m m'"
    using free_below[of m pg "take i fs" v "drop (Suc i) fs"] p n fs by (metis append_assoc append_Cons)
  have "v \<notin> set (as1 @ as2)" using page_okD(5)[OF p] \<open>v \<in> set fs\<close> by auto
  then have "\<forall>c\<in>set (as1 @ as2). blk_length m' c = blk_length m c" using f(3) by auto
  then show ?thesis using f(1,2,4) by blast
qed

section \<open>Freeing on the whole heap\<close>

lemma payload_header:
  assumes p: "page_ok m pg fs as" and b: "b \<in> set (fs @ as)" and x: "x \<in> region (b + 24) (unat (blk_length m b))"
  shows "x \<notin> region (pg + 8) 16" "\<forall>c\<in>set (fs @ as). x \<notin> region c 24"
proof -
  note d = page_okD[OF p] and pr = payload_region[OF p b]
  have hi: "blk_end m b \<le> 2 ^ 64" using d(2) d(8)[OF b] by simp
  then have ux: "unat b + 24 \<le> unat x" "unat x < blk_end m b"
    using x region_unat[of "b + 24" "unat (blk_length m b)" x] pr(1,2) by simp_all
  have "unat (pg + 8) = unat pg + 8" using d(2) by (simp add: unat_plus_if')
  then show "x \<notin> region (pg + 8) 16" using region_unat[of "pg + 8" 16 x] ux(1) d(2) d(7)[OF b] by simp
  show "\<forall>c\<in>set (fs @ as). x \<notin> region c 24"
  proof
    fix c assume c: "c \<in> set (fs @ as)"
    have "unat c + 24 \<le> 2 ^ 64" using d(2) d(8)[OF c] blk_end_ge[of c m] by simp
    moreover have "c \<noteq> b \<Longrightarrow> unat c + 24 \<le> unat b \<or> blk_end m b \<le> unat c" using d(9)[OF c b] blk_end_ge[of c m] by auto
    ultimately show "x \<notin> region c 24" using region_unat[of c 24 x] ux by (cases "c = b") auto
  qed
qed

lemma free_frame_parts:
  assumes p: "page_ok m pg fs as" and f: "free_frame_page pg (set (fs @ as)) m m'"
  shows "x \<notin> region pg 4096 \<Longrightarrow> m' x = m x" "ld64 m' pg = ld64 m pg"
    "b \<in> set (fs @ as) \<Longrightarrow> x \<in> region (b + 24) (unat (blk_length m b)) \<Longrightarrow> m' x = m x"
proof -
  note d = page_okD[OF p]
  show "m' x = m x" if "b \<in> set (fs @ as)" "x \<in> region (b + 24) (unat (blk_length m b))"
    using f payload_header[OF p that] unfolding free_frame_page_def by blast
  have "region (pg + 8) 16 \<subseteq> region pg 4096" using region_sub[of 8 16 4096 pg] by simp
  then show "x \<notin> region pg 4096 \<Longrightarrow> m' x = m x" using f page_region(1)[OF p] unfolding free_frame_page_def by blast
  have "m' x = m x" if x: "x \<in> region pg 8" for x
  proof -
    have ux: "unat x < unat pg + 8" using x d(2) region_unat[of pg 8 x] by auto
    have "unat (pg + 8) = unat pg + 8" using d(2) by (simp add: unat_plus_if')
    then have "x \<notin> region (pg + 8) 16" using ux d(2) region_unat[of "pg + 8" 16 x] by simp
    moreover have "x \<notin> region c 24" if c: "c \<in> set (fs @ as)" for c
      using region_unat[of c 24 x] ux d(2) d(7)[OF c] d(8)[OF c] blk_end_ge[of c m] by simp
    ultimately show ?thesis using f unfolding free_frame_page_def by blast
  qed
  then show "ld64 m' pg = ld64 m pg" using m64.ld_frame[of pg 8 m' m 0] by simp
qed

text \<open>What freeing promises: the block is no longer allocated, and all other memory stays as it was.\<close>

definition heap_free :: "u64 \<Rightarrow> memory \<Rightarrow> hpage list \<Rightarrow> u64 \<Rightarrow> memory \<Rightarrow> hpage list \<Rightarrow> bool" where
  "heap_free hr m ps p m' ps' \<longleftrightarrow> heap_ok m' hr ps' \<and>
     (\<exists>n. mset (allocs m ps) = add_mset (p, n) (mset (allocs m' ps'))) \<and>
     (\<forall>(q, k)\<in>set (allocs m' ps'). \<forall>x\<in>region q (unat k). m' x = m x)"

lemma free_code:
  assumes p: "page_ok (mem s) pg fs as" "b \<in> set (fs @ as)" and f: "free_block b (mem s) = Some m'" and a: "ld64 m' (pg + 16) \<noteq> 0"
  shows "free g (b + 24) j1 j2 s = Some (s\<lparr>mem := m'\<rparr>)"
  using page_okD(6)[OF p] f a by (simp add: free_def Let_def pg_allocated_def)

lemma heap_free_block:
  assumes h: "heap_ok m hr (xs @ (pg, fs, as1 @ b # as2) # ys)" and p: "page_ok m' pg fs' (as1 @ as2)"
    and l: "\<forall>c\<in>set (as1 @ as2). blk_length m' c = blk_length m c" and f: "free_frame_page pg (set (fs @ as1 @ b # as2)) m m'"
  shows "heap_free hr m (xs @ (pg, fs, as1 @ b # as2) # ys) (b + 24) m' (xs @ (pg, fs', as1 @ as2) # ys)"
proof -
  let ?ps = "xs @ (pg, fs, as1 @ b # as2) # ys" and ?ps' = "xs @ (pg, fs', as1 @ as2) # ys"
  note d = heap_okD[OF h]
  have pk: "page_ok m pg fs (as1 @ b # as2)" by (rule d(3)) simp
  note fp = free_frame_parts[OF pk f]
  have out: "\<forall>x. x \<notin> region pg 4096 \<longrightarrow> m' x = m x" using fp(1) by blast
  have ok: "heap_ok m' hr ?ps'" by (rule heap_ok_update[OF h p out fp(2)])
  have other: "\<forall>x\<in>region q 4096. m' x = m x" if "(q, fq, aq) \<in> set (xs @ ys)" for q fq aq
  proof -
    have "q \<noteq> pg" "q \<in> fst ` set ?ps" using d(2) that by force+
    then show ?thesis using page_regions_apart[OF h, of pg q] out by auto
  qed
  have oa: "page_allocs m' (q, fq, aq) = page_allocs m (q, fq, aq)" if "(q, fq, aq) \<in> set (xs @ ys)" for q fq aq
    by (rule page_allocs_cong[OF d(3) other[OF that]]) (use that in auto)
  have xy: "map (page_allocs m') xs = map (page_allocs m) xs" "map (page_allocs m') ys = map (page_allocs m) ys" using oa by auto
  have pa: "page_allocs m (pg, fs, as1 @ b # as2) = page_allocs m (pg, fs', as1) @ (b + 24, blk_length m b) # page_allocs m (pg, fs', as2)"
    "page_allocs m' (pg, fs', as1 @ as2) = page_allocs m (pg, fs', as1) @ page_allocs m (pg, fs', as2)"
    using l by (simp_all add: page_allocs_def)
  have ms: "mset (allocs m ?ps) = add_mset (b + 24, blk_length m b) (mset (allocs m' ?ps'))"
    unfolding allocs_def map_append list.map xy pa by simp
  have "m' x = m x" if q: "(q, k) \<in> set (allocs m' ?ps')" "x \<in> region q (unat k)" for q k x
  proof -
    have "(q, k) \<in># mset (allocs m ?ps)" unfolding ms using q(1) by simp
    then have "(q, k) \<in> set (allocs m ?ps)" by simp
    then obtain g fg ag c where g: "(g, fg, ag) \<in> set ?ps" "c \<in> set ag" "q = c + 24" "k = blk_length m c" unfolding allocs_iff by blast
    show ?thesis
    proof (cases "g = pg")
      case True
      have "(fg, ag) = (fs, as1 @ b # as2)" by (rule eq_key_imp_eq_value[OF d(2), of pg]) (use g(1) True in simp_all)
      then show ?thesis using fp(3)[of c x] g(2-4) q(2) by auto
    next
      case False
      then have "(g, fg, ag) \<in> set (xs @ ys)" using g(1) by auto
      from other[OF this] show ?thesis using payload_region(3)[OF d(3)[OF g(1)], of c] g(2-4) q(2) by auto
    qed
  qed
  then show ?thesis unfolding heap_free_def using ok ms by auto
qed

lemma free_spec:
  assumes k: "kheap_rep g r ps s t (xs @ (pg, fs, as1 @ b # as2) # ys)" and good: "free_good (mem s) fs b as2" and n: "as1 @ as2 \<noteq> []"
  shows "\<exists>s' fs'. free g (b + 24) j1 j2 s = Some s' \<and> kheap_rep g r ps s' t (xs @ (pg, fs', as1 @ as2) # ys) \<and>
    heap_free (heap_root_at g) (mem s) (xs @ (pg, fs, as1 @ b # as2) # ys) (b + 24) (mem s') (xs @ (pg, fs', as1 @ as2) # ys)"
proof -
  let ?ps = "xs @ (pg, fs, as1 @ b # as2) # ys"
  note d = kheap_repD[OF k]
  have p: "page_ok (mem s) pg fs (as1 @ b # as2)" by (rule heap_okD(3)[OF d(3)]) simp
  obtain m' fs' where f: "free_block b (mem s) = Some m'" "page_ok m' pg fs' (as1 @ as2)"
    "\<forall>c\<in>set (as1 @ as2). blk_length m' c = blk_length (mem s) c" "free_frame_page pg (set (fs @ as1 @ b # as2)) (mem s) m'"
    using free_block_spec[OF p good] by blast
  have "ld64 m' (pg + 16) \<noteq> 0" using page_okD(4)[OF f(2)] n by (cases "as1 @ as2") auto
  then have c: "free g (b + 24) j1 j2 s = Some (s\<lparr>mem := m'\<rparr>)" by (intro free_code[OF p _ f(1)]) simp_all
  note hf = heap_free_block[OF d(3) f(2-4)]
  have "kheap_rep g r ps (s\<lparr>mem := m'\<rparr>) t (xs @ (pg, fs', as1 @ as2) # ys)"
  proof (rule kheap_write[OF k])
    show "heap_ok m' (heap_root_at g) (xs @ (pg, fs', as1 @ as2) # ys)" using hf by (simp add: heap_free_def)
    show "page_in r (mem s) t q" if "q \<in> fst ` set (xs @ (pg, fs', as1 @ as2) # ys)" for q by (rule d(6)) (use that in auto)
    show "m' x = mem s x" if "\<forall>q\<in>fst ` set (xs @ (pg, fs', as1 @ as2) # ys). x \<notin> region q 4096" for x
      by (rule free_frame_parts(1)[OF p f(4)]) (use that in auto)
  qed
  then show ?thesis using c hf by (intro exI[of _ "s\<lparr>mem := m'\<rparr>"] exI[of _ fs']) simp
qed

section \<open>Writing to allocated memory\<close>

text \<open>A client's writes to the memory of an allocated block change nothing of the heap.\<close>

lemma payload_pghdr:
  assumes p: "page_ok m pg fs as" and b: "b \<in> set (fs @ as)" and x: "x \<in> region (b + 24) (unat (blk_length m b))"
  shows "x \<notin> region pg 24"
proof -
  note d = page_okD[OF p] and pr = payload_region[OF p b]
  have "unat (b + 24) + unat (blk_length m b) \<le> 2 ^ 64" using pr(2) d(8)[OF b] d(2) by simp
  then have "unat pg + 48 \<le> unat x" using x region_unat[of "b + 24" "unat (blk_length m b)" x] pr(1) d(7)[OF b] by simp
  then show ?thesis using region_unat[of pg 24 x] d(2) by auto
qed

lemma payload_page:
  assumes p: "page_ok m pg fs as" and b: "b \<in> set as" and w: "\<And>x. x \<notin> region (b + 24) (unat (blk_length m b)) \<Longrightarrow> m' x = m x"
  shows "page_ok m' pg fs as" "c \<in> set (fs @ as) \<Longrightarrow> blk_length m' c = blk_length m c" "x \<notin> region pg 4096 \<Longrightarrow> m' x = m x"
    "ld64 m' pg = ld64 m pg"
proof -
  note d = page_okD[OF p]
  have bB: "b \<in> set (fs @ as)" using b by simp
  note ph = payload_header[OF p bB] and pr = payload_region[OF p bB]
  have e: "\<forall>c\<in>insert pg (set (fs @ as)). \<forall>x\<in>region c 24. m' x = m x" using w payload_pghdr[OF p bB] ph(2) by blast
  show "page_ok m' pg fs as" by (rule page_ok_headers[OF p e])
  show "blk_length m' c = blk_length m c" if "c \<in> set (fs @ as)" using header_cong(3)[of c m' m] e that by (simp add: blk_length_def)
  show "x \<notin> region pg 4096 \<Longrightarrow> m' x = m x" using w pr(3) by blast
  show "ld64 m' pg = ld64 m pg" using header_cong(1)[of pg m' m] e by simp
qed

lemma kheap_payload:
  assumes k: "kheap_rep g r ps s t (xs @ (pg, fs, as) # ys)" and b: "b \<in> set as"
    and w: "\<And>x. x \<notin> region (b + 24) (unat (blk_length (mem s) b)) \<Longrightarrow> m' x = mem s x"
  shows "kheap_rep g r ps (s\<lparr>mem := m'\<rparr>) t (xs @ (pg, fs, as) # ys)" "c \<in> set (fs @ as) \<Longrightarrow> blk_length m' c = blk_length (mem s) c"
proof -
  note d = kheap_repD[OF k]
  have p: "page_ok (mem s) pg fs as" by (rule heap_okD(3)[OF d(3)]) simp
  note pp = payload_page[OF p b w]
  have out: "\<forall>x. x \<notin> region pg 4096 \<longrightarrow> m' x = mem s x" using pp(3) by blast
  have "heap_ok m' (heap_root_at g) (xs @ (pg, fs, as) # ys)" by (rule heap_ok_update[OF d(3) pp(1) out pp(4)])
  then show "kheap_rep g r ps (s\<lparr>mem := m'\<rparr>) t (xs @ (pg, fs, as) # ys)" by (rule kheap_write[OF k]) (use out d(6) in auto)
  show "c \<in> set (fs @ as) \<Longrightarrow> blk_length m' c = blk_length (mem s) c" by (rule pp(2))
qed

end
