(* ===== verification/Kheap_Client.thy ===== *)
theory Kheap_Client
  imports Kheap_Free
begin

text \<open>
  The heap as its clients see it: the theorems on \<open>malloc\<close> and \<open>free\<close>, their composition, the two sequences that
  lose the invariant, and an example heap.
\<close>

section \<open>Splitting, on the whole heap\<close>

lemma carve_split:
  assumes k: "kheap_rep g r ps s t (xs @ (pg, fs, as) # ys)" and f: "f \<in> set fs" "sz \<le> blk_length (mem s) f" "sz + 24 < blk_length (mem s) f"
  defines "a \<equiv> f + 24 + (blk_length (mem s) f - (sz + 24))"
  shows "\<exists>m'. carve sz f (mem s) = Some (a + 24, m') \<and> kheap_rep g r ps (s\<lparr>mem := m'\<rparr>) t (xs @ (pg, fs, as @ [a]) # ys) \<and>
    blk_length m' a = sz \<and> (\<forall>b\<in>set (fs @ as). blk_length m' b = (if b = f then blk_length (mem s) f - (sz + 24) else blk_length (mem s) b)) \<and>
    unat a + 24 + unat sz = blk_end (mem s) f \<and> alloc_frame pg (set (fs @ as)) f (mem s) m'"
proof -
  note d = kheap_repD[OF k]
  have p: "page_ok (mem s) pg fs as" by (rule heap_okD(3)[OF d(3)]) simp
  obtain m' where m: "split_block sz f (mem s) = Some (a + 24, m')" "page_ok m' pg fs (as @ [a])" "blk_length m' a = sz"
    "\<forall>b\<in>set (fs @ as). blk_length m' b = (if b = f then blk_length (mem s) f - (sz + 24) else blk_length (mem s) b)"
    "alloc_frame pg (set (fs @ as)) f (mem s) m'" "unat a + 24 + unat sz = blk_end (mem s) f"
    using split_block_spec[OF p f] unfolding a_def by blast
  have fB: "f \<in> set (fs @ as)" using f(1) by simp
  have out: "\<forall>x. x \<notin> region pg 4096 \<longrightarrow> m' x = mem s x" using alloc_frame_page[OF p fB m(5)] by blast
  have "heap_ok m' (heap_root_at g) (xs @ (pg, fs, as @ [a]) # ys)"
    by (rule heap_ok_update[OF d(3) m(2) out alloc_frame_next[OF p fB m(5)]])
  then have "kheap_rep g r ps (s\<lparr>mem := m'\<rparr>) t (xs @ (pg, fs, as @ [a]) # ys)"
    by (rule kheap_write[OF k]) (use out d(6) in auto)
  then show ?thesis using m(1,3-6) f(3) by (intro exI[of _ m']) (simp add: carve_def)
qed

lemma find_free_first:
  assumes h: "heap_ok (mem s) (heap_root_at g) (xs @ (pg, fs, as) # ys)" and xs: "\<forall>p\<in>set xs. fit (mem s) sz p = None"
    and f: "fit (mem s) sz (pg, fs, as) = Some f"
  shows "find_free g sz s = Some (f, s)" "f \<in> set fs" "sz < blk_length (mem s) f"
proof -
  have "scan_pages (mem s) sz (heap_root_at g) = Some (f, last (heap_root_at g # map fst xs))"
    by (rule scan_pages_first[OF heap_okD(1)[OF h] _ xs f]) (use h in \<open>simp add: heap_ok_def\<close>)
  moreover show i: "f \<in> set fs" "sz < blk_length (mem s) f" using f by (auto simp: fit_def find_Some_iff)
  moreover have "f \<noteq> 0" using page_slot_nonzero[OF heap_okD(3)[OF h, of pg fs as]] i(1) by auto
  ultimately show "find_free g sz s = Some (f, s)" by (simp add: find_free_def)
qed

lemma carve_take:
  assumes k: "kheap_rep g r ps s t (xs @ (pg, us @ f # vs, as) # ys)" and sz: "\<not> sz + 24 < blk_length (mem s) f"
  shows "\<exists>m'. carve sz f (mem s) = Some (f + 24, m') \<and> kheap_rep g r ps (s\<lparr>mem := m'\<rparr>) t (xs @ (pg, us @ vs, as @ [f]) # ys) \<and>
    (\<forall>b\<in>set (us @ f # vs @ as). blk_length m' b = blk_length (mem s) b)"
proof -
  note d = kheap_repD[OF k]
  have p: "page_ok (mem s) pg (us @ f # vs) as" by (rule heap_okD(3)[OF d(3)]) simp
  obtain m' where m: "take_block f (mem s) = Some (f + 24, m')" "page_ok m' pg (us @ vs) (as @ [f])"
    "\<forall>b\<in>set (us @ f # vs @ as). blk_length m' b = blk_length (mem s) b" "alloc_frame pg (set ((us @ f # vs) @ as)) f (mem s) m'"
    using take_block_spec[OF p] by auto
  have out: "\<forall>x. x \<notin> region pg 4096 \<longrightarrow> m' x = mem s x" using alloc_frame_page[OF p _ m(4)] by simp
  have "heap_ok m' (heap_root_at g) (xs @ (pg, us @ vs, as @ [f]) # ys)"
    by (rule heap_ok_update[OF d(3) m(2) out alloc_frame_next[OF p _ m(4)]]) simp
  then have "kheap_rep g r ps (s\<lparr>mem := m'\<rparr>) t (xs @ (pg, us @ vs, as @ [f]) # ys)"
    by (rule kheap_write[OF k]) (use out d(6) in auto)
  then show ?thesis using m(1,3) sz by (intro exI[of _ m']) (simp add: carve_def)
qed

section \<open>Two ways to lose the invariant\<close>

text \<open>Taking a block that is on both lists of its page: the allocated block is handed out again.\<close>

lemma take_twice:
  assumes H: "hdrs_apart (insert pg B)" "pg \<notin> B" "pg + 8 \<notin> B" "pg + 16 \<notin> B" and c: "c \<in> B" "c \<noteq> 0" "blk_pghdr m c = pg"
    and f: "links m (pg + 8) us c" "set us \<subseteq> B" "c \<notin> set us" and a: "links m (pg + 16) as c" "set as \<subseteq> B" "c \<notin> set as" "set us \<inter> set as = {}"
  shows "\<exists>m'. take_block c m = Some (c + 24, m')"
proof -
  let ?p = "last ((pg + 8) # us)"
  let ?m1 = "st64 m ?p (ld64 m c)"
  let ?m2 = "st64 ?m1 c 0"
  have sl: "?p \<in> slots pg B" "c \<in> slots pg B" using last_slot[of "pg + 8" pg B us] f(2) c(1) by (auto simp: slots_def)
  have "?p \<notin> set ((pg + 16) # as)" by (rule last_slot_out) (use f(2) a H in auto)
  then have "links ?m1 (pg + 16) as c" by (intro links_store_other[OF H(1,2) a(1) _ sl(1)]) (use a(2) in \<open>auto simp: slots_def\<close>)
  then have "links ?m2 (pg + 16) as c" by (rule links_store_other[OF H(1,2) _ _ sl(2)]) (use a(2,3) c(1) H in \<open>auto simp: slots_def\<close>)
  then have "links ?m2 (pg + 16) (as @ [c]) 0" using c(2) by (simp add: links_append)
  from list_end_links[OF this] have "list_end ?m2 (pg + 16) = Some c" by simp
  moreover have "blk_pghdr ?m2 c = pg" using slot_store(2)[OF H(1,2) sl(1) c(1)] slot_store(2)[OF H(1,2) sl(2) c(1)] c(3) by simp
  ultimately show ?thesis using find_slot_links[OF f(1,3)] c(3) by (simp add: take_block_def blk_next_def)
qed

section \<open>An example heap\<close>

text \<open>The example address space with an empty heap, and the states after three allocations.\<close>

definition demo_g :: globals where "demo_g = \<lparr>heap_root_at = 0x300000, kern_vmm_at = 0x200000\<rparr>"

definition demo_k0 :: node_heap where "demo_k0 = demo_space\<lparr>mem := st64 (mem demo_space) 0x300000 0\<rparr>"
definition demo_k1 :: node_heap where "demo_k1 = snd (the (malloc demo_g 100 demo_k0))"
definition demo_k2 :: node_heap where "demo_k2 = snd (the (malloc demo_g 200 demo_k1))"
definition demo_k3 :: node_heap where "demo_k3 = snd (the (malloc demo_g 3690 demo_k2))"

lemma demo_space_at: "g_free_pages demo_space = 0x400000" "g_free_index demo_space = 9"
proof -
  show "g_free_index demo_space = 9"
    using arg_cong[OF demo_space_rep(3), of length] by (simp add: word_unat_eq_iff)
  show "g_free_pages demo_space = 0x400000"
    by (simp add: demo_space_def Let_def pmm_free_page_def demo_heap_def demo_base_def demo_nodes_def)
qed

lemma demo_ranges: "ranges demo_tree = [(0x80000, 9, 0), (0x100000, 5, 0), (0x105000, 7, 1)]"
  by (simp add: demo_tree_def demo_x0_def demo_x1_def demo_x2_def entry_of_def)

lemma demo_k0_rep: "kheap_rep demo_g 0x1000 [0x4000] demo_k0 demo_tree []" "heap_room 0x1000 demo_k0 demo_tree"
proof -
  let ?m = "st64 (mem demo_space) 0x300000 0"
  have q: "quiet demo_space ?m" unfolding quiet_def demo_space_at
  proof (intro allI impI)
    fix x :: u64 assume x: "2 ^ 64 - 2 ^ 46 \<le> unat x \<or> x \<in> region 0x400000 (8 * unat (9 :: u64))"
    have "x \<notin> region 0x300000 8" using x region_unat[of "0x400000" 72 x] region_unat[of "0x300000" 8 x] by auto
    then show "?m x = mem demo_space x" by (rule m64.st_region)
  qed
  have o: "?m x = mem demo_space x" if "x \<in> region 0x200000 24" for x
    using that region_unat[of "0x200000" 24 x] region_unat[of "0x300000" 8 x] by (intro m64.st_region) auto
  note sp = quiet_space_rep[OF demo_space_rep(1) q o]
  show "kheap_rep demo_g 0x1000 [0x4000] demo_k0 demo_tree []"
    unfolding kheap_rep_def demo_ranges using sp(1,2) demo_space_rep(2)
    by (simp add: demo_g_def demo_k0_def heap_ok_def root_ok_def range_ok_def aside_def range_last_def demo_space_at sep_def)
  have "alloc_range 2 (ranges demo_tree) = Some (0x100000, [(0x80000, 9, 0), (0x100000, 2, 1), (0x102000, 3, 0), (0x105000, 7, 1)])"
    by (simp add: alloc_range_def demo_ranges fits_def split_range_def)
  moreover have "length (pmm_stack demo_k0) = 9" using sp(3) demo_space_rep(3) by (simp add: demo_k0_def)
  ultimately show "heap_room 0x1000 demo_k0 demo_tree"
    using sp(4) demo_space_rep(4) by (simp add: heap_room_def demo_k0_def)
qed

lemma demo_k1_rep:
  "\<exists>ps t. kheap_rep demo_g 0x1000 ps demo_k1 t [(0x100000, [0x100018], [0x100f84])]"
  "blk_length (mem demo_k1) 0x100018 = 3924" "blk_length (mem demo_k1) 0x100f84 = 100"
proof -
  have "alloc_range 2 (ranges demo_tree) = Some (0x100000, [(0x80000, 9, 0), (0x100000, 2, 1), (0x102000, 3, 0), (0x105000, 7, 1)])"
    by (simp add: alloc_range_def demo_ranges fits_def split_range_def)
  with find_free_grow[OF demo_k0_rep(1) _ demo_k0_rep(2), of 100] obtain ps s t where
    f: "find_free demo_g 100 demo_k0 = Some (0x100018, s)" "kheap_rep demo_g 0x1000 ps s t [(0x100000, [0x100018], [])]"
    "blk_length (mem s) 0x100018 = 4048" by auto
  obtain m where m: "carve 100 0x100018 (mem s) = Some (0x100f9c, m)" "kheap_rep demo_g 0x1000 ps (s\<lparr>mem := m\<rparr>) t [(0x100000, [0x100018], [0x100f84])]"
    "blk_length m 0x100f84 = 100" "blk_length m 0x100018 = 3924"
    using carve_split[of demo_g "0x1000" ps s t "[]" "0x100000" "[0x100018]" "[]" "[]" "0x100018" 100] f(2,3) by auto
  have e: "demo_k1 = s\<lparr>mem := m\<rparr>" using f(1) m(1) by (simp add: demo_k1_def malloc_carve)
  show "\<exists>ps t. kheap_rep demo_g 0x1000 ps demo_k1 t [(0x100000, [0x100018], [0x100f84])]" using m(2) unfolding e by blast
  show "blk_length (mem demo_k1) 0x100018 = 3924" "blk_length (mem demo_k1) 0x100f84 = 100" using m(3,4) by (simp_all add: e)
qed

lemma demo_k2_rep:
  "\<exists>ps t. kheap_rep demo_g 0x1000 ps demo_k2 t [(0x100000, [0x100018], [0x100f84, 0x100ea4])]"
  "blk_length (mem demo_k2) 0x100018 = 3700" "blk_length (mem demo_k2) 0x100f84 = 100" "blk_length (mem demo_k2) 0x100ea4 = 200"
proof -
  obtain ps t where k: "kheap_rep demo_g 0x1000 ps demo_k1 t ([] @ (0x100000, [0x100018], [0x100f84]) # [])" using demo_k1_rep(1) by auto
  have "fit (mem demo_k1) 200 (0x100000, [0x100018], [0x100f84]) = Some 0x100018" by (simp add: fit_def demo_k1_rep(2))
  from find_free_first[OF kheap_repD(3)[OF k] _ this] have f: "find_free demo_g 200 demo_k1 = Some (0x100018, demo_k1)" by simp
  obtain m where m: "carve 200 0x100018 (mem demo_k1) = Some (0x100ebc, m)"
    "kheap_rep demo_g 0x1000 ps (demo_k1\<lparr>mem := m\<rparr>) t [(0x100000, [0x100018], [0x100f84, 0x100ea4])]"
    "blk_length m 0x100ea4 = 200" "blk_length m 0x100018 = 3700" "blk_length m 0x100f84 = 100"
    using carve_split[OF k, of "0x100018" 200] demo_k1_rep(2,3) by auto
  have e: "demo_k2 = demo_k1\<lparr>mem := m\<rparr>" using f m(1) by (simp add: demo_k2_def malloc_carve)
  show "\<exists>ps t. kheap_rep demo_g 0x1000 ps demo_k2 t [(0x100000, [0x100018], [0x100f84, 0x100ea4])]" using m(2) unfolding e by blast
  show "blk_length (mem demo_k2) 0x100018 = 3700" "blk_length (mem demo_k2) 0x100f84 = 100" "blk_length (mem demo_k2) 0x100ea4 = 200"
    using m(3-5) by (simp_all add: e)
qed

lemma demo_k3_rep:
  "\<exists>ps t. kheap_rep demo_g 0x1000 ps demo_k3 t [(0x100000, [], [0x100f84, 0x100ea4, 0x100018])]"
  "blk_length (mem demo_k3) 0x100f84 = 100" "blk_length (mem demo_k3) 0x100ea4 = 200"
proof -
  obtain ps t where k: "kheap_rep demo_g 0x1000 ps demo_k2 t ([] @ (0x100000, [] @ 0x100018 # [], [0x100f84, 0x100ea4]) # [])"
    using demo_k2_rep(1) by auto
  have "fit (mem demo_k2) 3690 (0x100000, [] @ 0x100018 # [], [0x100f84, 0x100ea4]) = Some 0x100018" by (simp add: fit_def demo_k2_rep(2))
  from find_free_first[OF kheap_repD(3)[OF k] _ this] have f: "find_free demo_g 3690 demo_k2 = Some (0x100018, demo_k2)" by simp
  obtain m where m: "carve 3690 0x100018 (mem demo_k2) = Some (0x100030, m)"
    "kheap_rep demo_g 0x1000 ps (demo_k2\<lparr>mem := m\<rparr>) t [(0x100000, [], [0x100f84, 0x100ea4, 0x100018])]"
    "blk_length m 0x100ea4 = 200" "blk_length m 0x100f84 = 100"
    using carve_take[OF k, of 3690] demo_k2_rep(2-4) by auto
  have e: "demo_k3 = demo_k2\<lparr>mem := m\<rparr>" using f m(1) by (simp add: demo_k3_def malloc_carve)
  show "\<exists>ps t. kheap_rep demo_g 0x1000 ps demo_k3 t [(0x100000, [], [0x100f84, 0x100ea4, 0x100018])]" using m(2) unfolding e by blast
  show "blk_length (mem demo_k3) 0x100f84 = 100" "blk_length (mem demo_k3) 0x100ea4 = 200" using m(3,4) by (simp_all add: e)
qed

section \<open>Properties\<close>

text \<open>
  C4. \<open>malloc\<close> composes the block lists of the heap with the virtual memory manager and the page tables.
  For a size of at most 4048 bytes, when a free block is larger than the size or two pages can be
  allocated for a new one, it returns memory of at least that size which no client holds, in pages that
  are mapped; the contents of everything that is allocated stay; and the invariants of the heap, of the
  address space and of the free pages hold again.
\<close>

theorem malloc_correct:
  assumes "kheap_rep g r ps s t hps" "sz \<le> 4048" "(\<exists>p\<in>set hps. fit (mem s) sz p \<noteq> None) \<or> heap_room r s t"
  shows "\<exists>p s' ps' t' hps'. malloc g sz s = Some (p, s') \<and> kheap_rep g r ps' s' t' hps' \<and>
    heap_alloc (heap_root_at g) sz (mem s) hps p (mem s') hps'"
  using malloc_spec[OF assms] by blast

theorem malloc_correct_witness:
  "\<exists>p s' ps' t' hps'. malloc demo_g 100 demo_k0 = Some (p, s') \<and> kheap_rep demo_g 0x1000 ps' s' t' hps' \<and>
     heap_alloc 0x300000 100 (mem demo_k0) [] p (mem s') hps'"
  using malloc_correct[OF demo_k0_rep(1), of 100] demo_k0_rep(2) by (simp add: demo_g_def)

text \<open>
  C5. \<open>free\<close> in the two cases its search handles: the block is joined with the free block that ends where it
  starts, or it has no free neighbour and was the last on the list of allocated blocks. Then exactly this
  block leaves the allocated memory, the contents of all other allocated memory stay, and the invariants
  hold. (Other blocks of the page must remain allocated, so that the page itself is kept.)
\<close>

theorem free_correct:
  assumes "kheap_rep g r ps s t (xs @ (pg, fs, as1 @ b # as2) # ys)" "free_good (mem s) fs b as2" "as1 @ as2 \<noteq> []"
  shows "\<exists>s' fs'. free g (b + 24) j1 j2 s = Some s' \<and> kheap_rep g r ps s' t (xs @ (pg, fs', as1 @ as2) # ys) \<and>
    heap_free (heap_root_at g) (mem s) (xs @ (pg, fs, as1 @ b # as2) # ys) (b + 24) (mem s') (xs @ (pg, fs', as1 @ as2) # ys)"
  using free_spec[OF assms] .

theorem free_correct_witness:
  "\<exists>s' fs'. free demo_g 0x100ebc 0 0 demo_k2 = Some s' \<and>
     heap_free 0x300000 (mem demo_k2) [(0x100000, [0x100018], [0x100f84, 0x100ea4])] 0x100ebc (mem s') [(0x100000, fs', [0x100f84])]"
proof -
  obtain ps t where k: "kheap_rep demo_g 0x1000 ps demo_k2 t ([] @ (0x100000, [0x100018], [0x100f84] @ 0x100ea4 # []) # [])"
    using demo_k2_rep(1) by auto
  have "free_good (mem demo_k2) [0x100018] 0x100ea4 []" by (simp add: free_good_def neighbour_def demo_k2_rep)
  from free_correct[OF k this, of 0 0] show ?thesis by (auto simp: demo_g_def)
qed



text \<open>
  C33. \<open>free\<close> does not clear the \<open>next\<close> field of the block it appends to the free list. When other blocks
  follow it on the list of allocated blocks, they are on both lists afterwards, and a later \<open>malloc\<close> returns
  memory that a client still holds.
\<close>

theorem free_then_double_allocation:
  assumes k: "kheap_rep g r ps s t ((pg, fs, as1 @ b # c # as2) # ys)" and n: "\<forall>w\<in>set fs. \<not> neighbour (mem s) b w"
    and sz: "\<forall>w\<in>set (fs @ [b]). blk_length (mem s) w \<le> sz" "sz < blk_length (mem s) c" "blk_length (mem s) c \<le> sz + 24"
  shows "\<exists>s1 s2. free g (b + 24) j1 j2 s = Some s1 \<and> malloc g sz s1 = Some (c + 24, s2) \<and>
    (c + 24, blk_length (mem s) c) \<in> set (allocs (mem s) ((pg, fs, as1 @ b # c # as2) # ys))"
proof -
  let ?B = "set (fs @ as1 @ b # c # as2)"
  note d = kheap_repD[OF k]
  have p: "page_ok (mem s) pg fs (as1 @ b # c # as2)" by (rule heap_okD(3)[OF d(3)]) simp
  note pd = page_okD[OF p] and ap = page_apart[OF p]
  obtain m where m: "free_block b (mem s) = Some m" "links m (pg + 8) (fs @ b # c # as2) 0" "links m (pg + 16) (as1 @ c # as2) 0"
    "\<forall>x\<in>?B. blk_length m x = blk_length (mem s) x \<and> blk_pghdr m x = blk_pghdr (mem s) x" "free_frame_page pg ?B (mem s) m"
    using free_end[OF p n] by blast
  have l: "links m (pg + 8) (fs @ [b]) c" "links m (pg + 16) as1 c" "c \<noteq> 0" using m(2,3) by (simp_all add: links_append)
  have "ld64 m (pg + 16) \<noteq> 0" using m(3) by (cases "as1 @ c # as2") auto
  then have fr: "free g (b + 24) j1 j2 s = Some (s\<lparr>mem := m\<rparr>)" by (intro free_code[OF p _ m(1)]) simp_all
  have hr: "ld64 m (heap_root_at g) = pg" and pg0: "pg \<noteq> 0"
  proof -
    have "m x = mem s x" if "x \<in> region (heap_root_at g) 8" for x
      using free_frame_parts(1)[OF p m(5)] page_in_apart(2)[OF d(1,5) d(6) d(4) that, of pg] by simp
    then have "ld64 m (heap_root_at g) = ld64 (mem s) (heap_root_at g)" using m64.ld_frame[of "heap_root_at g" 8 m "mem s" 0] by simp
    then show "ld64 m (heap_root_at g) = pg" "pg \<noteq> 0" using heap_okD(1)[OF d(3)] by simp_all
  qed
  have "find (\<lambda>b. sz < blk_length m b) fs = None" using sz(1) m(4) by (auto simp: find_None_iff not_less)
  then have "find (\<lambda>b. sz < blk_length m b) (fs @ b # c # as2) = Some c" using sz(1,2) m(4) by (auto simp: find_append)
  then have "scan_blocks m sz (pg_free m pg) = Some c" using scan_blocks_links[OF m(2), of sz] by (simp add: pg_free_def)
  then have "scan_pages m sz (heap_root_at g) = Some (c, heap_root_at g)" using hr pg0 l(3) by (subst scan_pages.simps) simp
  then have ff: "find_free g sz (s\<lparr>mem := m\<rparr>) = Some (c, s\<lparr>mem := m\<rparr>)" using l(3) by (simp add: find_free_def)
  have "\<exists>m'. take_block c m = Some (c + 24, m')"
    by (rule take_twice[OF ap(1-4) _ l(3) _ l(1) _ _ l(2)]) (use pd(5) pd(6)[of c] m(4) in auto)
  then obtain m' where "take_block c m = Some (c + 24, m')" ..
  then have "malloc g sz (s\<lparr>mem := m\<rparr>) = Some (c + 24, s\<lparr>mem := m'\<rparr>)"
    using ff sz(3) m(4) by (auto simp: malloc_def)
  moreover have "(c + 24, blk_length (mem s) c) \<in> set (allocs (mem s) ((pg, fs, as1 @ b # c # as2) # ys))"
    by (simp add: allocs_def page_allocs_def)
  ultimately show ?thesis using fr by blast
qed

theorem free_then_double_allocation_witness:
  "\<exists>s1 s2. free demo_g 0x100f9c 0 0 demo_k3 = Some s1 \<and> malloc demo_g 190 s1 = Some (0x100ebc, s2) \<and>
     (0x100ebc, 200) \<in> set (allocs (mem demo_k3) [(0x100000, [], [0x100f84, 0x100ea4, 0x100018])])"
proof -
  obtain ps t where k: "kheap_rep demo_g 0x1000 ps demo_k3 t ((0x100000, [], [] @ 0x100f84 # 0x100ea4 # [0x100018]) # [])"
    using demo_k3_rep(1) by auto
  show ?thesis using free_then_double_allocation[OF k, of 190 0 0] by (simp add: demo_k3_rep)
qed



end
