(* ===== verification/Util.thy ===== *)
theory Util
  imports Display
begin

text \<open>
  The assembly utilities (\<^verbatim>\<open>kernel/util/memcpy.s\<close> and \<^verbatim>\<open>utoa.s\<close>), instruction by instruction: the registers are
  the arguments of the loops. The address of the array \<open>digits\<close> is an argument; a division by zero or a loop
  that never ends is \<open>None\<close>.
\<close>

section \<open>Copying\<close>

fun rep_movsb :: "nat \<Rightarrow> u64 \<Rightarrow> u64 \<Rightarrow> memory \<Rightarrow> memory" where
  "rep_movsb 0 rdi rsi m = m"
| "rep_movsb (Suc rcx) rdi rsi m = rep_movsb rcx (rdi + 1) (rsi + 1) (st8 m rdi (ld8 m rsi))"

definition memcpy :: "u64 \<Rightarrow> u64 \<Rightarrow> u64 \<Rightarrow> memory \<Rightarrow> u64 \<times> memory" where
  "memcpy dst src n m = (dst + n, rep_movsb (unat n) dst src m)"

section \<open>Numbers as text\<close>

partial_function (option) utoa_next_char :: "memory \<Rightarrow> u64 \<Rightarrow> u64 \<Rightarrow> u64 \<Rightarrow> u64 \<Rightarrow> (memory \<times> u64) option" where
  "utoa_next_char m r9 rax rcx rdi =
     (if rcx = 0 then None
      else let rdx = rax mod rcx;
               rax = rax div rcx;
               r8 = ld64 m (r9 + rdx);
               m = st64 m rdi r8;
               rdi = rdi + 1
           in if rax \<noteq> 0 then utoa_next_char m r9 rax rcx rdi else Some (m, rdi))"

partial_function (option) utoa_reverse :: "memory \<Rightarrow> u64 \<Rightarrow> u64 \<Rightarrow> memory option" where
  "utoa_reverse m rdi rcx =
     (let dl = ld8 m rdi;
          t = ld8 m rcx;
          m = st8 m rcx dl;
          m = st8 m rdi t;
          rdi = rdi - 1;
          rcx = rcx + 1
      in if rcx < rdi then utoa_reverse m rdi rcx else Some m)"

declare utoa_next_char.simps [code] utoa_reverse.simps [code]

definition utoa :: "u64 \<Rightarrow> u64 \<Rightarrow> u64 \<Rightarrow> u64 \<Rightarrow> memory \<Rightarrow> (u64 \<times> memory) option" where
  "utoa digits val dest radix m =
     do { (m, rdi) \<leftarrow> utoa_next_char m digits val radix dest;
          let m = st64 m rdi 0;
          m \<leftarrow> utoa_reverse m (rdi - 1) dest;
          Some (dest, m) }"

section \<open>Bytes\<close>

lemma rep_movsb_out: "x \<notin> region rdi n \<Longrightarrow> n \<le> 2 ^ 64 \<Longrightarrow> rep_movsb n rdi rsi m x = m x"
proof (induction n arbitrary: rdi rsi m)
  case (Suc n)
  have "rdi \<in> region rdi (Suc n)" by (simp add: region_def)
  then have "x \<noteq> rdi" using Suc.prems(1) by blast
  moreover have "region (rdi + 1) n \<subseteq> region rdi (Suc n)" using region_sub[of 1 n "Suc n" rdi] Suc.prems(2) by simp
  then have "x \<notin> region (rdi + 1) n" using Suc.prems(1) by blast
  ultimately show ?case using Suc.IH Suc.prems(2) by (simp add: st8_byte)
qed simp

lemma rep_movsb_copy:
  "sep rdi n rsi n \<Longrightarrow> i < n \<Longrightarrow> n \<le> 2 ^ 64 \<Longrightarrow> rep_movsb n rdi rsi m (rdi + of_nat i) = m (rsi + of_nat i)"
proof (induction n arbitrary: rdi rsi m i)
  case (Suc n)
  let ?m = "st8 m rdi (ld8 m rsi)"
  have n: "n < 2 ^ 64" using Suc.prems(3) by simp
  show ?case
  proof (cases i)
    case 0
    have "rdi \<notin> region (rdi + 1) n" using n by (simp add: region_def unsigned_minus_1_eq_mask mask_eq_exp_minus_1)
    then show ?thesis using rep_movsb_out[of rdi "rdi + 1" n] n 0 by (simp add: st8_byte ld8_byte)
  next
    case (Suc j)
    have "sep (rdi + 1) n (rsi + 1) n" using sep_sub[OF Suc.prems(1), of 1 n 1 n] Suc Suc.prems(2) by simp
    then have "rep_movsb n (rdi + 1) (rsi + 1) ?m (rdi + 1 + of_nat j) = ?m (rsi + 1 + of_nat j)"
      using Suc.IH[of "rdi + 1" "rsi + 1" j ?m] Suc Suc.prems by simp
    moreover have "rsi + 1 + of_nat j \<noteq> rdi"
    proof -
      have "1 \<le> unat (rsi + of_nat i - rdi)" using sep_offset[OF Suc.prems(1), of 0 i] Suc.prems(2) by simp
      then show ?thesis using Suc by (auto simp: add.assoc)
    qed
    ultimately show ?thesis using Suc by (simp add: st8_byte add.assoc)
  qed
qed simp

lemma memcpy_spec:
  assumes "sep dst (unat n) src (unat n)"
  shows "fst (memcpy dst src n m) = dst + n"
    "i < unat n \<Longrightarrow> snd (memcpy dst src n m) (dst + of_nat i) = m (src + of_nat i)"
    "x \<notin> region dst (unat n) \<Longrightarrow> snd (memcpy dst src n m) x = m x"
proof -
  have "unat n \<le> 2 ^ 64" using unat_u64_less[of n] by simp
  then show "i < unat n \<Longrightarrow> snd (memcpy dst src n m) (dst + of_nat i) = m (src + of_nat i)"
    "x \<notin> region dst (unat n) \<Longrightarrow> snd (memcpy dst src n m) x = m x"
    using rep_movsb_copy[OF assms] rep_movsb_out[of x dst "unat n"] by (simp_all add: memcpy_def)
qed (simp add: memcpy_def)

section \<open>Digits\<close>

text \<open>The digits of a number, the least significant first, and the characters that stand for them.\<close>

function udigits :: "nat \<Rightarrow> nat \<Rightarrow> nat list" where
  "udigits r v = (if r < 2 \<or> v < r then [v] else v mod r # udigits r (v div r))"
  by auto
termination by (relation "measure snd") auto

declare udigits.simps [simp del]

definition digit_char :: "nat \<Rightarrow> u8" where
  "digit_char d = (if d < 10 then of_nat (48 + d) else of_nat (55 + d))"

fun from_digits :: "nat \<Rightarrow> nat list \<Rightarrow> nat" where
  "from_digits r [] = 0"
| "from_digits r (d # ds) = d + r * from_digits r ds"

lemma udigits_value: "from_digits r (udigits r v) = v"
proof (induction r v rule: udigits.induct)
  case (1 r v)
  then show ?case by (subst udigits.simps) auto
qed

lemma udigits_less: "2 \<le> r \<Longrightarrow> d \<in> set (udigits r v) \<Longrightarrow> d < r"
proof (induction r v rule: udigits.induct)
  case (1 r v)
  have "d = v \<and> v < r \<or> d = v mod r \<or> \<not> v < r \<and> d \<in> set (udigits r (v div r))"
    using "1.prems" by (subst (asm) udigits.simps) (auto split: if_splits)
  then show ?case using 1 by auto
qed

lemma udigits_length: "2 \<le> r \<Longrightarrow> v < 2 ^ k \<Longrightarrow> 0 < k \<Longrightarrow> length (udigits r v) \<le> k"
proof (induction r v arbitrary: k rule: udigits.induct)
  case (1 r v)
  show ?case
  proof (cases "v < r")
    case False
    have "2 \<le> v" using False 1 by simp
    then have "k \<noteq> 1" using 1 by auto
    then obtain j where j: "k = Suc j" "0 < j" using 1 by (cases k) auto
    have "v div r \<le> v div 2" using 1 by (intro div_le_mono2) auto
    then have "v div r < 2 ^ j" using 1 j(1) by auto
    then show ?thesis using 1 False j by (subst udigits.simps) simp
  qed (use 1 in \<open>subst udigits.simps, simp\<close>)
qed

lemma udigits_nonempty: "udigits r v \<noteq> []" by (subst udigits.simps) simp

section \<open>The loops of \<open>utoa\<close>\<close>

lemma ld64_low: "ucast (ld64 m a) = m a"
proof -
  have "ucast (ucast b OR push_bit 8 x :: u64) = b" for b :: u8 and x by (rule bit_word_eqI) (auto simp: bit_simps)
  moreover have "ld64 m a = ucast (m a) OR push_bit 8 (ldn 7 m (a + 1))" using ldn.simps(2)[of 7 m a] by (simp add: ld64_def)
  ultimately show ?thesis by simp
qed

lemma st64_low: "st64 m a v a = ucast v"
  by (simp add: st64_def stn_def)

definition digit_table :: "memory \<Rightarrow> u64 \<Rightarrow> bool" where
  "digit_table m a \<longleftrightarrow> (\<forall>d<36. m (a + of_nat d) = digit_char d)"

lemma digit_table_frame:
  assumes "digit_table m a" "\<And>x. x \<in> region a 36 \<Longrightarrow> m' x = m x"
  shows "digit_table m' a"
proof -
  have "a + of_nat d \<in> region a 36" if "d < 36" for d using that by (simp add: region_def unat_of_nat)
  then show ?thesis using assms by (simp add: digit_table_def)
qed

lemma next_char_spec:
  fixes rax :: u64
  assumes "2 \<le> unat rcx" "unat rcx \<le> 36"
  defines "ds \<equiv> udigits (unat rcx) (unat rax)"
  assumes "digit_table m r9" "region r9 36 \<inter> region rdi (length ds + 7) = {}" "length ds < 2 ^ 63"
  shows "\<exists>m'. utoa_next_char m r9 rax rcx rdi = Some (m', rdi + of_nat (length ds)) \<and>
    (\<forall>i<length ds. m' (rdi + of_nat i) = digit_char (ds ! i)) \<and> (\<forall>x. x \<notin> region rdi (length ds + 7) \<longrightarrow> m' x = m x)"
  using assms(4-6) unfolding ds_def
proof (induction "unat rcx" "unat rax" arbitrary: rax m rdi rule: udigits.induct)
  case 1
  let ?v = "unat rax" and ?r = "unat rcx"
  let ?m = "st64 m rdi (ld64 m (r9 + rax mod rcx))"
  have c0: "rcx \<noteq> 0" using assms(1) by auto
  have "?v mod ?r < ?r" using assms(1) by (intro mod_less_divisor) simp
  then have "?v mod ?r < 36" using assms(2) by linarith
  then have "m (r9 + of_nat (?v mod ?r)) = digit_char (?v mod ?r)" using "1.prems"(1) by (simp add: digit_table_def)
  moreover have "of_nat (?v mod ?r) = rax mod rcx" by (simp flip: unat_mod)
  ultimately have b0: "?m rdi = digit_char (?v mod ?r)" by (simp add: st64_low ld64_low)
  show ?case
  proof (cases "?v < ?r")
    case True
    then have "rax div rcx = 0" by (simp add: word_unat_eq_iff unat_div)
    then have "utoa_next_char m r9 rax rcx rdi = Some (?m, rdi + 1)" using c0 by (subst utoa_next_char.simps) (simp add: Let_def)
    moreover have "udigits ?r ?v = [?v]" using True by (subst udigits.simps) simp
    ultimately show ?thesis using b0 True by (simp add: m64.st_region)
  next
    case False
    let ?ds = "udigits ?r (?v div ?r)"
    have ds: "udigits ?r ?v = ?v mod ?r # ?ds" using False assms(1) by (subst udigits.simps) simp
    have q: "unat (rax div rcx) = ?v div ?r" by (rule unat_div)
    have "rax div rcx \<noteq> 0" using False assms(1) q by (auto simp: word_unat_eq_iff div_eq_0_iff)
    then have c: "utoa_next_char m r9 rax rcx rdi = utoa_next_char ?m r9 (rax div rcx) rcx (rdi + 1)"
      using c0 by (subst utoa_next_char.simps) (simp add: Let_def)
    have len: "length ?ds + 8 \<le> 2 ^ 64" using "1.prems"(3) by (simp add: ds)
    have r1: "region (rdi + 1) (length ?ds + 7) \<subseteq> region rdi (length ?ds + 8)"
      using region_sub[of 1 "length ?ds + 7" "length ?ds + 8" rdi] len by simp
    have r0: "region rdi 8 \<subseteq> region rdi (length ?ds + 8)" by (rule region_mono) simp
    have dis: "region r9 36 \<inter> region rdi (length ?ds + 8) = {}" using "1.prems"(2) by (simp add: ds add.commute)
    have t: "digit_table ?m r9" by (rule digit_table_frame[OF "1.prems"(1)]) (use dis r0 in \<open>auto intro!: m64.st_region\<close>)
    have nr: "\<not> (?r < 2 \<or> ?v < ?r)" using False assms(1) by simp
    have "\<exists>m'. utoa_next_char ?m r9 (rax div rcx) rcx (rdi + 1) = Some (m', rdi + 1 + of_nat (length ?ds)) \<and>
      (\<forall>i<length ?ds. m' (rdi + 1 + of_nat i) = digit_char (?ds ! i)) \<and> (\<forall>x. x \<notin> region (rdi + 1) (length ?ds + 7) \<longrightarrow> m' x = ?m x)"
      using "1.hyps"[OF nr, of "rax div rcx" ?m "rdi + 1"] q t dis r1 "1.prems"(3) by (auto simp: ds)
    then obtain m' where m': "utoa_next_char ?m r9 (rax div rcx) rcx (rdi + 1) = Some (m', rdi + 1 + of_nat (length ?ds))"
      "\<forall>i<length ?ds. m' (rdi + 1 + of_nat i) = digit_char (?ds ! i)" "\<forall>x. x \<notin> region (rdi + 1) (length ?ds + 7) \<longrightarrow> m' x = ?m x" by blast
    have "rdi \<notin> region (rdi + 1) (length ?ds + 7)" using len by (simp add: region_def unsigned_minus_1_eq_mask mask_eq_exp_minus_1)
    then have "m' rdi = digit_char (?v mod ?r)" using m'(3) b0 by simp
    then have "\<forall>i<length (udigits ?r ?v). m' (rdi + of_nat i) = digit_char (udigits ?r ?v ! i)"
      using m'(2) by (auto simp: ds nth_Cons All_less_Suc2 add.assoc split: nat.splits)
    moreover have "m' x = m x" if "x \<notin> region rdi (length ?ds + 8)" for x
    proof -
      have "x \<notin> region rdi 8" "x \<notin> region (rdi + 1) (length ?ds + 7)" using r0 r1 that by blast+
      then show ?thesis using m'(3) m64.st_region[of x rdi m] by simp
    qed
    ultimately show ?thesis using c m'(1) by (intro exI[of _ m']) (simp add: ds add.assoc add.commute)
  qed
qed

lemma reverse_spec:
  assumes "lo \<le> hi" "unat d + hi + 1 < 2 ^ 64" "0 < unat d + lo"
  shows "\<exists>m'. utoa_reverse m (d + of_nat hi) (d + of_nat lo) = Some m' \<and>
    (\<forall>i. lo \<le> i \<and> i \<le> hi \<longrightarrow> m' (d + of_nat i) = m (d + of_nat (lo + hi - i))) \<and>
    (\<forall>x. (\<forall>i. lo \<le> i \<and> i \<le> hi \<longrightarrow> x \<noteq> d + of_nat i) \<longrightarrow> m' x = m x)"
  using assms
proof (induction "hi - lo" arbitrary: lo hi m rule: less_induct)
  case less
  let ?h = "d + of_nat hi" and ?l = "d + of_nat lo"
  let ?m = "(m(?l := m ?h))(?h := m ?l)"
  have u: "unat (d + of_nat i) = unat d + i" if "i \<le> hi" for i
    using that less.prems(2) by (simp add: unat_plus_if' unat_of_nat)
  have inj: "d + of_nat i \<noteq> d + of_nat j" if "i \<le> hi" "j \<le> hi" "i \<noteq> j" for i j
    using arg_cong[of "d + of_nat i" "d + of_nat j" unat, unfolded u[OF that(1)] u[OF that(2)]] that(3) by linarith
  have c: "utoa_reverse m ?h ?l = (if ?l + 1 < ?h - 1 then utoa_reverse ?m (?h - 1) (?l + 1) else Some ?m)"
    by (subst utoa_reverse.simps) (simp add: Let_def ld8_byte st8_byte)
  have "?h \<noteq> 0" using u[of hi] less.prems by auto
  then have uh: "unat (?h - 1) = unat d + hi - 1" using u[of hi] unat_minus_one[of ?h] by simp
  show ?case
  proof (cases "lo + 1 < hi - 1")
    case True
    have e: "?h - 1 = d + of_nat (hi - 1)" "?l + 1 = d + of_nat (lo + 1)" using True by (simp_all add: of_nat_diff)
    have "?l + 1 < ?h - 1" unfolding e using u[of "hi - 1"] u[of "lo + 1"] True by (simp add: word_less_nat_alt)
    then have c': "utoa_reverse m ?h ?l = utoa_reverse ?m (d + of_nat (hi - 1)) (d + of_nat (lo + 1))" using c e by simp
    have pre: "hi - 1 - (lo + 1) < hi - lo" "lo + 1 \<le> hi - 1" "unat d + (hi - 1) + 1 < 2 ^ 64" "0 < unat d + (lo + 1)"
      using True less.prems by linarith+
    obtain m' where m': "utoa_reverse ?m (d + of_nat (hi - 1)) (d + of_nat (lo + 1)) = Some m'"
      "\<forall>i. lo + 1 \<le> i \<and> i \<le> hi - 1 \<longrightarrow> m' (d + of_nat i) = ?m (d + of_nat (lo + 1 + (hi - 1) - i))"
      "\<forall>x. (\<forall>i. lo + 1 \<le> i \<and> i \<le> hi - 1 \<longrightarrow> x \<noteq> d + of_nat i) \<longrightarrow> m' x = ?m x"
      using less.hyps[OF pre, of ?m] by blast
    have "m' (d + of_nat i) = m (d + of_nat (lo + hi - i))" if i: "lo \<le> i" "i \<le> hi" for i
    proof -
      consider "i = lo" | "i = hi" | "lo + 1 \<le> i" "i \<le> hi - 1" using i by linarith
      then show ?thesis
      proof cases
        case 3
        have j: "lo + 1 + (hi - 1) - i = lo + hi - i" "lo + hi - i \<le> hi" "lo + hi - i \<noteq> hi" "lo + hi - i \<noteq> lo" using 3 i by linarith+
        have "m' (d + of_nat i) = ?m (d + of_nat (lo + hi - i))" using m'(2)[rule_format, of i, OF conjI[OF 3]] unfolding j(1) .
        moreover have "d + of_nat (lo + hi - i) \<noteq> ?h" "d + of_nat (lo + hi - i) \<noteq> ?l"
          by (rule inj; use j less.prems(1) in linarith)+
        ultimately show ?thesis by (simp only: fun_upd_apply if_False)
      next
        case 1
        have "?l \<noteq> d + of_nat j" if "lo + 1 \<le> j \<and> j \<le> hi - 1" for j by (rule inj) (use that True in linarith)+
        then have "m' ?l = ?m ?l" by (intro m'(3)[rule_format]) blast
        moreover have "?l \<noteq> ?h" by (rule inj) (use True in linarith)+
        moreover have "lo + hi - lo = hi" by simp
        ultimately show ?thesis unfolding 1 by (simp only: fun_upd_apply if_False simp_thms if_True)
      next
        case 2
        have "?h \<noteq> d + of_nat j" if "lo + 1 \<le> j \<and> j \<le> hi - 1" for j by (rule inj) (use that True in linarith)+
        then have "m' ?h = ?m ?h" by (intro m'(3)[rule_format]) blast
        moreover have "lo + hi - hi = lo" by simp
        ultimately show ?thesis unfolding 2 by (simp only: fun_upd_apply simp_thms if_True)
      qed
    qed
    moreover have "m' x = m x" if "\<forall>i. lo \<le> i \<and> i \<le> hi \<longrightarrow> x \<noteq> d + of_nat i" for x
    proof -
      have "x \<noteq> ?h" "x \<noteq> ?l" using that less.prems(1) by blast+
      moreover have "m' x = ?m x"
      proof (rule m'(3)[rule_format])
        fix i assume i: "lo + 1 \<le> i \<and> i \<le> hi - 1"
        have "lo \<le> i \<and> i \<le> hi" using i True by linarith
        then show "x \<noteq> d + of_nat i" using that by blast
      qed
      ultimately show ?thesis by (simp only: fun_upd_apply if_False)
    qed
    ultimately show ?thesis using c' m'(1) by (intro exI[of _ m']) (simp only: simp_thms, blast)
  next
    case False
    have "\<not> ?l + 1 < ?h - 1"
    proof -
      have "unat (?l + 1) = unat d + lo + 1" using u[of lo] less.prems by (simp add: unat_plus_if')
      then show ?thesis using uh False less.prems(1) by (auto simp: word_less_nat_alt)
    qed
    then have "utoa_reverse m ?h ?l = Some ?m" using c by simp
    moreover have "?m (d + of_nat i) = m (d + of_nat (lo + hi - i))" if i: "lo \<le> i" "i \<le> hi" for i
    proof -
      have "i = lo \<or> i = hi \<or> i = lo + 1 \<and> hi = lo + 2" using False i by linarith
      then show ?thesis using inj i less.prems(1) by auto
    qed
    ultimately show ?thesis using less.prems(1) by auto
  qed
qed

lemma digit_char_nonzero: "d < 36 \<Longrightarrow> digit_char d \<noteq> 0"
  by (auto simp: digit_char_def word_unat_eq_iff unat_of_nat simp del: of_nat_add)

lemma utoa_spec:
  fixes v :: u64
  assumes r: "2 \<le> unat radix" "unat radix \<le> 36" and t: "digit_table m digits"
    and d: "0 < unat dest" "unat dest + 72 \<le> 2 ^ 64" "region digits 36 \<inter> region dest 72 = {}"
  defines "ds \<equiv> udigits (unat radix) (unat v)"
  shows "\<exists>m'. utoa digits v dest radix m = Some (dest, m') \<and> str_at m' dest (map digit_char (rev ds)) \<and>
    (\<forall>x. x \<notin> region dest (length ds + 8) \<longrightarrow> m' x = m x)"
proof -
  let ?n = "length ds"
  have n: "?n \<le> 64" "0 < ?n" using udigits_length[of "unat radix" "unat v" 64] r(1) unat_u64_less[of v] udigits_nonempty by (auto simp: ds_def)
  have "region dest (?n + 7) \<subseteq> region dest 72" by (rule region_mono) (use n in simp)
  then obtain m1 where m1: "utoa_next_char m digits v radix dest = Some (m1, dest + of_nat ?n)"
    "\<forall>i<?n. m1 (dest + of_nat i) = digit_char (ds ! i)" "\<forall>x. x \<notin> region dest (?n + 7) \<longrightarrow> m1 x = m x"
    using next_char_spec[OF r t, of dest v] d(3) n unfolding ds_def by auto
  let ?m2 = "st64 m1 (dest + of_nat ?n) 0"
  have u: "unat (dest + of_nat i) = unat dest + i" if "i \<le> ?n" for i using that d(2) n by (simp add: unat_plus_if' unat_of_nat)
  have r8: "region (dest + of_nat ?n) 8 \<subseteq> region dest (?n + 8)" by (rule region_sub) (use n in simp_all)
  have m2: "?m2 (dest + of_nat i) = m1 (dest + of_nat i)" if "i < ?n" for i
  proof (rule m64.st_region)
    show "dest + of_nat i \<notin> region (dest + of_nat ?n) 8"
      using region_unat[of "dest + of_nat ?n" 8 "dest + of_nat i"] u[of ?n] u[of i] that d(2) n by auto
  qed
  have z: "?m2 (dest + of_nat ?n) = 0" by (simp add: st64_low)
  have e: "dest + of_nat ?n - 1 = dest + of_nat (?n - 1)" "dest + of_nat 0 = dest"
    using n(2) of_nat_diff[of 1 ?n, where 'a = u64] by (simp_all add: Suc_leI)
  have "unat dest + (?n - 1) + 1 < 2 ^ 64" "0 < unat dest + 0" using d(1,2) n by simp_all
  from reverse_spec[OF le0 this, of ?m2, unfolded e(2)] obtain m' where
    m': "utoa_reverse ?m2 (dest + of_nat (?n - 1)) dest = Some m'"
    "\<forall>i. 0 \<le> i \<and> i \<le> ?n - 1 \<longrightarrow> m' (dest + of_nat i) = ?m2 (dest + of_nat (0 + (?n - 1) - i))"
    "\<forall>x. (\<forall>i. 0 \<le> i \<and> i \<le> ?n - 1 \<longrightarrow> x \<noteq> dest + of_nat i) \<longrightarrow> m' x = ?m2 x" by blast
  have code: "utoa digits v dest radix m = Some (dest, m')" using m1(1) m'(1) by (simp add: utoa_def e(1))
  have chars: "m' (dest + of_nat i) = digit_char (rev ds ! i)" if "i < ?n" for i
  proof -
    have j: "?n - 1 - i < ?n" "0 \<le> i \<and> i \<le> ?n - 1" using that by linarith+
    have "m' (dest + of_nat i) = ?m2 (dest + of_nat (?n - 1 - i))" using m'(2)[rule_format, OF j(2)] by (simp only: add_0)
    also have "\<dots> = digit_char (ds ! (?n - 1 - i))" using m2[OF j(1)] m1(2)[rule_format, OF j(1)] by (rule trans)
    finally show ?thesis using that by (simp add: rev_nth)
  qed
  have far: "x \<noteq> dest + of_nat i" if "i \<le> ?n - 1" "x = dest + of_nat ?n \<or> x \<notin> region dest (?n + 8)" for x i
  proof -
    have i: "i < ?n" using that(1) n(2) by linarith
    then have "unat (dest + of_nat i) < unat dest + ?n" using u[of i] by simp
    moreover have "dest + of_nat i \<in> region dest (?n + 8)" using i n(1) by (simp add: region_def unat_of_nat)
    ultimately show ?thesis using that(2) u[of ?n] by auto
  qed
  have "m' (dest + of_nat ?n) = ?m2 (dest + of_nat ?n)" by (rule m'(3)[rule_format], rule far) simp_all
  then have "m' (dest + of_nat ?n) = 0" using z by (rule trans)
  moreover have "0 \<notin> set (map digit_char (rev ds))"
    using udigits_less[OF r(1), of _ "unat v"] r(2) digit_char_nonzero by (auto simp: ds_def) (metis order.strict_trans2)
  ultimately have "str_at m' dest (map digit_char (rev ds))" using chars by (simp add: str_at_def ld8_byte)
  moreover have "m' x = m x" if x: "x \<notin> region dest (?n + 8)" for x
  proof -
    have "m' x = ?m2 x" using m'(3)[rule_format, of x] far x by blast
    also have "\<dots> = m1 x" by (rule m64.st_region) (use x r8 in blast)
    also have "\<dots> = m x" using m1(3) x region_mono[of "?n + 7" "?n + 8" dest] by auto
    finally show ?thesis .
  qed
  ultimately show ?thesis using code by blast
qed

section \<open>Properties\<close>

definition demo_digits :: memory where
  "demo_digits = (\<lambda>x. if unat x - 0x1000 < 36 \<and> 0x1000 \<le> unat x then digit_char (unat x - 0x1000) else 0)"

lemma demo_digits_table: "digit_table demo_digits 0x1000"
  by (simp add: digit_table_def demo_digits_def unat_plus_if' unat_of_nat)

text \<open>
  C37. \<open>utoa\<close> returns for every number and every radix from 2 to 36: the string at the destination has the
  digits of the number, the most significant first, and a terminating zero; read back in the same radix it
  gives the number. Apart from the string, only the seven bytes after its terminator are written.
\<close>

theorem utoa_correct:
  assumes "2 \<le> unat radix" "unat radix \<le> 36" "digit_table m digits" "0 < unat dest" "unat dest + 72 \<le> 2 ^ 64"
    "region digits 36 \<inter> region dest 72 = {}"
  shows "\<exists>ds m'. utoa digits v dest radix m = Some (dest, m') \<and> str_at m' dest (map digit_char (rev ds)) \<and>
    (\<forall>d\<in>set ds. d < unat radix) \<and> from_digits (unat radix) ds = unat v \<and> length ds \<le> 64 \<and>
    (\<forall>x. x \<notin> region dest (length ds + 8) \<longrightarrow> m' x = m x)"
proof -
  have "length (udigits (unat radix) (unat v)) \<le> 64"
    using udigits_length[of "unat radix" "unat v" 64] assms(1) unat_u64_less[of v] by simp
  then show ?thesis using utoa_spec[OF assms, of v] udigits_less[OF assms(1)] udigits_value by blast
qed

theorem utoa_correct_witness:
  "\<exists>ds m'. utoa 0x1000 255 0x2000 16 demo_digits = Some (0x2000, m') \<and> str_at m' 0x2000 (map digit_char (rev ds)) \<and> from_digits 16 ds = 255"
proof -
  have "region 0x1000 36 \<inter> region (0x2000 :: u64) 72 = {}" using region_unat[of "0x1000" 36] region_unat[of "0x2000" 72] by auto
  then show ?thesis using utoa_correct[OF _ _ demo_digits_table, of 16 "0x2000" 255] by auto
qed

end
