(* ===== verification/Gdt.thy ===== *)
theory Gdt
  imports Kheap_Client Util
begin

text \<open>
  The descriptor table of the running kernel (\<^verbatim>\<open>kernel/system/gdt/gdt.c\<close> and \<^verbatim>\<open>gdt_set.s\<close>). The table lies in heap
  memory; the record holds the variables of the file and the registers that \<open>lgdt\<close> and the far return load. The
  decoding of a descriptor follows the processor's manual.
\<close>

section \<open>Data and operations\<close>

record gdt_entry =
  ge_base :: u64
  ge_limit :: u64
  ge_type :: u8

record gdt =
  gdt_base :: u64
  gdt_entries :: u64
  gdt_allocated_size :: u64
  kern_code_seg :: u64
  user_code_seg :: u64
  gdtr_base :: u64
  gdtr_limit :: u16
  cs_reg :: u16

definition GDT_ENTRY_SIZE :: u64 where "GDT_ENTRY_SIZE = 8"

definition reload_gdt :: "u64 \<Rightarrow> u64 \<Rightarrow> u64 \<Rightarrow> gdt \<Rightarrow> gdt" where
  "reload_gdt base limit code d = d\<lparr>gdtr_base := base, gdtr_limit := ucast limit, cs_reg := ucast code\<rparr>"

definition put_descriptor :: "u64 \<Rightarrow> gdt_entry \<Rightarrow> u8 \<Rightarrow> memory \<Rightarrow> memory" where
  "put_descriptor tgt e code_64 m =
     (let m = (if code_64 \<noteq> 0 then st8 m (tgt + 6) 0x20 else st8 m (tgt + 6) 0x00);
          limit = (if ge_limit e > 65536 then drop_bit 12 (ge_limit e) else ge_limit e);
          m = (if ge_limit e > 65536 then st8 m (tgt + 6) (ld8 m (tgt + 6) OR 0x80) else m);
          m = st8 m tgt (ucast (limit AND 0xFF));
          m = st8 m (tgt + 1) (ucast (drop_bit 8 limit AND 0xFF));
          m = st8 m (tgt + 6) (ld8 m (tgt + 6) OR ucast (drop_bit 16 limit AND 0xF));
          m = st8 m (tgt + 2) (ucast (ge_base e AND 0xFF));
          m = st8 m (tgt + 3) (ucast (drop_bit 8 (ge_base e) AND 0xFF));
          m = st8 m (tgt + 4) (ucast (drop_bit 16 (ge_base e) AND 0xFF));
          m = st8 m (tgt + 7) (ucast (drop_bit 24 (ge_base e) AND 0xFF))
      in st8 m (tgt + 5) (ge_type e))"

text \<open>Growth of a full table; the two numbers stand for the uninitialised pointers \<open>free\<close> may read.\<close>

definition grow_table :: "'g globals_scheme \<Rightarrow> u64 \<Rightarrow> u64 \<Rightarrow> gdt \<times> 'z node_heap_scheme \<Rightarrow> (gdt \<times> 'z node_heap_scheme) option" where
  "grow_table g j1 j2 = (\<lambda>(d, s).
     do { let d = d\<lparr>gdt_allocated_size := gdt_allocated_size d * 2\<rparr>;
          (new_gdt, s) \<leftarrow> malloc g (gdt_allocated_size d) s;
          let s = s\<lparr>mem := snd (memcpy new_gdt (gdt_base d) (gdt_allocated_size d div 2) (mem s))\<rparr>;
          let d = reload_gdt new_gdt (gdt_entries d * GDT_ENTRY_SIZE) (kern_code_seg d) d;
          s \<leftarrow> free g (gdt_base d) j1 j2 s;
          Some (d\<lparr>gdt_base := new_gdt\<rparr>, s) })"

definition add_entry :: "'g globals_scheme \<Rightarrow> u64 \<Rightarrow> u64 \<Rightarrow> gdt_entry \<Rightarrow> u8 \<Rightarrow> gdt \<times> 'z node_heap_scheme \<Rightarrow> (u64 \<times> gdt \<times> 'z node_heap_scheme) option" where
  "add_entry g j1 j2 e code_64 = (\<lambda>(d, s).
     if ge_limit e > 65536 \<and> ge_limit e AND 0xFFF \<noteq> 0xFFF then Some (0, d, s)
     else do { let full = (gdt_allocated_size d div GDT_ENTRY_SIZE = gdt_entries d);
               let d = d\<lparr>gdt_entries := gdt_entries d + 1\<rparr>;
               (d, s) \<leftarrow> (if full then grow_table g j1 j2 (d, s) else Some (d, s));
               let tgt = gdt_base d + 8 * gdt_entries d - 8;
               Some ((gdt_entries d - 1) * GDT_ENTRY_SIZE, d, s\<lparr>mem := put_descriptor tgt e code_64 (mem s)\<rparr>) })"

definition gdt_init :: "'g globals_scheme \<Rightarrow> u64 \<Rightarrow> u64 \<Rightarrow> gdt \<times> 'z node_heap_scheme \<Rightarrow> (gdt \<times> 'z node_heap_scheme) option" where
  "gdt_init g j1 j2 = (\<lambda>(d, s).
     do { (b, s) \<leftarrow> malloc g (gdt_allocated_size d) s;
          let d = d\<lparr>gdt_base := b\<rparr>;
          (_, d, s) \<leftarrow> add_entry g j1 j2 \<lparr>ge_base = 0, ge_limit = 0, ge_type = 0\<rparr> 0 (d, s);
          (_, d, s) \<leftarrow> add_entry g j1 j2 \<lparr>ge_base = 0, ge_limit = 0, ge_type = 0x92\<rparr> 0 (d, s);
          (seg, d, s) \<leftarrow> add_entry g j1 j2 \<lparr>ge_base = 0, ge_limit = 0, ge_type = 0x9a\<rparr> 1 (d, s);
          let d = d\<lparr>kern_code_seg := seg\<rparr>;
          (_, d, s) \<leftarrow> add_entry g j1 j2 \<lparr>ge_base = 0, ge_limit = 0, ge_type = 0xf2\<rparr> 0 (d, s);
          (seg, d, s) \<leftarrow> add_entry g j1 j2 \<lparr>ge_base = 0, ge_limit = 0, ge_type = 0xfa\<rparr> 1 (d, s);
          let d = d\<lparr>user_code_seg := seg\<rparr>;
          Some (reload_gdt (gdt_base d) (gdt_entries d * GDT_ENTRY_SIZE) (kern_code_seg d) d, s) })"

text \<open>The packed structure of the task state has 104 bytes, \<open>rsp0\<close> at 4 and \<open>iopb_offset\<close> at 102.\<close>

definition gdt_add_tss :: "'g globals_scheme \<Rightarrow> u64 \<Rightarrow> u64 \<Rightarrow> u64 \<Rightarrow> gdt \<times> 'z node_heap_scheme \<Rightarrow> (u64 \<times> gdt \<times> 'z node_heap_scheme) option" where
  "gdt_add_tss g j1 j2 int_stack = (\<lambda>(d, s).
     do { (tss, s) \<leftarrow> malloc g 104 s;
          let m = st64 (mem s) (tss + 4) int_stack;
          let m = st16 m (tss + 102) 104;
          add_entry g j1 j2 \<lparr>ge_base = tss, ge_limit = 104 - 1, ge_type = 0x89\<rparr> 0 (d, s\<lparr>mem := m\<rparr>) })"

definition gdt_get_info :: "u64 \<Rightarrow> u64 \<Rightarrow> u64 \<Rightarrow> gdt \<Rightarrow> memory \<Rightarrow> memory" where
  "gdt_get_info limit base krn_code d m =
     (let m = st16 m limit (ucast (gdt_entries d * GDT_ENTRY_SIZE));
          m = st64 m base (gdt_base d)
      in st16 m krn_code (ucast (kern_code_seg d)))"

section \<open>Descriptors\<close>

text \<open>How the processor reads a descriptor.\<close>

definition desc_base :: "u64 \<Rightarrow> u64" where "desc_base w = (drop_bit 16 w AND 0xFFFFFF) OR push_bit 24 (drop_bit 56 w)"
definition desc_type :: "u64 \<Rightarrow> u8" where "desc_type w = ucast (drop_bit 40 w)"
definition desc_long :: "u64 \<Rightarrow> bool" where "desc_long w = bit w 53"
definition desc_limit :: "u64 \<Rightarrow> u64" where
  "desc_limit w = (let l = (w AND 0xFFFF) OR (drop_bit 32 w AND 0xF0000) in if bit w 55 then push_bit 12 l OR 0xFFF else l)"

definition word_of_bytes :: "u8 \<Rightarrow> u8 \<Rightarrow> u8 \<Rightarrow> u8 \<Rightarrow> u8 \<Rightarrow> u8 \<Rightarrow> u8 \<Rightarrow> u8 \<Rightarrow> u64" where
  "word_of_bytes b0 b1 b2 b3 b4 b5 b6 b7 = ucast b0 OR push_bit 8 (ucast b1) OR push_bit 16 (ucast b2) OR push_bit 24 (ucast b3) OR
     push_bit 32 (ucast b4) OR push_bit 40 (ucast b5) OR push_bit 48 (ucast b6) OR push_bit 56 (ucast b7)"

lemma ld64_bytes: "ld64 m a = word_of_bytes (m a) (m (a + 1)) (m (a + 2)) (m (a + 3)) (m (a + 4)) (m (a + 5)) (m (a + 6)) (m (a + 7))"
proof -
  have o: "push_bit n (x OR y) = push_bit n x OR push_bit n y" for n and x y :: u64 by (rule push_bit_or)
  have p: "push_bit i (push_bit j x) = push_bit (i + j) x" for i j and x :: u64 by simp
  have n: "(8 :: nat) = Suc (Suc (Suc (Suc (Suc (Suc (Suc (Suc 0)))))))" by simp
  show ?thesis unfolding ld64_def word_of_bytes_def
    by (subst n) (simp only: ldn.simps, simp add: push_bit_or or.assoc add.assoc)
qed

definition descriptor :: "gdt_entry \<Rightarrow> u8 \<Rightarrow> u64" where
  "descriptor e c = (let l = (if ge_limit e > 65536 then drop_bit 12 (ge_limit e) else ge_limit e); b = ge_base e
     in word_of_bytes (ucast l) (ucast (drop_bit 8 l)) (ucast b) (ucast (drop_bit 8 b)) (ucast (drop_bit 16 b)) (ge_type e)
          (((if c \<noteq> 0 then 0x20 else 0) OR (if ge_limit e > 65536 then 0x80 else 0)) OR ucast (drop_bit 16 l AND 0xF)) (ucast (drop_bit 24 b)))"

lemma put_descriptor_out: "x \<notin> region t 8 \<Longrightarrow> put_descriptor t e c m x = m x"
proof -
  assume "x \<notin> region t 8"
  then have "x \<noteq> t + of_nat i" if "i < 8" for i using that by (auto simp: region_def unat_of_nat)
  from this[of 0] this[of 1] this[of 2] this[of 3] this[of 4] this[of 5] this[of 6] this[of 7]
  show ?thesis by (simp add: put_descriptor_def Let_def st8_byte)
qed

lemma put_descriptor_word: "ld64 (put_descriptor t e c m) t = descriptor e c"
proof -
  have m: "(0xFF :: u64) = mask 8" by (simp add: mask_eq_exp_minus_1)
  have u: "ucast (x AND 0xFF) = (ucast x :: u8)" for x :: u64 unfolding m by (rule bit_word_eqI) (auto simp: bit_simps)
  show ?thesis unfolding ld64_bytes descriptor_def
    by (simp add: put_descriptor_def Let_def st8_byte ld8_byte u)
qed

lemma bit_word_of_bytes:
  "bit (word_of_bytes b0 b1 b2 b3 b4 b5 b6 b7) n \<longleftrightarrow>
     (if n < 8 then bit b0 n else if n < 16 then bit b1 (n - 8) else if n < 24 then bit b2 (n - 16) else if n < 32 then bit b3 (n - 24)
      else if n < 40 then bit b4 (n - 32) else if n < 48 then bit b5 (n - 40) else if n < 56 then bit b6 (n - 48) else bit b7 (n - 56))"
proof -
  have len: "bit b k \<Longrightarrow> k < 8" for b :: u8 and k using bit_imp_le_length[of b k] by simp
  have c: "bit (ucast b :: u64) k \<longleftrightarrow> bit b k" for b :: u8 and k using len[of b k] by (auto simp: bit_simps)
  have p: "bit (push_bit k (ucast b :: u64)) n \<longleftrightarrow> k \<le> n \<and> n < k + 8 \<and> n < 64 \<and> bit b (n - k)" for b :: u8 and k
    using len[of b "n - k"] by (auto simp: bit_push_bit_iff c)
  have e: "n < 64 \<and> bit b7 (n - 56) \<longleftrightarrow> bit b7 (n - 56)" using len[of b7 "n - 56"] by auto
  have n0: "8 \<le> n \<Longrightarrow> \<not> bit b0 n" using len[of b0 n] by auto
  consider "n < 8" | "8 \<le> n" "n < 16" | "16 \<le> n" "n < 24" | "24 \<le> n" "n < 32" | "32 \<le> n" "n < 40" | "40 \<le> n" "n < 48"
    | "48 \<le> n" "n < 56" | "56 \<le> n" by linarith
  then show ?thesis unfolding word_of_bytes_def bit_or_iff p c
    by cases (use n0 in \<open>simp_all add: e\<close>)
qed

lemma bit_byte: "bit (ucast x :: u8) k \<longleftrightarrow> k < 8 \<and> bit x k" for x :: u64
  by (auto simp: bit_simps)

lemma bytes_base:
  "desc_base (word_of_bytes b0 b1 (ucast b) (ucast (drop_bit 8 b)) (ucast (drop_bit 16 b)) b5 b6 (ucast (drop_bit 24 b))) = take_bit 32 b"
proof (rule bit_word_eqI)
  fix n assume n: "n < LENGTH(64)"
  have m: "(0xFFFFFF :: u64) = mask 24" by (simp add: mask_eq_exp_minus_1)
  consider "n < 8" | "8 \<le> n" "n < 16" | "16 \<le> n" "n < 24" | "24 \<le> n" "n < 32" | "32 \<le> n" by linarith
  then show "bit (desc_base (word_of_bytes b0 b1 (ucast b) (ucast (drop_bit 8 b)) (ucast (drop_bit 16 b)) b5 b6 (ucast (drop_bit 24 b)))) n =
      bit (take_bit 32 b) n"
    unfolding desc_base_def m bit_or_iff bit_and_iff bit_mask_iff bit_push_bit_iff bit_drop_bit_eq o_apply bit_word_of_bytes bit_take_bit_iff
    by cases (use n in \<open>auto simp: bit_byte bit_drop_bit_eq\<close>)
qed

lemma bytes_type: "desc_type (word_of_bytes b0 b1 b2 b3 b4 b5 b6 b7) = b5"
  unfolding desc_type_def by (rule bit_word_eqI) (simp add: bit_byte bit_drop_bit_eq bit_word_of_bytes)

lemma bytes_long: "desc_long (word_of_bytes b0 b1 b2 b3 b4 b5 b6 b7) = bit b6 5"
  by (simp add: desc_long_def bit_word_of_bytes)

lemma bytes_limit:
  "desc_limit (word_of_bytes b0 b1 b2 b3 b4 b5 b6 b7) =
     (let l = ucast b0 OR push_bit 8 (ucast b1) OR push_bit 16 (ucast (b6 AND 0xF)) in if bit b6 7 then push_bit 12 l OR 0xFFF else l)"
proof -
  let ?w = "word_of_bytes b0 b1 b2 b3 b4 b5 b6 b7"
  have m: "(0xFFFF :: u64) = mask 16" "(0xF0000 :: u64) = push_bit 16 (mask 4)" "(0xF :: u8) = mask 4" by (simp_all add: mask_eq_exp_minus_1)
  have "(?w AND 0xFFFF) OR (drop_bit 32 ?w AND 0xF0000) = ucast b0 OR push_bit 8 (ucast b1) OR push_bit 16 (ucast (b6 AND 0xF))"
  proof (rule bit_word_eqI)
    fix n assume n: "n < LENGTH(64)"
    have len: "bit b k \<Longrightarrow> k < 8" for b :: u8 and k using bit_imp_le_length[of b k] by simp
    consider "n < 8" | "8 \<le> n" "n < 16" | "16 \<le> n" "n < 20" | "20 \<le> n" by linarith
    then show "bit ((?w AND 0xFFFF) OR (drop_bit 32 ?w AND 0xF0000)) n =
        bit (ucast b0 OR push_bit 8 (ucast b1) OR push_bit 16 (ucast (b6 AND 0xF)) :: u64) n"
      unfolding m bit_or_iff bit_and_iff bit_mask_iff bit_push_bit_iff bit_drop_bit_eq o_apply bit_word_of_bytes
      by cases (use n len[of b0 n] len[of b1 "n - 8"] in \<open>auto simp: bit_simps\<close>)
  qed
  moreover have "bit ?w 55 = bit b6 7" by (simp add: bit_word_of_bytes)
  ultimately show ?thesis by (simp add: desc_limit_def Let_def)
qed

lemma flag_byte:
  fixes l :: u64 and p q :: bool
  defines "b \<equiv> ((if p then 0x20 else 0) OR (if q then 0x80 else 0)) OR (ucast (drop_bit 16 l AND 0xF) :: u8)"
  shows "bit b 5 = p" "bit b 7 = q" "b AND 0xF = ucast (drop_bit 16 l AND 0xF)"
proof -
  have m: "(0xF :: u64) = mask 4" "(0xF :: u8) = mask 4" by (simp_all add: mask_eq_exp_minus_1)
  have f: "bit (ucast (drop_bit 16 l AND 0xF) :: u8) n \<longleftrightarrow> n < 4 \<and> bit l (16 + n)" for n
    unfolding m by (auto simp: bit_simps)
  have e: "(0x20 :: u8) = 2 ^ 5" "(0x80 :: u8) = 2 ^ 7" by simp_all
  have c: "bit (0x20 :: u8) n \<longleftrightarrow> n = 5" "bit (0x80 :: u8) n \<longleftrightarrow> n = 7" for n unfolding e bit_exp_iff by auto
  have b: "bit b n \<longleftrightarrow> n = 5 \<and> p \<or> n = 7 \<and> q \<or> n < 4 \<and> bit l (16 + n)" for n
    unfolding b_def bit_or_iff f by (cases p; cases q; simp only: if_True if_False c simp_thms bit_0_eq bot_apply bot_bool_def; blast?)
  show "bit b 5 = p" "bit b 7 = q" by (simp_all add: b)
  show "b AND 0xF = ucast (drop_bit 16 l AND 0xF)"
    by (rule bit_word_eqI) (auto simp: bit_and_iff b f m(2) bit_mask_iff)
qed

lemma limit_join:
  assumes "l < 2 ^ 20"
  shows "ucast (ucast l :: u8) OR push_bit 8 (ucast (ucast (drop_bit 8 l) :: u8)) OR push_bit 16 (ucast (ucast (drop_bit 16 l AND 0xF) :: u8)) = (l :: u64)"
proof (rule bit_word_eqI)
  fix n assume n: "n < LENGTH(64)"
  have m: "(0xF :: u64) = mask 4" by (simp add: mask_eq_exp_minus_1)
  have "take_bit 20 l = l" using assms by (simp add: word_unat_eq_iff unsigned_take_bit_eq take_bit_nat_eq_self word_less_nat_alt)
  then have hi: "bit l n \<Longrightarrow> n < 20" by (metis bit_take_bit_iff)
  consider "n < 8" | "8 \<le> n" "n < 16" | "16 \<le> n" by linarith
  then show "bit (ucast (ucast l :: u8) OR push_bit 8 (ucast (ucast (drop_bit 8 l) :: u8)) OR push_bit 16 (ucast (ucast (drop_bit 16 l AND 0xF) :: u8)) :: u64) n = bit l n"
    unfolding m by cases (use n hi in \<open>auto simp: bit_simps\<close>)
qed

lemma descriptor_decode:
  assumes "ge_limit e < 2 ^ 32" "ge_limit e > 65536 \<Longrightarrow> ge_limit e AND 0xFFF = 0xFFF"
  shows "desc_base (descriptor e c) = take_bit 32 (ge_base e)" "desc_type (descriptor e c) = ge_type e"
    "desc_long (descriptor e c) \<longleftrightarrow> c \<noteq> 0" "desc_limit (descriptor e c) = ge_limit e"
proof -
  define l where "l = (if ge_limit e > 65536 then drop_bit 12 (ge_limit e) else ge_limit e)"
  let ?b6 = "((if c \<noteq> 0 then 0x20 else 0) OR (if ge_limit e > 65536 then 0x80 else 0)) OR (ucast (drop_bit 16 l AND 0xF) :: u8)"
  have d: "descriptor e c = word_of_bytes (ucast l) (ucast (drop_bit 8 l)) (ucast (ge_base e)) (ucast (drop_bit 8 (ge_base e)))
    (ucast (drop_bit 16 (ge_base e))) (ge_type e) ?b6 (ucast (drop_bit 24 (ge_base e)))"
    by (simp add: descriptor_def l_def Let_def)
  show "desc_base (descriptor e c) = take_bit 32 (ge_base e)" "desc_type (descriptor e c) = ge_type e"
    unfolding d by (rule bytes_base bytes_type)+
  note fb = flag_byte[of "c \<noteq> 0" "ge_limit e > 65536" l]
  show "desc_long (descriptor e c) \<longleftrightarrow> c \<noteq> 0" unfolding d bytes_long by (rule fb(1))
  have "drop_bit 12 x < 2 ^ 20" if "x < 2 ^ 32" for x :: u64
    using that by (simp add: drop_bit_eq_div word_less_nat_alt unat_div less_mult_imp_div_less)
  moreover have "x < 2 ^ 20" if "\<not> 65536 < x" for x :: u64 using that by (simp add: word_less_nat_alt)
  ultimately have l: "l < 2 ^ 20" using assms(1) by (simp add: l_def)
  have "push_bit 12 (drop_bit 12 x) OR 0xFFF = x" if "x AND 0xFFF = 0xFFF" for x :: u64
  proof (rule bit_word_eqI)
    fix n assume n: "n < LENGTH(64)"
    have m: "(0xFFF :: u64) = mask 12" by (simp add: mask_eq_exp_minus_1)
    have "n < 12 \<Longrightarrow> bit x n" using arg_cong[OF that, of "\<lambda>w. bit w n"] n unfolding m by (simp add: bit_and_iff bit_mask_iff)
    then show "bit (push_bit 12 (drop_bit 12 x) OR 0xFFF) n = bit x n" using n unfolding m by (auto simp: bit_simps)
  qed
  then have "(if ge_limit e > 65536 then push_bit 12 l OR 0xFFF else l) = ge_limit e" using assms(2) by (simp add: l_def)
  then show "desc_limit (descriptor e c) = ge_limit e" unfolding d bytes_limit fb Let_def limit_join[OF l] .
qed

section \<open>The table in memory\<close>

definition table_word :: "memory \<Rightarrow> u64 \<Rightarrow> nat \<Rightarrow> u64" where
  "table_word m b i = ld64 m (b + 8 * of_nat i)"

lemma put_descriptor_table:
  assumes "i < 2 ^ 60" "n < 2 ^ 60"
  shows "table_word (put_descriptor (b + 8 * of_nat n) e c m) b i = (if i = n then descriptor e c else table_word m b i)"
proof (cases "i = n")
  case False
  have "8 * Suc i \<le> 2 ^ 64" "8 * Suc n \<le> 2 ^ 64" using assms by simp_all
  then have "sep (b + of_nat (8 * n)) 8 (b + of_nat (8 * i)) 8" using m64.elt_sep[of n i b] False by blast
  then have "sep (b + 8 * of_nat n) 8 (b + 8 * of_nat i) 8" by simp
  then show ?thesis using m64.ld_outside[of "b + 8 * of_nat n" 8 "put_descriptor (b + 8 * of_nat n) e c m" m "b + 8 * of_nat i"]
      put_descriptor_out False by (simp add: table_word_def)
qed (simp add: table_word_def put_descriptor_word)

lemma table_word_cong: "(\<And>x. x \<in> region b (8 * n) \<Longrightarrow> m' x = m x) \<Longrightarrow> i < n \<Longrightarrow> 8 * n \<le> 2 ^ 64 \<Longrightarrow> table_word m' b i = table_word m b i"
  using m64.ld_frame[of b "8 * n" m' m "8 * i"] by (simp add: table_word_def)

lemma table_word_copy:
  assumes "\<And>j. j < 8 * n \<Longrightarrow> m' (b' + of_nat j) = m (b + of_nat j)" "i < n"
  shows "table_word m' b' i = table_word m b i"
proof -
  have "m' (b' + 8 * of_nat i + of_nat k) = m (b + 8 * of_nat i + of_nat k)" if "k < 8" for k
    using assms(1)[of "8 * i + k"] that assms(2) by (simp add: add.assoc)
  from this[of 0] this[of 1] this[of 2] this[of 3] this[of 4] this[of 5] this[of 6] this[of 7]
  show ?thesis by (simp add: table_word_def ld64_bytes)
qed

lemma add_entry_room:
  assumes "\<not> (ge_limit e > 65536 \<and> ge_limit e AND 0xFFF \<noteq> 0xFFF)" "gdt_allocated_size d div 8 \<noteq> gdt_entries d"
  shows "add_entry g j1 j2 e c (d, s) = Some (8 * gdt_entries d, d\<lparr>gdt_entries := gdt_entries d + 1\<rparr>,
    s\<lparr>mem := put_descriptor (gdt_base d + 8 * gdt_entries d) e c (mem s)\<rparr>)"
  using assms by (auto simp: add_entry_def GDT_ENTRY_SIZE_def Let_def algebra_simps)

section \<open>Initialisation on an empty heap\<close>

text \<open>The first allocation: a new page with one block at its end.\<close>

lemma first_block:
  assumes k: "kheap_rep g r ps s t []" and room: "heap_room r s t"
  shows "\<exists>ps' s' t' pg. malloc g 32 s = Some (pg + 24 + 24 + 3992 + 24, s') \<and>
    kheap_rep g r ps' s' t' [(pg, [pg + 24], [pg + 24 + 24 + 3992])] \<and>
    blk_length (mem s') (pg + 24) = 3992 \<and> blk_length (mem s') (pg + 24 + 24 + 3992) = 32"
proof -
  define pg where "pg = fst (the (alloc_range 2 (ranges t)))"
  obtain ps' s1 t' where f: "find_free g 32 s = Some (pg + 24, s1)" "kheap_rep g r ps' s1 t' ([] @ (pg, [pg + 24], []) # [])"
    "blk_length (mem s1) (pg + 24) = 4048"
    using find_free_grow[OF k _ room, of 32, folded pg_def] by auto
  obtain m where "carve 32 (pg + 24) (mem s1) = Some (pg + 24 + 24 + 3992 + 24, m)"
    "kheap_rep g r ps' (s1\<lparr>mem := m\<rparr>) t' [(pg, [pg + 24], [pg + 24 + 24 + 3992])]"
    "blk_length m (pg + 24 + 24 + 3992) = 32" "blk_length m (pg + 24) = 3992"
    using carve_split[OF f(2), of "pg + 24" 32] f(3) by auto
  then show ?thesis using f(1)
    by (intro exI[of _ ps'] exI[of _ "s1\<lparr>mem := m\<rparr>"] exI[of _ t'] exI[of _ pg]) (simp add: malloc_carve)
qed

definition put_four :: "u64 \<Rightarrow> memory \<Rightarrow> memory" where
  "put_four b m = put_descriptor (b + 24) \<lparr>ge_base = 0, ge_limit = 0, ge_type = 0xf2\<rparr> 0
     (put_descriptor (b + 16) \<lparr>ge_base = 0, ge_limit = 0, ge_type = 0x9a\<rparr> 1
       (put_descriptor (b + 8) \<lparr>ge_base = 0, ge_limit = 0, ge_type = 0x92\<rparr> 0
         (put_descriptor b \<lparr>ge_base = 0, ge_limit = 0, ge_type = 0\<rparr> 0 m)))"

lemma put_four_out:
  assumes "x \<notin> region b 32"
  shows "put_four b m x = m x"
proof -
  have "x \<notin> region (b + of_nat j) 8" if "j + 8 \<le> 32" for j using region_sub[of j 8 32 b] that assms by auto
  from this[of 0] this[of 8] this[of 16] this[of 24] show ?thesis by (simp add: put_four_def put_descriptor_out)
qed

lemma descriptor_flat: "descriptor \<lparr>ge_base = 0, ge_limit = 0, ge_type = ty\<rparr> c = push_bit 40 (ucast ty) OR (if c \<noteq> 0 then 0x20000000000000 else 0)"
  by (simp add: descriptor_def word_of_bytes_def)

lemma put_four_table:
  "table_word (put_four b m) b 0 = 0" "table_word (put_four b m) b 1 = 0x920000000000"
  "table_word (put_four b m) b 2 = 0x209a0000000000" "table_word (put_four b m) b 3 = 0xf20000000000"
  using put_descriptor_table[of _ 0 b] put_descriptor_table[of _ 1 b] put_descriptor_table[of _ 2 b] put_descriptor_table[of _ 3 b]
  by (simp_all add: put_four_def descriptor_flat)

lemma gdt_init_four:
  assumes "malloc g 32 s = Some (b, s1)" "gdt_entries d = 0" "gdt_allocated_size d = 32"
  shows "gdt_init g j1 j2 (d, s) =
    do { (seg, d, s) \<leftarrow> add_entry g j1 j2 \<lparr>ge_base = 0, ge_limit = 0, ge_type = 0xfa\<rparr> 1
           (d\<lparr>gdt_base := b, kern_code_seg := 16, gdt_entries := 4\<rparr>, s1\<lparr>mem := put_four b (mem s1)\<rparr>);
         let d = d\<lparr>user_code_seg := seg\<rparr>;
         Some (reload_gdt (gdt_base d) (gdt_entries d * GDT_ENTRY_SIZE) (kern_code_seg d) d, s) }"
  using assms by (simp add: gdt_init_def add_entry_room put_four_def)

text \<open>
  The fifth entry does not fit: the table is copied to a new block and the old block is freed. It is not
  the last allocated one, so the new block gets on the free list with it.
\<close>

lemma grow_step:
  fixes pg :: u64
  defines "f \<equiv> pg + 24" and "a1 \<equiv> pg + 24 + 24 + 3992" and "a2 \<equiv> pg + 24 + 24 + 3904"
  assumes k: "kheap_rep g r ps s t [(pg, [f], [a1])]" and l: "blk_length (mem s) f = 3992" "blk_length (mem s) a1 = 32"
    and d: "gdt_base d = a1 + 24" "gdt_allocated_size d = 32"
  shows "\<exists>m. grow_table g j1 j2 (d, s) =
      Some ((reload_gdt (a2 + 24) (gdt_entries d * 8) (kern_code_seg d) d)\<lparr>gdt_allocated_size := 64, gdt_base := a2 + 24\<rparr>, s\<lparr>mem := m\<rparr>) \<and>
    links m (pg + 8) [f, a1, a2] 0 \<and> links m (pg + 16) [a2] 0 \<and>
    (\<forall>i<4. table_word m (a2 + 24) i = table_word (mem s) (a1 + 24) i) \<and>
    (\<forall>c\<in>{pg, f, a1, a2}. region c 24 \<inter> region (a2 + 24) 64 = {})"
proof -
  have k': "kheap_rep g r ps s t ([] @ (pg, [f], [a1]) # [])" using k by simp
  have "fit (mem s) 64 (pg, [f], [a1]) = Some f" by (simp add: fit_def l)
  from find_free_first[OF kheap_repD(3)[OF k'] _ this] have ff: "find_free g 64 s = Some (f, s)" by simp
  have p: "page_ok (mem s) pg [f] [a1]" by (rule heap_okD(3)[OF kheap_repD(3)[OF k]]) simp
  have na: "a1 \<noteq> f" by (simp add: a1_def f_def)
  obtain m1 where m1: "carve 64 f (mem s) = Some (a2 + 24, m1)" "kheap_rep g r ps (s\<lparr>mem := m1\<rparr>) t ([] @ (pg, [f], [a1, a2]) # [])"
    "blk_length m1 a2 = 64" "blk_length m1 a1 = 32" "blk_length m1 f = 3904" "alloc_frame pg {f, a1} f (mem s) m1"
    using carve_split[OF k', of f 64] l na unfolding a2_def f_def by auto
  have c1: "m1 x = mem s x" if "x \<in> region (a1 + 24) 32" for x using payload_frame[OF p _ _ _, of f m1 a1 x] m1(6) that l(2) by simp
  note d1 = kheap_repD[OF m1(2)]
  have p1: "page_ok m1 pg [f] [a1, a2]" using heap_okD(3)[OF d1(3)] by simp
  have apart: "sep (a2 + 24) 32 (a1 + 24) 32"
    using sep_offsets[of 3976 32 4064 32 pg] by (simp add: a1_def a2_def add.assoc)
  define m2 where "m2 = snd (memcpy (a2 + 24) (a1 + 24) 32 m1)"
  have cp: "m2 (a2 + 24 + of_nat j) = m1 (a1 + 24 + of_nat j)" if "j < 32" for j
    using memcpy_spec(2)[of "a2 + 24" 32 "a1 + 24" j m1] apart that by (simp add: m2_def)
  have out2: "m2 x = m1 x" if "x \<notin> region (a2 + 24) 64" for x
    using memcpy_spec(3)[of "a2 + 24" 32 "a1 + 24" x m1] apart that region_mono[of 32 64 "a2 + 24"] by (auto simp: m2_def)
  have p2: "page_ok m2 pg [f] [a1, a2]" and l2: "\<And>c. c \<in> set ([f] @ [a1, a2]) \<Longrightarrow> blk_length m2 c = blk_length m1 c"
    using payload_page(1,2)[OF p1, of a2 m2] out2 m1(3) by simp_all
  have no: "\<forall>w\<in>set [f]. \<not> neighbour m2 a1 w"
    using l2 m1(3-5) by (simp add: neighbour_def a1_def a2_def f_def add.assoc)
  obtain m3 where m3: "free_block a1 m2 = Some m3" "links m3 (pg + 8) [f, a1, a2] 0" "links m3 (pg + 16) [a2] 0"
    "free_frame_page pg (set ([f] @ [a1, a2])) m2 m3"
    using free_end[of m2 pg "[f]" "[]" a1 "[a2]"] p2 no by auto
  have "ld64 m3 (pg + 16) \<noteq> 0" using m3(3) by simp
  then have fr: "free g (a1 + 24) j1 j2 (s\<lparr>mem := m2\<rparr>) = Some (s\<lparr>mem := m3\<rparr>)"
    using free_code[of "s\<lparr>mem := m2\<rparr>" pg "[f]" "[a1, a2]" a1 m3 g j1 j2] p2 m3(1) by simp
  have "grow_table g j1 j2 (d, s) = Some ((reload_gdt (a2 + 24) (gdt_entries d * 8) (kern_code_seg d) d)\<lparr>gdt_allocated_size := 64, gdt_base := a2 + 24\<rparr>, s\<lparr>mem := m3\<rparr>)"
    using ff m1(1) fr d by (simp add: grow_table_def malloc_carve reload_gdt_def GDT_ENTRY_SIZE_def Let_def flip: m2_def)
  moreover have "table_word m3 (a2 + 24) i = table_word (mem s) (a1 + 24) i" if "i < 4" for i
  proof (rule table_word_copy[where n = 4, OF _ that])
    fix j assume j: "j < 8 * (4 :: nat)"
    then have "a2 + 24 + of_nat j \<in> region (a2 + 24) 64" "a1 + 24 + of_nat j \<in> region (a1 + 24) 32" by (simp_all add: region_def unat_of_nat)
    then show "m3 (a2 + 24 + of_nat j) = mem s (a1 + 24 + of_nat j)"
      using free_frame_parts(3)[OF p2 m3(4), of a2 "a2 + 24 + of_nat j"] l2[of a2] m1(3) cp[of j] c1 j by simp
  qed
  moreover have "\<forall>c\<in>{pg, f, a1, a2}. region c 24 \<inter> region (a2 + 24) 64 = {}"
    using payload_header(2)[OF p1, of a2] m1(3) payload_pghdr[OF p1, of a2] by auto
  ultimately show ?thesis using m3(2,3) by blast
qed

section \<open>Properties\<close>

text \<open>
  C35. Round trip of a descriptor. When the table has room and the entry is one the function accepts, with a
  limit below 4 GiB, the selector it returns is the offset of the new descriptor; what the processor decodes
  from there are the type, the long-mode flag, the limit and the low 32 bits of the base of the entry; and
  all other descriptors stay. (The base of a task state above 4 GiB is cut off.)
\<close>

theorem add_entry_descriptor:
  assumes "ge_limit e < 2 ^ 32" "ge_limit e > 65536 \<Longrightarrow> ge_limit e AND 0xFFF = 0xFFF"
    "gdt_allocated_size d div 8 \<noteq> gdt_entries d" "unat (gdt_entries d) < 2 ^ 60"
  shows "\<exists>s'. add_entry g j1 j2 e c (d, s) = Some (8 * gdt_entries d, d\<lparr>gdt_entries := gdt_entries d + 1\<rparr>, s') \<and>
    desc_base (ld64 (mem s') (gdt_base d + 8 * gdt_entries d)) = take_bit 32 (ge_base e) \<and>
    desc_limit (ld64 (mem s') (gdt_base d + 8 * gdt_entries d)) = ge_limit e \<and>
    desc_type (ld64 (mem s') (gdt_base d + 8 * gdt_entries d)) = ge_type e \<and>
    (desc_long (ld64 (mem s') (gdt_base d + 8 * gdt_entries d)) \<longleftrightarrow> c \<noteq> 0) \<and>
    (\<forall>i<2 ^ 60. i \<noteq> unat (gdt_entries d) \<longrightarrow> table_word (mem s') (gdt_base d) i = table_word (mem s) (gdt_base d) i)"
proof -
  let ?t = "gdt_base d + 8 * gdt_entries d"
  let ?s = "s\<lparr>mem := put_descriptor ?t e c (mem s)\<rparr>"
  have "add_entry g j1 j2 e c (d, s) = Some (8 * gdt_entries d, d\<lparr>gdt_entries := gdt_entries d + 1\<rparr>, ?s)"
    by (rule add_entry_room) (use assms(2,3) in auto)
  moreover have "table_word (mem ?s) (gdt_base d) i = table_word (mem s) (gdt_base d) i" if "i < 2 ^ 60" "i \<noteq> unat (gdt_entries d)" for i
    using put_descriptor_table[OF that(1) assms(4), of "gdt_base d" e c "mem s"] that(2) by simp
  ultimately show ?thesis using descriptor_decode[OF assms(1,2), where c = c]
    by (intro exI[of _ ?s]) (simp add: put_descriptor_word)
qed

definition demo_gdt :: gdt where
  "demo_gdt = \<lparr>gdt_base = 0x500000, gdt_entries = 2, gdt_allocated_size = 32, kern_code_seg = 0, user_code_seg = 0,
     gdtr_base = 0, gdtr_limit = 0, cs_reg = 0\<rparr>"

theorem add_entry_descriptor_witness:
  "\<exists>s'. add_entry demo_g 0 0 \<lparr>ge_base = 0x1ffff12345678, ge_limit = 0xfffff, ge_type = 0x9a\<rparr> 1 (demo_gdt, demo_k0) =
       Some (16, demo_gdt\<lparr>gdt_entries := 3\<rparr>, s') \<and>
     desc_base (ld64 (mem s') 0x500010) = 0x12345678 \<and> desc_limit (ld64 (mem s') 0x500010) = 0xfffff"
  using add_entry_descriptor[of "\<lparr>ge_base = 0x1ffff12345678, ge_limit = 0xfffff, ge_type = 0x9a\<rparr>" demo_gdt demo_g 0 0 1 demo_k0]
  by (auto simp: demo_gdt_def)

text \<open>
  C36. \<open>gdt_init\<close> as the first client of the heap. It returns with the five descriptors in the table that the
  processor has loaded and with the kernel's code segment in \<open>cs\<close>. But the table grows at the fifth entry, and
  freeing the old table puts the block of the new one on the free list of its page: the next allocations
  can overwrite the descriptor table in use.
\<close>

theorem gdt_init_table_on_free_list:
  assumes k: "kheap_rep g r ps s t []" and room: "heap_room r s t" and d: "gdt_entries d = 0" "gdt_allocated_size d = 32"
  shows "\<exists>d' s' pg old new. gdt_init g j1 j2 (d, s) = Some (d', s') \<and>
    gdtr_base d' = new + 24 \<and> gdtr_limit d' = 40 \<and> cs_reg d' = 16 \<and>
    map (table_word (mem s') (new + 24)) [0..<5] =
      [0, 0x920000000000, 0x209a0000000000, 0xf20000000000, 0x20fa0000000000] \<and>
    links (mem s') (pg + 16) [new] 0 \<and> links (mem s') (pg + 8) [pg + 24, old, new] 0"
proof -
  obtain ps1 s1 t1 pg where f: "malloc g 32 s = Some (pg + 24 + 24 + 3992 + 24, s1)"
    "kheap_rep g r ps1 s1 t1 [(pg, [pg + 24], [pg + 24 + 24 + 3992])]"
    "blk_length (mem s1) (pg + 24) = 3992" "blk_length (mem s1) (pg + 24 + 24 + 3992) = 32"
    using first_block[OF k room] by blast
  let ?a1 = "pg + 24 + 24 + 3992" and ?new = "pg + 24 + 24 + 3904"
  let ?m = "put_four (?a1 + 24) (mem s1)"
  let ?d = "d\<lparr>gdt_base := ?a1 + 24, kern_code_seg := 16, gdt_entries := 5\<rparr>"
  let ?e = "\<lparr>ge_base = 0, ge_limit = 0, ge_type = 0xfa\<rparr>"
  have w: "?m x = mem s1 x" if "x \<notin> region (?a1 + 24) (unat (blk_length (mem s1) ?a1))" for x
    using that f(4) by (intro put_four_out) simp
  note kp = kheap_payload[of g r ps1 s1 t1 "[]" pg "[pg + 24]" "[?a1]" "[]" ?a1 ?m, OF _ _ w]
  obtain m where g: "grow_table g j1 j2 (?d, s1\<lparr>mem := ?m\<rparr>) =
      Some ((reload_gdt (?new + 24) (5 * 8) 16 ?d)\<lparr>gdt_allocated_size := 64, gdt_base := ?new + 24\<rparr>, s1\<lparr>mem := m\<rparr>)"
    "links m (pg + 8) [pg + 24, ?a1, ?new] 0" "links m (pg + 16) [?new] 0"
    "\<forall>i<4. table_word m (?new + 24) i = table_word ?m (?a1 + 24) i" "\<forall>c\<in>{pg, pg + 24, ?a1, ?new}. region c 24 \<inter> region (?new + 24) 64 = {}"
    using grow_step[of g r ps1 "s1\<lparr>mem := ?m\<rparr>" t1 pg ?d j1 j2] kp f(2-4) d by auto
  let ?m' = "put_descriptor (?new + 24 + 8 * of_nat 4) ?e 1 m"
  let ?d' = "(reload_gdt (?new + 24) (5 * 8) 16 ?d)\<lparr>gdt_allocated_size := 64, gdt_base := ?new + 24\<rparr>"
  have "add_entry g j1 j2 ?e 1 (d\<lparr>gdt_base := ?a1 + 24, kern_code_seg := 16, gdt_entries := 4\<rparr>, s1\<lparr>mem := ?m\<rparr>) =
      Some (32, ?d', s1\<lparr>mem := ?m'\<rparr>)"
    using g(1) d(2) by (simp add: add_entry_def GDT_ENTRY_SIZE_def reload_gdt_def)
  then have code: "gdt_init g j1 j2 (d, s) = Some (reload_gdt (?new + 24) 40 16 (?d'\<lparr>user_code_seg := 32\<rparr>), s1\<lparr>mem := ?m'\<rparr>)"
    using gdt_init_four[OF f(1) d, of j1 j2] by (simp add: reload_gdt_def GDT_ENTRY_SIZE_def)
  have "region (?new + 24 + of_nat 32) 8 \<subseteq> region (?new + 24) 64" by (rule region_sub) simp_all
  then have "?m' x = m x" if "c \<in> {pg, pg + 24, ?a1, ?new}" "x \<in> region c 24" for c x
    using bspec[OF g(5) that(1)] that(2) by (intro put_descriptor_out) auto
  then have h: "ld64 ?m' c = ld64 m c" "ld64 ?m' (c + 8) = ld64 m (c + 8)" "ld64 ?m' (c + 16) = ld64 m (c + 16)" if "c \<in> {pg, pg + 24, ?a1, ?new}" for c
    using header_cong[of c ?m' m] that by blast+
  have l: "links ?m' (pg + 8) [pg + 24, ?a1, ?new] 0" "links ?m' (pg + 16) [?new] 0"
    using g(2,3) h[of pg] h(1)[of "pg + 24"] h(1)[of ?a1] h(1)[of ?new] by simp_all
  have "table_word ?m' (?new + 24) i = (if i = 4 then descriptor ?e 1 else table_word ?m (?a1 + 24) i)" if "i < 5" for i
    using put_descriptor_table[of i 4 "?new + 24" ?e 1 m] g(4) that by auto
  moreover have "[0..<5] = [0, 1, 2, 3, 4 :: nat]" by (simp add: upt_rec)
  ultimately have "map (table_word ?m' (?new + 24)) [0..<5] = [0, 0x920000000000, 0x209a0000000000, 0xf20000000000, 0x20fa0000000000]"
    using put_four_table[of "?a1 + 24" "mem s1"] by (simp add: descriptor_flat)
  then show ?thesis using code l
    by (intro exI[of _ "reload_gdt (?new + 24) 40 16 (?d'\<lparr>user_code_seg := 32\<rparr>)"] exI[of _ "s1\<lparr>mem := ?m'\<rparr>"] exI[of _ pg] exI[of _ ?a1] exI[of _ ?new])
      (simp add: reload_gdt_def)
qed

theorem gdt_init_table_on_free_list_witness:
  "\<exists>d' s' pg old new. gdt_init demo_g 0 0 (demo_gdt\<lparr>gdt_entries := 0\<rparr>, demo_k0) = Some (d', s') \<and> gdtr_base d' = new + 24 \<and>
     links (mem s') (pg + 16) [new] 0 \<and> links (mem s') (pg + 8) [pg + 24, old, new] 0"
proof -
  let ?d = "demo_gdt\<lparr>gdt_entries := 0\<rparr>"
  have "gdt_entries ?d = 0" "gdt_allocated_size ?d = 32" by (simp_all add: demo_gdt_def)
  from gdt_init_table_on_free_list[OF demo_k0_rep this, of 0 0] show ?thesis by blast
qed

end
