(* ===== verification/Spec2Isabelle.thy ===== *)
theory Spec2Isabelle
  imports Mem_Lock Kernel_Boot Gdt
begin

text \<open>
  Skeleton.
\<close>

end
